(* ===== verification/Prelude.thy ===== *)
theory Prelude
  imports Main "HOL-Library.Word"
begin

text \<open>
  Shared vocabulary of the development: the machine integers of the Rust sources,
  the result type of fallible operations, slices of byte lists, and the interfaces
  (locales) that several components share.

  \<^item> A Rust \<open>u64\<close> or \<open>usize\<close> that is only counted and compared is a \<^typ>\<open>nat\<close> below
    \<open>u64_mod\<close> (\<open>2 ^ 64\<close>); the operators that wrap around in a release build are
    \<open>add64\<close>, \<open>sub64\<close> and \<open>mul64\<close>, and \<open>saturating_add\<close> is \<open>sat_add64\<close>.
    \<open>saturating_sub\<close> is the truncating subtraction of \<^typ>\<open>nat\<close>.
    Values that are taken apart bit by bit (the codec, the packet number window)
    are words of HOL-Library.Word.  \<open>usize\<close> has 64 bits.
  \<^item> A fallible operation returns \<open>'a result\<close>: \<open>Inr v\<close> is \<open>Ok(v)\<close> and \<open>Inl f\<close> a fault,
    either an error value of the crate or a panic of the process.
\<close>

named_theorems u64_arith \<open>u64 operators that do not wrap around\<close>

type_synonym u64 = nat
type_synonym usize = nat
type_synonym byte = "8 word"

subsection \<open>Arithmetic of 64-bit unsigned integers\<close>

text \<open>\<open>MAX_STREAMS_PER_TYPE\<close> (\<open>src/lib.rs\<close>) bounds the streams of one type.\<close>

definition MAX_STREAMS_PER_TYPE :: u64 where
  "MAX_STREAMS_PER_TYPE = 2 ^ 60"

definition u64_mod :: nat where
  "u64_mod = 2 ^ 64"

definition u64_max :: u64 where
  "u64_max = u64_mod - 1"

definition add64 :: "u64 \<Rightarrow> u64 \<Rightarrow> u64" where
  "add64 a b = (a + b) mod u64_mod"

definition sub64 :: "u64 \<Rightarrow> u64 \<Rightarrow> u64" where
  "sub64 a b = (if b \<le> a then a - b else u64_mod + a - b)"

definition mul64 :: "u64 \<Rightarrow> u64 \<Rightarrow> u64" where
  "mul64 a b = (a * b) mod u64_mod"

definition sat_add64 :: "u64 \<Rightarrow> u64 \<Rightarrow> u64" where
  "sat_add64 a b = min (a + b) u64_max"

lemma u64_mod_pos [simp]: "0 < u64_mod"
  by (simp add: u64_mod_def)

lemma u64_max_less [simp]: "u64_max < u64_mod"
  by (simp add: u64_max_def u64_mod_def)

lemma add64_nowrap [u64_arith]: "a + b < u64_mod \<Longrightarrow> add64 a b = a + b"
  by (simp add: add64_def)

lemma sub64_nowrap [u64_arith]: "b \<le> a \<Longrightarrow> sub64 a b = a - b"
  by (simp add: sub64_def)

lemma mul64_nowrap [u64_arith]: "a * b < u64_mod \<Longrightarrow> mul64 a b = a * b"
  by (simp add: mul64_def)

lemma sat_add64_nowrap [u64_arith]: "a + b < u64_mod \<Longrightarrow> sat_add64 a b = a + b"
proof -
  assume "a + b < u64_mod"
  then have "a + b \<le> u64_mod - 1" by linarith
  then show ?thesis by (simp add: sat_add64_def u64_max_def)
qed

lemma add64_bound [simp]: "add64 a b < u64_mod"
  by (simp add: add64_def)

lemma sat_add64_bound [simp]: "sat_add64 a b < u64_mod"
  by (simp add: sat_add64_def min_less_iff_disj)

lemma sat_add64_ge: "a < u64_mod \<Longrightarrow> a \<le> sat_add64 a b"
  by (simp add: sat_add64_def u64_max_def min_def u64_mod_def)

lemma add64_0 [simp]: "a < u64_mod \<Longrightarrow> add64 a 0 = a"
  by (simp add: add64_def)

lemma sub64_0 [simp]: "sub64 a 0 = a"
  by (simp add: sub64_def)

lemma sub64_self [simp]: "sub64 a a = 0"
  by (simp add: sub64_def)

lemmas u64_eval = u64_mod_def u64_max_def add64_def sub64_def mul64_def sat_add64_def

subsection \<open>Slices of lists\<close>

text \<open>The elements of a list from position \<open>a\<close> up to but not including \<open>b\<close>.\<close>

definition segm :: "nat \<Rightarrow> nat \<Rightarrow> 'a list \<Rightarrow> 'a list" where
  "segm a b xs = take (b - a) (drop a xs)"

text \<open>The slice \<open>xs[a..b]\<close> of the source: \<^const>\<open>None\<close> is its panic when the range is not within the list.\<close>

definition slice :: "nat \<Rightarrow> nat \<Rightarrow> 'a list \<Rightarrow> 'a list option" where
  "slice a b xs = (if a \<le> b \<and> b \<le> length xs then Some (segm a b xs) else None)"

lemma slice_Some [simp]: "a \<le> b \<Longrightarrow> b \<le> length xs \<Longrightarrow> slice a b xs = Some (segm a b xs)"
  by (simp add: slice_def)

text \<open>A list with \<open>bs\<close> written at position \<open>i\<close>.\<close>

definition splice :: "nat \<Rightarrow> 'a list \<Rightarrow> 'a list \<Rightarrow> 'a list" where
  "splice i bs xs = take i xs @ bs @ drop (i + length bs) xs"

lemma length_splice [simp]: "i + length bs \<le> length xs \<Longrightarrow> length (splice i bs xs) = length xs"
  by (simp add: splice_def)

lemma take_splice: "i \<le> length xs \<Longrightarrow> take (i + length bs) (splice i bs xs) = take i xs @ bs"
  by (simp add: splice_def)

lemma drop_splice: "i \<le> length xs \<Longrightarrow> i + length bs \<le> j \<Longrightarrow> drop j (splice i bs xs) = drop j xs"
  by (simp add: splice_def)

lemma segm_splice: "i \<le> length xs \<Longrightarrow> segm i (i + length bs) (splice i bs xs) = bs"
  by (simp add: splice_def segm_def)

lemma splice_Nil [simp]: "splice i [] xs = xs"
  by (simp add: splice_def)

lemma splice_append:
  "i + length a \<le> length xs \<Longrightarrow> splice (i + length a) b (splice i a xs) = splice i (a @ b) xs"
  by (simp add: splice_def ac_simps)

text \<open>Two adjacent pieces, the second written first.\<close>

lemma splice_adjacent:
  "i + length a + length b \<le> length xs \<Longrightarrow> splice i a (splice (i + length a) b xs) = splice i (a @ b) xs"
  by (simp add: splice_def min_absorb1 add.assoc)

lemma segm_empty [simp]: "segm a a xs = []"
  by (simp add: segm_def)

lemma length_segm [simp]: "b \<le> length xs \<Longrightarrow> length (segm a b xs) = b - a"
  by (simp add: segm_def)

lemma segm_append_adjacent: "a \<le> b \<Longrightarrow> b \<le> c \<Longrightarrow> segm a b xs @ segm b c xs = segm a c xs"
proof -
  assume ab: "a \<le> b" and bc: "b \<le> c"
  have "take (b - a) (drop a xs) @ take (c - b) (drop (b - a) (drop a xs))
      = take (b - a + (c - b)) (drop a xs)"
    by (simp add: take_add)
  with ab bc show ?thesis
    by (simp add: segm_def)
qed

lemma segm_0: "segm 0 b xs = take b xs"
  by (simp add: segm_def)

lemma segm_nth: "i < b - a \<Longrightarrow> b \<le> length xs \<Longrightarrow> segm a b xs ! i = xs ! (a + i)"
  by (simp add: segm_def)

lemma segm_append_left: "b \<le> length xs \<Longrightarrow> segm a b (xs @ ys) = segm a b xs"
  by (cases "a \<le> b") (simp_all add: segm_def)

lemma take_segm: "a + n \<le> b \<Longrightarrow> take n (segm a b xs) = segm a (a + n) xs"
  by (simp add: segm_def min_def)

lemma drop_segm: "drop n (segm a b xs) = segm (a + n) b xs"
  by (simp add: segm_def drop_take add.commute)

subsection \<open>Machines with an invariant\<close>

text \<open>
  A component that is driven by a sequence of operations: \<open>step s op\<close> is the state after
  \<open>op\<close>, and \<open>ok s op\<close> is what the caller guarantees about \<open>op\<close> in state \<open>s\<close>.
  A component instantiates the interface with its own step function; what holds after one
  step then holds after every run.
\<close>

fun ok_run :: "('s \<Rightarrow> 'op \<Rightarrow> 's) \<Rightarrow> ('s \<Rightarrow> 'op \<Rightarrow> bool) \<Rightarrow> 's \<Rightarrow> 'op list \<Rightarrow> bool" where
  "ok_run step ok s [] \<longleftrightarrow> True"
| "ok_run step ok s (x # xs) \<longleftrightarrow> ok s x \<and> ok_run step ok (step s x) xs"

locale inv_machine =
  fixes step :: "'s \<Rightarrow> 'op \<Rightarrow> 's"
    and ok :: "'s \<Rightarrow> 'op \<Rightarrow> bool"
    and inv :: "'s \<Rightarrow> bool"
  assumes inv_step: "inv s \<Longrightarrow> ok s x \<Longrightarrow> inv (step s x)"
begin

lemma run_inv: "inv s \<Longrightarrow> ok_run step ok s xs \<Longrightarrow> inv (foldl step s xs)"
  by (induction xs arbitrary: s) (auto intro: inv_step)

end

locale mono_machine = inv_machine +
  fixes level :: "'a \<Rightarrow> nat"
  assumes level_step: "inv s \<Longrightarrow> ok s x \<Longrightarrow> level s \<le> level (step s x)"
begin

lemma run_level: "inv s \<Longrightarrow> ok_run step ok s xs \<Longrightarrow> level s \<le> level (foldl step s xs)"
proof (induction xs arbitrary: s)
  case (Cons x xs)
  then have "level (step s x) \<le> level (foldl step (step s x) xs)"
    by (auto intro: inv_step)
  moreover have "level s \<le> level (step s x)"
    using Cons.prems by (auto intro: level_step)
  ultimately show ?case by simp
qed simp

end

end
