(* ===== verification/Btree.thy ===== *)
theory Btree
  imports Prelude
begin

text \<open>
  The part of \<open>std::collections::BTreeMap\<close> the sources use, on association lists kept in
  ascending key order: insertion (which replaces the value of a key that is present),
  removal, the first entry, and the range queries of \<open>RangeSet\<close> and \<open>RecvBuf\<close>.
\<close>

named_theorems btree_simps \<open>characteristic equations of the ordered association lists\<close>

type_synonym ('k, 'v) btree = "('k \<times> 'v) list"

definition bt_sorted :: "('k::linorder, 'v) btree \<Rightarrow> bool" where
  "bt_sorted xs \<longleftrightarrow> sorted_wrt (<) (map fst xs)"

fun bt_insert :: "'k::linorder \<Rightarrow> 'v \<Rightarrow> ('k, 'v) btree \<Rightarrow> ('k, 'v) btree" where
  "bt_insert k v [] = [(k, v)]"
| "bt_insert k v ((a, b) # xs) =
     (if k < a then (k, v) # (a, b) # xs
      else if k = a then (k, v) # xs
      else (a, b) # bt_insert k v xs)"

definition bt_remove :: "'k \<Rightarrow> ('k, 'v) btree \<Rightarrow> ('k, 'v) btree" where
  "bt_remove k xs = filter (\<lambda>e. fst e \<noteq> k) xs"

text \<open>The entries with a key of at least \<open>k\<close>, as \<open>range(k..)\<close> yields them.\<close>

definition bt_range_from :: "'k::linorder \<Rightarrow> ('k, 'v) btree \<Rightarrow> ('k, 'v) btree" where
  "bt_range_from k xs = filter (\<lambda>e. k \<le> fst e) xs"

definition bt_range_after :: "'k::linorder \<Rightarrow> ('k, 'v) btree \<Rightarrow> ('k, 'v) btree" where
  "bt_range_after k xs = filter (\<lambda>e. k < fst e) xs"

definition bt_range_upto :: "'k::linorder \<Rightarrow> ('k, 'v) btree \<Rightarrow> ('k, 'v) btree" where
  "bt_range_upto k xs = filter (\<lambda>e. fst e \<le> k) xs"

text \<open>\<open>next()\<close> and \<open>next_back()\<close> of an iterator over entries.\<close>

definition first_entry :: "'a list \<Rightarrow> 'a option" where
  "first_entry xs = (case xs of [] \<Rightarrow> None | x # _ \<Rightarrow> Some x)"

definition last_entry :: "'a list \<Rightarrow> 'a option" where
  "last_entry xs = (if xs = [] then None else Some (last xs))"

lemma first_entry_simps [simp]:
  "first_entry [] = None"
  "first_entry (x # xs) = Some x"
  by (simp_all add: first_entry_def)

lemma last_entry_Nil [simp]: "last_entry [] = None"
  by (simp add: last_entry_def)

lemma last_entry_snoc [simp]: "last_entry (xs @ [x]) = Some x"
  by (simp add: last_entry_def)

lemma first_entry_SomeD: "first_entry xs = Some x \<Longrightarrow> \<exists>ys. xs = x # ys"
  by (cases xs) simp_all

lemma first_entry_mem: "first_entry xs = Some x \<Longrightarrow> x \<in> set xs"
  by (cases xs) auto

lemma last_entry_SomeD: "last_entry xs = Some x \<Longrightarrow> \<exists>ys. xs = ys @ [x]"
  by (cases xs rule: rev_cases) simp_all

lemma first_entry_None_iff [simp]: "first_entry xs = None \<longleftrightarrow> xs = []"
  by (cases xs) simp_all

lemma last_entry_None_iff [simp]: "last_entry xs = None \<longleftrightarrow> xs = []"
  by (cases xs rule: rev_cases) simp_all

lemma bt_sorted_Nil [simp]: "bt_sorted []"
  by (simp add: bt_sorted_def)

lemma bt_sorted_Cons [simp]:
  "bt_sorted (e # xs) \<longleftrightarrow> (\<forall>x \<in> set xs. fst e < fst x) \<and> bt_sorted xs"
  by (auto simp: bt_sorted_def)

lemma bt_sorted_append:
  "bt_sorted (xs @ ys) \<longleftrightarrow> bt_sorted xs \<and> bt_sorted ys \<and> (\<forall>x \<in> set xs. \<forall>y \<in> set ys. fst x < fst y)"
  by (auto simp: bt_sorted_def sorted_wrt_append)

lemma bt_sorted_filter: "bt_sorted xs \<Longrightarrow> bt_sorted (filter P xs)"
  by (induction xs) auto

lemma bt_sorted_remove: "bt_sorted xs \<Longrightarrow> bt_sorted (bt_remove k xs)"
  by (simp add: bt_remove_def bt_sorted_filter)

lemma set_bt_remove [simp]: "set (bt_remove k xs) = {e \<in> set xs. fst e \<noteq> k}"
  by (auto simp: bt_remove_def)

lemma length_bt_remove_less: "e \<in> set xs \<Longrightarrow> fst e = k \<Longrightarrow> length (bt_remove k xs) < length xs"
  by (auto simp: bt_remove_def intro: length_filter_less)

lemma set_bt_insert:
  "bt_sorted xs \<Longrightarrow> set (bt_insert k v xs) = insert (k, v) {e \<in> set xs. fst e \<noteq> k}"
proof (induction k v xs rule: bt_insert.induct)
  case (1 k v)
  then show ?case by simp
next
  case (2 k v a b xs)
  show ?case
  proof (cases "k < a")
    case True
    with "2.prems" have "\<forall>e \<in> set ((a, b) # xs). fst e \<noteq> k" by fastforce
    then have "{e \<in> set ((a, b) # xs). fst e \<noteq> k} = set ((a, b) # xs)" by blast
    with True show ?thesis by simp
  next
    case False
    with 2 show ?thesis by (cases "k = a") fastforce+
  qed
qed

lemma bt_sorted_insert: "bt_sorted xs \<Longrightarrow> bt_sorted (bt_insert k v xs)"
proof (induction k v xs rule: bt_insert.induct)
  case (1 k v)
  then show ?case by simp
next
  case (2 k v a b xs)
  then show ?case by (auto simp: set_bt_insert)
qed

lemma bt_insert_split:
  assumes "\<forall>e \<in> set xs. fst e < k" "\<forall>e \<in> set ys. k < fst e"
  shows "bt_insert k v (xs @ ys) = xs @ (k, v) # ys"
  using assms
proof (induction xs)
  case Nil
  then show ?case by (cases ys) auto
next
  case (Cons x xs)
  then show ?case by (cases x) auto
qed

lemma bt_insert_replace:
  assumes "\<forall>e \<in> set xs. fst e < k"
  shows "bt_insert k v (xs @ (k, w) # ys) = xs @ (k, v) # ys"
  using assms
proof (induction xs)
  case (Cons x xs)
  then show ?case by (cases x) auto
qed simp

lemma bt_remove_split:
  fixes k :: "'k::linorder"
  assumes "\<forall>e \<in> set xs. fst e < k" "\<forall>e \<in> set ys. k < fst e"
  shows "bt_remove k (xs @ (k, v) # ys) = xs @ ys"
proof -
  have "\<forall>e \<in> set xs. fst e \<noteq> k" using assms(1) by (metis less_irrefl)
  moreover have "\<forall>e \<in> set ys. fst e \<noteq> k" using assms(2) by (metis less_irrefl)
  ultimately have "filter (\<lambda>e. fst e \<noteq> k) xs = xs" "filter (\<lambda>e. fst e \<noteq> k) ys = ys"
    by (simp_all add: filter_id_conv)
  then show ?thesis by (simp add: bt_remove_def)
qed

lemma bt_split_at:
  assumes "bt_sorted xs"
  obtains ls rs where "xs = ls @ rs" "\<forall>e \<in> set ls. fst e < k" "\<forall>e \<in> set rs. k \<le> fst e"
proof
  let ?P = "\<lambda>e. fst e < k"
  show "xs = takeWhile ?P xs @ dropWhile ?P xs" by simp
  show "\<forall>e \<in> set (takeWhile ?P xs). fst e < k" by (auto dest: set_takeWhileD)
  show "\<forall>e \<in> set (dropWhile ?P xs). k \<le> fst e"
    using assms
  proof (induction xs)
    case (Cons x xs)
    then show ?case by (auto simp: not_less intro: order.strict_implies_order order_trans)
  qed simp
qed

lemma bt_ranges_split:
  assumes "\<forall>e \<in> set ls. fst e < k" "\<forall>e \<in> set rs. k \<le> fst e"
  shows "bt_range_from k (ls @ rs) = rs"
proof -
  have "filter (\<lambda>e. k \<le> fst e) ls = []" "filter (\<lambda>e. k \<le> fst e) rs = rs"
    using assms by (auto simp: filter_empty_conv not_le intro!: filter_True)
  then show ?thesis by (simp add: bt_range_from_def)
qed

lemma set_bt_range_from [simp]: "set (bt_range_from k xs) = {e \<in> set xs. k \<le> fst e}"
  by (auto simp: bt_range_from_def)

lemma bt_sorted_range_from: "bt_sorted xs \<Longrightarrow> bt_sorted (bt_range_from k xs)"
  by (simp add: bt_range_from_def bt_sorted_filter)

end
