(* ===== verification/RangeBuf.thy ===== *)
theory RangeBuf
  imports Prelude
begin

text \<open>
  \<open>RangeBuf\<close> of \<open>src/connection/stream.rs\<close>: a chunk of stream data with its offset and the
  end-of-stream flag.  The arrival time that the source records in a chunk is read by no
  operation and is left out.  \<open>advance\<close>, \<open>split_off\<close> and \<open>split_to\<close> of the \<open>bytes\<close> crate panic
  when they are asked to go past the end of the buffer: the result is then \<^const>\<open>None\<close>.
\<close>

record range_buf =
  rb_data :: "byte list"
  rb_off :: u64
  rb_fin :: bool

definition rb_new :: "byte list \<Rightarrow> u64 \<Rightarrow> bool \<Rightarrow> range_buf" where
  "rb_new buf off fin = \<lparr>rb_data = buf, rb_off = off, rb_fin = fin\<rparr>"

definition rb_len :: "range_buf \<Rightarrow> usize" where
  "rb_len b = length (rb_data b)"

definition rb_max_off :: "range_buf \<Rightarrow> u64" where
  "rb_max_off b = add64 (rb_off b) (rb_len b)"

definition rb_is_empty :: "range_buf \<Rightarrow> bool" where
  "rb_is_empty b \<longleftrightarrow> length (rb_data b) = 0"

definition rb_advance :: "usize \<Rightarrow> range_buf \<Rightarrow> range_buf option" where
  "rb_advance count b =
     (if count \<le> rb_len b
      then Some (b\<lparr>rb_data := drop count (rb_data b), rb_off := add64 (rb_off b) count\<rparr>)
      else None)"

definition rb_consume :: "usize \<Rightarrow> range_buf \<Rightarrow> range_buf option" where
  "rb_consume count b =
     (if count \<le> rb_len b
      then Some (b\<lparr>rb_data := drop count (rb_data b), rb_off := add64 (rb_off b) count\<rparr>)
      else None)"

text \<open>The chunk that stays and the chunk that is split off.\<close>

definition rb_split_off :: "usize \<Rightarrow> range_buf \<Rightarrow> (range_buf \<times> range_buf) option" where
  "rb_split_off at b =
     (if at \<le> rb_len b
      then Some (b\<lparr>rb_data := take at (rb_data b), rb_fin := False\<rparr>,
                 \<lparr>rb_data = drop at (rb_data b), rb_off = add64 (rb_off b) at, rb_fin = rb_fin b\<rparr>)
      else None)"

definition rb_split_to :: "usize \<Rightarrow> range_buf \<Rightarrow> (range_buf \<times> range_buf) option" where
  "rb_split_to at b =
     (if at \<le> rb_len b
      then Some (b\<lparr>rb_data := drop at (rb_data b), rb_off := add64 (rb_off b) at\<rparr>,
                 \<lparr>rb_data = take at (rb_data b), rb_off = rb_off b, rb_fin = False\<rparr>)
      else None)"

subsection \<open>The bytes a chunk holds\<close>

text \<open>A chunk is in range when its end does not wrap around.\<close>

definition rb_ok :: "range_buf \<Rightarrow> bool" where
  "rb_ok b \<longleftrightarrow> rb_off b + length (rb_data b) < u64_mod"

definition rb_end :: "range_buf \<Rightarrow> nat" where
  "rb_end b = rb_off b + length (rb_data b)"

text \<open>The byte of the stream at an absolute offset, if the chunk holds it.\<close>

definition rb_at :: "range_buf \<Rightarrow> nat \<Rightarrow> byte option" where
  "rb_at b i = (if rb_off b \<le> i \<and> i < rb_end b then Some (rb_data b ! (i - rb_off b)) else None)"

lemma rb_max_off_eq [simp]: "rb_ok b \<Longrightarrow> rb_max_off b = rb_end b"
  by (simp add: rb_max_off_def rb_ok_def rb_len_def rb_end_def add64_nowrap)

lemma rb_end_bounds: "rb_off b \<le> rb_end b" "rb_ok b \<Longrightarrow> rb_end b < u64_mod"
  by (simp_all add: rb_end_def rb_ok_def)

lemma rb_empty_iff: "rb_is_empty b \<longleftrightarrow> rb_end b = rb_off b"
  by (simp add: rb_is_empty_def rb_end_def)

lemma rb_new_simps [simp]:
  "rb_data (rb_new d off fin) = d" "rb_off (rb_new d off fin) = off" "rb_fin (rb_new d off fin) = fin"
  by (simp_all add: rb_new_def)

lemma rb_at_None: "i < rb_off b \<or> rb_end b \<le> i \<Longrightarrow> rb_at b i = None"
  by (auto simp: rb_at_def)

lemma rb_at_Some: "rb_off b \<le> i \<Longrightarrow> i < rb_end b \<Longrightarrow> \<exists>x. rb_at b i = Some x"
  by (simp add: rb_at_def)

lemma rb_at_dom: "rb_at b i = Some x \<Longrightarrow> rb_off b \<le> i \<and> i < rb_end b"
  by (simp add: rb_at_def split: if_splits)

lemma rb_advance_spec:
  assumes "rb_ok b" "count \<le> length (rb_data b)"
  obtains b' where "rb_advance count b = Some b'" "rb_ok b'" "rb_off b' = rb_off b + count"
    "rb_end b' = rb_end b" "rb_fin b' = rb_fin b" "rb_data b' = drop count (rb_data b)"
    "\<And>i. rb_off b + count \<le> i \<Longrightarrow> rb_at b' i = rb_at b i"
proof
  let ?b = "b\<lparr>rb_data := drop count (rb_data b), rb_off := rb_off b + count\<rparr>"
  have "add64 (rb_off b) count = rb_off b + count"
    using assms by (intro add64_nowrap) (simp add: rb_ok_def)
  then show "rb_advance count b = Some ?b"
    using assms(2) by (simp add: rb_advance_def rb_len_def)
  show "rb_ok ?b" "rb_end ?b = rb_end b" using assms by (auto simp: rb_ok_def rb_end_def)
  fix i assume "rb_off b + count \<le> i"
  then show "rb_at ?b i = rb_at b i"
    using assms by (auto simp: rb_at_def rb_end_def nth_drop)
qed simp_all

lemma rb_split_off_spec:
  assumes "rb_ok b" "at \<le> length (rb_data b)"
  obtains b1 b2 where "rb_split_off at b = Some (b1, b2)" "rb_ok b1" "rb_ok b2"
    "rb_off b1 = rb_off b" "rb_end b1 = rb_off b + at" "rb_off b2 = rb_off b + at" "rb_end b2 = rb_end b"
    "\<not> rb_fin b1" "rb_fin b2 = rb_fin b"
    "rb_data b1 = take at (rb_data b)" "rb_data b2 = drop at (rb_data b)"
    "\<And>i. i < rb_off b + at \<Longrightarrow> rb_at b1 i = rb_at b i"
    "\<And>i. rb_off b + at \<le> i \<Longrightarrow> rb_at b2 i = rb_at b i"
proof
  let ?b1 = "b\<lparr>rb_data := take at (rb_data b), rb_fin := False\<rparr>"
  let ?b2 = "\<lparr>rb_data = drop at (rb_data b), rb_off = rb_off b + at, rb_fin = rb_fin b\<rparr>"
  have "add64 (rb_off b) at = rb_off b + at"
    using assms by (intro add64_nowrap) (simp add: rb_ok_def)
  then show "rb_split_off at b = Some (?b1, ?b2)"
    using assms(2) by (simp add: rb_split_off_def rb_len_def)
  show "rb_ok ?b1" "rb_ok ?b2" "rb_end ?b1 = rb_off b + at" "rb_end ?b2 = rb_end b"
    using assms by (auto simp: rb_ok_def rb_end_def min_def)
  show "rb_at ?b1 i = rb_at b i" if "i < rb_off b + at" for i
    using that assms by (auto simp: rb_at_def rb_end_def)
  show "rb_at ?b2 i = rb_at b i" if "rb_off b + at \<le> i" for i
    using that assms by (auto simp: rb_at_def rb_end_def nth_drop)
qed simp_all

lemma rb_consume_advance: "rb_consume count b = rb_advance count b"
  by (simp add: rb_consume_def rb_advance_def)

end
