(* ===== verification/FlowControl.thy ===== *)
theory FlowControl
  imports Prelude
begin

text \<open>
  \<open>src/connection/flowcontrol.rs\<close>: receive-side flow control of a stream or of the connection,
  with automatic growth of the window.  Instants and durations are numbers of nanoseconds;
  the difference of two instants saturates at zero, as \<open>Instant\<close> subtraction does.
\<close>

type_synonym instant = nat
type_synonym duration = nat

record flow_control =
  fc_read_off :: u64
  fc_recv_off :: u64
  fc_max_data :: u64
  fc_window :: u64
  fc_max_window :: u64
  fc_last_updated :: "instant option"

definition fc_new :: "u64 \<Rightarrow> u64 \<Rightarrow> flow_control" where
  "fc_new window max_window =
     \<lparr>fc_read_off = 0, fc_recv_off = 0, fc_max_data = window, fc_window = window,
      fc_max_window = max_window, fc_last_updated = None\<rparr>"

definition fc_increase_recv_off :: "u64 \<Rightarrow> flow_control \<Rightarrow> flow_control" where
  "fc_increase_recv_off delta fc = fc\<lparr>fc_recv_off := add64 (fc_recv_off fc) delta\<rparr>"

definition fc_increase_read_off :: "u64 \<Rightarrow> flow_control \<Rightarrow> flow_control" where
  "fc_increase_read_off delta fc = fc\<lparr>fc_read_off := add64 (fc_read_off fc) delta\<rparr>"

definition fc_should_send_max_data :: "flow_control \<Rightarrow> bool" where
  "fc_should_send_max_data fc \<longleftrightarrow>
     mul64 (sub64 (fc_max_data fc) (fc_read_off fc)) 2 < fc_window fc"

definition fc_max_data_next :: "flow_control \<Rightarrow> u64" where
  "fc_max_data_next fc = add64 (fc_read_off fc) (fc_window fc)"

definition fc_update_max_data :: "instant \<Rightarrow> flow_control \<Rightarrow> flow_control" where
  "fc_update_max_data now fc =
     fc\<lparr>fc_max_data := fc_max_data_next fc, fc_last_updated := Some now\<rparr>"

definition fc_autotune_window :: "instant \<Rightarrow> duration \<Rightarrow> flow_control \<Rightarrow> flow_control" where
  "fc_autotune_window now srtt fc =
     (case fc_last_updated fc of
        Some last_updated \<Rightarrow>
          if now - last_updated < srtt * 2
          then fc\<lparr>fc_window := min (mul64 (fc_window fc) 2) (fc_max_window fc)\<rparr>
          else fc
      | None \<Rightarrow> fc)"

definition fc_ensure_window_lower_bound :: "u64 \<Rightarrow> flow_control \<Rightarrow> flow_control" where
  "fc_ensure_window_lower_bound min_window fc =
     fc\<lparr>fc_window := max (fc_window fc) min_window\<rparr>"

lemmas fc_defs = fc_increase_recv_off_def fc_increase_read_off_def fc_max_data_next_def
  fc_update_max_data_def fc_autotune_window_def fc_ensure_window_lower_bound_def

subsection \<open>Arithmetic\<close>

text \<open>Offsets are variable-length integers, hence below \<open>2 ^ 62\<close>, and no sum of two wraps.\<close>

lemma u64_mod_62: "u64_mod = 4 * 2 ^ 62"
  by (simp add: u64_mod_def)

lemma below_62 [u64_arith]:
  "a < 2 ^ 62 \<Longrightarrow> b < 2 ^ 62 \<Longrightarrow> add64 a b = a + b"
  "a < 2 ^ 62 \<Longrightarrow> mul64 a 2 = a * 2"
  by (simp_all add: add64_def mul64_def u64_mod_62)

subsection \<open>Updates of the limit\<close>

lemma fc_should_send_iff:
  assumes "fc_read_off fc \<le> fc_max_data fc" "fc_max_data fc \<le> fc_read_off fc + fc_window fc" "fc_window fc < 2 ^ 62"
  shows "fc_should_send_max_data fc \<longleftrightarrow> 2 * (fc_max_data fc - fc_read_off fc) < fc_window fc"
proof -
  have "sub64 (fc_max_data fc) (fc_read_off fc) = fc_max_data fc - fc_read_off fc"
    using assms(1) by (rule sub64_nowrap)
  moreover have "fc_max_data fc - fc_read_off fc < 2 ^ 62" using assms by auto
  ultimately show ?thesis
    by (simp add: fc_should_send_max_data_def below_62 mult.commute)
qed

text \<open>
  A MAX_DATA update is due exactly when less than half of the window is left, and sending
  it restores the full window beyond what has been consumed.
\<close>

lemma flow_control_update:
  assumes "fc_read_off fc \<le> fc_max_data fc" "fc_max_data fc \<le> fc_read_off fc + fc_window fc"
    and "fc_window fc < 2 ^ 62" "fc_read_off fc < 2 ^ 62"
  shows "(fc_should_send_max_data fc \<longleftrightarrow> 2 * (fc_max_data fc - fc_read_off fc) < fc_window fc)
    \<and> fc_max_data (fc_update_max_data now fc) = fc_read_off fc + fc_window fc
    \<and> (0 < fc_window fc \<longrightarrow> \<not> fc_should_send_max_data (fc_update_max_data now fc))"
proof -
  have add: "add64 (fc_read_off fc) (fc_window fc) = fc_read_off fc + fc_window fc"
    using assms by (intro below_62)
  have "fc_should_send_max_data (fc_update_max_data now fc) \<longleftrightarrow> 2 * fc_window fc < fc_window fc"
    using fc_should_send_iff [of "fc_update_max_data now fc"] assms add by (simp add: fc_defs)
  with fc_should_send_iff [OF assms(1-3)] add show ?thesis by (simp add: fc_defs)
qed

text \<open>
  The receive window can shrink: when it starts above its configured maximum, the first
  automatic adjustment cuts it down to the maximum.
\<close>

theorem autotune_can_shrink:
  "fc_window (fc_autotune_window 5 10 (fc_update_max_data 1 (fc_new 100 30))) = 30"
  by (simp add: fc_new_def fc_defs mul64_def u64_mod_def)

text \<open>
  The limit itself can then go back: a lower bound raises the window above its maximum and the raised limit is
  announced and used up, the next adjustment cuts the window, and the update that follows leaves the limit below
  what was received, so that the difference of the two wraps.
\<close>

lemma window_cut_lowers_limit:
  assumes "fc1 = fc_increase_recv_off 150 (fc_update_max_data 1 (fc_ensure_window_lower_bound 150 (fc_new 100 100)))"
    and "fc2 = fc_update_max_data 6 (fc_autotune_window 5 10 (fc_increase_read_off 10 fc1))"
  shows "fc_recv_off fc1 = fc_max_data fc1 \<and> fc_max_data (fc_increase_read_off 10 fc1) < fc_max_data_next (fc_increase_read_off 10 fc1)
    \<and> fc_max_data fc2 = 110 \<and> sub64 (fc_max_data fc2) (fc_recv_off fc2) = u64_mod - 40"
  using assms by (simp add: fc_new_def fc_defs u64_eval)

end
