(* ===== verification/Errors.thy ===== *)
theory Errors
  imports Prelude
begin

text \<open>
  The error values of the crate (\<open>src/error.rs\<close>): the \<open>Error\<close> enum with its wire codes and
  its numbers for C callers, and the result type of fallible operations.
\<close>

datatype error =
    NoError
  | InternalError
  | ConnectionRefused
  | FlowControlError
  | StreamLimitError
  | StreamStateError
  | FinalSizeError
  | FrameEncodingError
  | TransportParameterError
  | ConnectionIdLimitError
  | ProtocolViolation
  | InvalidToken
  | ApplicationError
  | CryptoBufferExceeded
  | KeyUpdateError
  | AeadLimitReached
  | NoViablePath
  | CryptoError byte
  | MultipathProtocolViolation
  | Done
  | BufferTooShort
  | UnknownVersion
  | InvalidPacket
  | InvalidState string
  | InvalidOperation string
  | InvalidConfig string
  | ExpiredToken
  | CryptoFail
  | TlsFail string
  | StreamStopped u64
  | StreamReset u64
  | IoError string

text \<open>
  What ends an operation early: an error value returned with \<open>Err\<close>, or a panic
  (\<open>unreachable!()\<close>, \<open>unwrap\<close> of \<open>None\<close>, a slice or cursor past the end of a buffer).
\<close>

datatype fault = Err error | Panic

type_synonym 'a result = "fault + 'a"

fun to_wire :: "error \<Rightarrow> u64" where
  "to_wire NoError = 0x0"
| "to_wire InternalError = 0x1"
| "to_wire ConnectionRefused = 0x2"
| "to_wire FlowControlError = 0x3"
| "to_wire StreamLimitError = 0x4"
| "to_wire StreamStateError = 0x5"
| "to_wire FinalSizeError = 0x6"
| "to_wire FrameEncodingError = 0x7"
| "to_wire TransportParameterError = 0x8"
| "to_wire ConnectionIdLimitError = 0x9"
| "to_wire ProtocolViolation = 0x0a"
| "to_wire InvalidToken = 0x0b"
| "to_wire ApplicationError = 0x0c"
| "to_wire CryptoBufferExceeded = 0x0d"
| "to_wire KeyUpdateError = 0x0e"
| "to_wire AeadLimitReached = 0x0f"
| "to_wire NoViablePath = 0x10"
| "to_wire (CryptoError v) = unat v"
| "to_wire MultipathProtocolViolation = 0x1001d76d3ded42f3"
| "to_wire _ = 0x0"

fun to_errno :: "error \<Rightarrow> int" where
  "to_errno NoError = 0"
| "to_errno InternalError = -1"
| "to_errno ConnectionRefused = -2"
| "to_errno FlowControlError = -3"
| "to_errno StreamLimitError = -4"
| "to_errno StreamStateError = -5"
| "to_errno FinalSizeError = -6"
| "to_errno FrameEncodingError = -7"
| "to_errno TransportParameterError = -8"
| "to_errno ConnectionIdLimitError = -9"
| "to_errno ProtocolViolation = -10"
| "to_errno InvalidToken = -11"
| "to_errno ApplicationError = -12"
| "to_errno CryptoBufferExceeded = -13"
| "to_errno KeyUpdateError = -14"
| "to_errno AeadLimitReached = -15"
| "to_errno NoViablePath = -16"
| "to_errno (CryptoError _) = -17"
| "to_errno MultipathProtocolViolation = -18"
| "to_errno Done = -100"
| "to_errno BufferTooShort = -101"
| "to_errno UnknownVersion = -102"
| "to_errno InvalidPacket = -103"
| "to_errno (InvalidState _) = -104"
| "to_errno (InvalidOperation _) = -105"
| "to_errno (InvalidConfig _) = -106"
| "to_errno ExpiredToken = -107"
| "to_errno CryptoFail = -108"
| "to_errno (TlsFail _) = -109"
| "to_errno (StreamStopped _) = -110"
| "to_errno (StreamReset _) = -111"
| "to_errno (IoError _) = -112"

end
