(* ===== verification/RecvBuf.thy ===== *)
theory RecvBuf
  imports Btree RangeBuf FlowControl Errors
begin

text \<open>
  \<open>RecvBuf\<close> of \<open>src/connection/stream.rs\<close>: the receive side of a stream, which reassembles
  STREAM frames that arrive in any order, overlap and repeat.
  Chunks are kept in a \<open>BTreeMap\<close> keyed by the \<^emph>\<open>end\<close> of the chunk.
\<close>

record recv_buf =
  rv_data :: "(u64, range_buf) btree"
  rv_read_off :: u64
  rv_recv_off :: u64
  rv_fin_off :: "u64 option"
  rv_error :: "u64 option"
  rv_shut :: bool
  rv_fc :: flow_control

definition rv_new :: "u64 \<Rightarrow> u64 \<Rightarrow> recv_buf" where
  "rv_new max_data max_window =
     \<lparr>rv_data = [], rv_read_off = 0, rv_recv_off = 0, rv_fin_off = None, rv_error = None,
      rv_shut = False, rv_fc = fc_new max_data max_window\<rparr>"

definition rv_max_data :: "recv_buf \<Rightarrow> u64" where
  "rv_max_data rv = fc_max_data (rv_fc rv)"

definition rv_is_fin :: "recv_buf \<Rightarrow> bool" where
  "rv_is_fin rv \<longleftrightarrow> rv_fin_off rv = Some (rv_read_off rv)"

definition rv_is_complete :: "recv_buf \<Rightarrow> bool" where
  "rv_is_complete rv \<longleftrightarrow> rv_fin_off rv = Some (rv_read_off rv)"

definition rv_is_shutdown :: "recv_buf \<Rightarrow> bool" where
  "rv_is_shutdown rv \<longleftrightarrow> rv_shut rv"

definition rv_ready :: "recv_buf \<Rightarrow> bool" where
  "rv_ready rv =
     (case first_entry (rv_data rv) of
        Some (_, buf) \<Rightarrow> rb_off buf = rv_read_off rv
      | None \<Rightarrow> False)"

definition rv_should_send_max_data :: "recv_buf \<Rightarrow> bool" where
  "rv_should_send_max_data rv \<longleftrightarrow> rv_fin_off rv = None \<and> fc_should_send_max_data (rv_fc rv)"

definition rv_update_max_data :: "instant \<Rightarrow> recv_buf \<Rightarrow> recv_buf" where
  "rv_update_max_data now rv = rv\<lparr>rv_fc := fc_update_max_data now (rv_fc rv)\<rparr>"

definition rv_autotune_window :: "instant \<Rightarrow> duration \<Rightarrow> recv_buf \<Rightarrow> recv_buf" where
  "rv_autotune_window now srtt rv = rv\<lparr>rv_fc := fc_autotune_window now srtt (rv_fc rv)\<rparr>"

subsection \<open>Writing\<close>

text \<open>
  The inner loop: the new chunk \<open>buf\<close> against the stored chunks whose end is not below its
  start.  The result is the chunk that is to be stored, or \<^const>\<open>None\<close> when the rest of it is
  already present, with the queue of pieces that still have to be looked at.
\<close>

fun overlap_loop ::
  "range_buf list \<Rightarrow> range_buf \<Rightarrow> range_buf list \<Rightarrow> (range_buf option \<times> range_buf list) option" where
  "overlap_loop [] buf tmp = Some (Some buf, tmp)"
| "overlap_loop (b # bs) buf tmp =
     (if rb_off b > rb_max_off buf then Some (Some buf, tmp)
      else if rb_off buf \<ge> rb_off b \<and> rb_max_off buf \<le> rb_max_off b then Some (None, tmp)
      else if rb_off buf \<ge> rb_off b \<and> rb_off buf < rb_max_off b then
        (case rb_advance (sub64 (rb_max_off b) (rb_off buf)) buf of
           None \<Rightarrow> None
         | Some buf' \<Rightarrow> overlap_loop bs buf' tmp)
      else if rb_off buf < rb_off b \<and> rb_max_off buf > rb_off b then
        (case rb_split_off (sub64 (rb_off b) (rb_off buf)) buf of
           None \<Rightarrow> None
         | Some (buf', rest) \<Rightarrow> overlap_loop bs buf' (tmp @ [rest]))
      else overlap_loop bs buf tmp)"

text \<open>Discarding what the application has already read.\<close>

definition skip_read :: "u64 \<Rightarrow> range_buf \<Rightarrow> range_buf option" where
  "skip_read read_off buf =
     (if read_off > rb_off buf then rb_advance (sub64 read_off (rb_off buf)) buf else Some buf)"

definition store_buf :: "range_buf \<Rightarrow> recv_buf \<Rightarrow> recv_buf" where
  "store_buf buf rv =
     (let rv1 = rv\<lparr>rv_recv_off := max (rv_recv_off rv) (rb_max_off buf)\<rparr>
      in if \<not> rv_shut rv1 then rv1\<lparr>rv_data := bt_insert (rb_max_off buf) buf (rv_data rv1)\<rparr> else rv1)"

definition place_buf ::
  "recv_buf \<Rightarrow> range_buf \<Rightarrow> range_buf list \<Rightarrow> (range_buf option \<times> range_buf list) option" where
  "place_buf rv buf tmp =
     (if rb_off buf < rv_recv_off rv \<or> rb_is_empty buf
      then overlap_loop (map snd (bt_range_from (rb_off buf) (rv_data rv))) buf tmp
      else Some (Some buf, tmp))"

definition bufs_len :: "range_buf list \<Rightarrow> nat" where
  "bufs_len q = sum_list (map (\<lambda>b. length (rb_data b)) q)"

lemma rb_advance_len: "rb_advance n b = Some b' \<Longrightarrow> length (rb_data b') \<le> length (rb_data b)"
  by (auto simp: rb_advance_def split: if_splits)

lemma rb_split_off_len:
  "rb_split_off n b = Some (b1, b2) \<Longrightarrow> length (rb_data b1) + length (rb_data b2) = length (rb_data b)"
  "rb_split_off n b = Some (b1, b2) \<Longrightarrow> 0 < n \<Longrightarrow> 0 < length (rb_data b1)"
  by (auto simp: rb_split_off_def rb_len_def split: if_splits)

lemma overlap_loop_len:
  "overlap_loop bs buf tmp = Some (r, tmp') \<Longrightarrow>
   \<exists>ns. tmp' = tmp @ ns \<and> bufs_len ns \<le> length (rb_data buf)
      \<and> (ns \<noteq> [] \<longrightarrow> bufs_len ns < length (rb_data buf))"
proof (induction bs buf tmp arbitrary: r tmp' rule: overlap_loop.induct)
  case (1 buf tmp)
  then show ?case by (auto simp: bufs_len_def)
next
  case (2 b bs buf tmp)
  let ?adv = "rb_off buf \<ge> rb_off b \<and> rb_off buf < rb_max_off b"
  let ?split = "rb_off buf < rb_off b \<and> rb_max_off buf > rb_off b"
  show ?case
  proof (cases "rb_off b > rb_max_off buf \<or> (rb_off buf \<ge> rb_off b \<and> rb_max_off buf \<le> rb_max_off b)")
    case True
    with "2.prems" show ?thesis by (auto simp: bufs_len_def split: if_splits)
  next
    case no: False
    consider (adv) ?adv | (split) "\<not> ?adv" ?split | (none) "\<not> ?adv" "\<not> ?split" by blast
    then show ?thesis
    proof cases
      case adv
      with no "2.prems" obtain buf' where b': "rb_advance (sub64 (rb_max_off b) (rb_off buf)) buf = Some buf'"
        "overlap_loop bs buf' tmp = Some (r, tmp')" by (auto split: option.splits)
      from "2.IH"(1) [OF _ _ adv b'] no rb_advance_len [OF b'(1)] show ?thesis
        by (meson le_trans less_le_trans)
    next
      case split
      with no "2.prems" obtain buf' rest where
        b': "rb_split_off (sub64 (rb_off b) (rb_off buf)) buf = Some (buf', rest)"
        "overlap_loop bs buf' (tmp @ [rest]) = Some (r, tmp')"
        by (auto split: option.splits)
      have pos: "0 < sub64 (rb_off b) (rb_off buf)" using split by (simp add: sub64_def)
      from "2.IH"(2) [OF _ _ split(1,2) b'(1) refl b'(2)] no
      obtain ns where ns: "tmp' = (tmp @ [rest]) @ ns" "bufs_len ns \<le> length (rb_data buf')"
        "ns \<noteq> [] \<longrightarrow> bufs_len ns < length (rb_data buf')" by blast
      have "bufs_len (rest # ns) < length (rb_data buf)"
        using ns(2,3) rb_split_off_len(1) [OF b'(1)] rb_split_off_len(2) [OF b'(1) pos]
        by (cases "ns = []") (simp_all add: bufs_len_def del: length_greater_0_conv)
      with ns(1) show ?thesis by (intro exI [of _ "rest # ns"]) simp
    next
      case none
      with no "2.prems" have "overlap_loop bs buf tmp = Some (r, tmp')" by auto
      with "2.IH"(3) no none show ?thesis by blast
    qed
  qed
qed

lemma skip_read_len: "skip_read n b = Some b' \<Longrightarrow> length (rb_data b') \<le> length (rb_data b)"
  by (auto simp: skip_read_def dest: rb_advance_len split: if_splits)

lemma place_buf_len:
  "place_buf rv buf tmp = Some (r, tmp') \<Longrightarrow>
   \<exists>ns. tmp' = tmp @ ns \<and> bufs_len ns \<le> length (rb_data buf)
      \<and> (ns \<noteq> [] \<longrightarrow> bufs_len ns < length (rb_data buf))"
  by (auto simp: place_buf_def bufs_len_def dest: overlap_loop_len split: if_splits)

text \<open>The outer loop over the pieces.  \<^const>\<open>None\<close> is a panic.\<close>

function store_loop :: "range_buf list \<Rightarrow> recv_buf \<Rightarrow> recv_buf option" where
  "store_loop [] rv = Some rv"
| "store_loop (buf0 # tmp) rv =
     (case skip_read (rv_read_off rv) buf0 of
        None \<Rightarrow> None
      | Some buf \<Rightarrow>
          (case place_buf rv buf tmp of
             None \<Rightarrow> None
           | Some (None, tmp') \<Rightarrow> store_loop tmp' rv
           | Some (Some buf', tmp') \<Rightarrow> store_loop tmp' (store_buf buf' rv)))"
  by pat_completeness auto
termination
proof (relation "measures [\<lambda>(q, rv). bufs_len q, \<lambda>(q, rv). length q]", goal_cases)
  case 1
  then show ?case by simp
next
  case (2 buf0 tmp rv buf x r tmp')
  then show ?case
    using place_buf_len [of rv buf tmp r tmp'] skip_read_len [of "rv_read_off rv" buf0 buf]
    by (fastforce simp: bufs_len_def)
next
  case (3 buf0 tmp rv buf x r tmp' buf')
  then show ?case
    using place_buf_len [of rv buf tmp r tmp'] skip_read_len [of "rv_read_off rv" buf0 buf]
    by (fastforce simp: bufs_len_def)
qed

definition rv_write :: "u64 \<Rightarrow> byte list \<Rightarrow> bool \<Rightarrow> recv_buf \<Rightarrow> recv_buf \<times> unit result" where
  "rv_write offset data fin rv =
     (let buf = rb_new data offset fin
      in if rb_max_off buf > rv_max_data rv then (rv, Inl (Err FlowControlError))
         else if (case rv_fin_off rv of
                    Some fin_off \<Rightarrow> rb_max_off buf > fin_off \<or> (rb_fin buf \<and> fin_off \<noteq> rb_max_off buf)
                  | None \<Rightarrow> False) then (rv, Inl (Err FinalSizeError))
         else if rb_fin buf \<and> rb_max_off buf < rv_recv_off rv then (rv, Inl (Err FinalSizeError))
         else if rv_is_fin rv then (rv, Inr ())
         else
           let rv1 = (if rb_fin buf then rv\<lparr>rv_fin_off := Some (rb_max_off buf)\<rparr> else rv)
           in if \<not> rb_fin buf \<and> rb_is_empty buf then (rv1, Inr ())
              else if rv_read_off rv1 \<ge> rb_max_off buf \<and> \<not> rb_is_empty buf then (rv1, Inr ())
              else (case store_loop [buf] rv1 of
                      None \<Rightarrow> (rv1, Inl Panic)
                    | Some rv2 \<Rightarrow> (rv2, Inr ())))"

subsection \<open>Reading, reset and shutdown\<close>

function read_loop :: "usize \<Rightarrow> recv_buf \<Rightarrow> byte list \<Rightarrow> (recv_buf \<times> byte list) option" where
  "read_loop cap rv out =
     (if cap > 0 \<and> rv_ready rv then
        (case rv_data rv of
           [] \<Rightarrow> Some (rv, out)
         | (k, buf) # rest \<Rightarrow>
             let n = min (rb_len buf) cap;
                 rv1 = rv\<lparr>rv_read_off := add64 (rv_read_off rv) n\<rparr>;
                 out1 = out @ take n (rb_data buf)
             in if n < rb_len buf then
                  (case rb_consume n buf of
                     None \<Rightarrow> None
                   | Some buf' \<Rightarrow> Some (rv1\<lparr>rv_data := (k, buf') # rest\<rparr>, out1))
                else read_loop (cap - n) (rv1\<lparr>rv_data := rest\<rparr>) out1)
      else Some (rv, out))"
  by pat_completeness auto
termination
  by (relation "measure (\<lambda>(cap, rv, out). length (rv_data rv))") auto

declare read_loop.simps [simp del]

text \<open>The bytes copied to the output buffer of length \<open>cap\<close>, and the fin flag.\<close>

definition rv_read :: "usize \<Rightarrow> recv_buf \<Rightarrow> recv_buf \<times> (byte list \<times> bool) result" where
  "rv_read cap rv =
     (if \<not> rv_ready rv then (rv, Inl (Err Done))
      else case rv_error rv of
             Some e \<Rightarrow> (rv\<lparr>rv_data := []\<rparr>, Inl (Err (StreamReset e)))
           | None \<Rightarrow>
               (case read_loop cap rv [] of
                  None \<Rightarrow> (rv, Inl Panic)
                | Some (rv1, out) \<Rightarrow>
                    let rv2 = rv1\<lparr>rv_fc := fc_increase_read_off (length out) (rv_fc rv1)\<rparr>
                    in (rv2, Inr (out, rv_is_fin rv2))))"

definition rv_reset :: "u64 \<Rightarrow> u64 \<Rightarrow> recv_buf \<Rightarrow> recv_buf \<times> usize result" where
  "rv_reset error_code final_size rv =
     (if (case rv_fin_off rv of Some fin_off \<Rightarrow> fin_off \<noteq> final_size | None \<Rightarrow> False)
      then (rv, Inl (Err FinalSizeError))
      else if final_size < rv_recv_off rv then (rv, Inl (Err FinalSizeError))
      else
        let max_rx_off_delta = sub64 final_size (rv_recv_off rv)
        in if rv_error rv \<noteq> None then (rv, Inr max_rx_off_delta)
           else
             let rv1 = rv\<lparr>rv_error := Some error_code, rv_data := []\<rparr>
             in (case rv_write final_size [] True rv1 of
                   (rv2, Inl e) \<Rightarrow> (rv2, Inl e)
                 | (rv2, Inr _) \<Rightarrow> (rv2\<lparr>rv_read_off := final_size\<rparr>, Inr max_rx_off_delta)))"

definition rv_shutdown :: "recv_buf \<Rightarrow> recv_buf \<times> u64 result" where
  "rv_shutdown rv =
     (if rv_shut rv then (rv, Inl (Err Done))
      else
        let unread_len = sub64 (rv_recv_off rv) (rv_read_off rv)
        in (rv\<lparr>rv_shut := True, rv_data := [], rv_read_off := rv_recv_off rv\<rparr>, Inr unread_len))"

end
