(* ===== verification/Reassembly.thy ===== *)
theory Reassembly
  imports RecvBuf
begin

text \<open>
  Correctness of the receive buffer of \<open>src/connection/stream.rs\<close>: its invariant, the content of
  the buffer as a partial function from stream offsets to bytes, and what \<open>write\<close>, \<open>read\<close>,
  \<open>reset\<close> and \<open>shutdown\<close> do to it.
\<close>

subsection \<open>Chunks\<close>

definition covers :: "range_buf \<Rightarrow> nat \<Rightarrow> bool" where
  "covers b i \<longleftrightarrow> rb_off b \<le> i \<and> i < rb_end b"

definition apart :: "range_buf \<Rightarrow> range_buf \<Rightarrow> bool" where
  "apart a b \<longleftrightarrow> rb_end a \<le> rb_off b \<or> rb_end b \<le> rb_off a"

text \<open>\<open>sub_buf a b\<close>: the chunk \<open>a\<close> holds a part of the bytes of \<open>b\<close>.\<close>

definition sub_buf :: "range_buf \<Rightarrow> range_buf \<Rightarrow> bool" where
  "sub_buf a b \<longleftrightarrow> rb_ok a \<and> rb_off b \<le> rb_off a \<and> rb_end a \<le> rb_end b
     \<and> (\<forall>i. covers a i \<longrightarrow> rb_at a i = rb_at b i)"

lemma rb_at_covers: "rb_at b i \<noteq> None \<longleftrightarrow> covers b i"
  by (simp add: rb_at_def covers_def)

lemma rb_at_not_covers: "\<not> covers b i \<Longrightarrow> rb_at b i = None"
  using rb_at_covers by blast

lemma sub_buf_refl: "rb_ok b \<Longrightarrow> sub_buf b b"
  by (simp add: sub_buf_def)

lemma sub_buf_covers: "sub_buf a b \<Longrightarrow> covers a i \<Longrightarrow> covers b i"
  by (auto simp: sub_buf_def covers_def)

lemma sub_buf_trans:
  assumes "sub_buf a b" "sub_buf b c"
  shows "sub_buf a c"
proof -
  have "rb_at a i = rb_at c i" if "covers a i" for i
    using assms that sub_buf_covers [OF assms(1) that] by (simp add: sub_buf_def)
  with assms show ?thesis by (simp add: sub_buf_def)
qed

lemma advance_sub_buf:
  assumes "rb_ok b" "rb_off b \<le> x" "x \<le> rb_end b" "x < u64_mod"
  obtains b' where "rb_advance (sub64 x (rb_off b)) b = Some b'" "sub_buf b' b"
    "rb_off b' = x" "rb_end b' = rb_end b"
proof -
  have "sub64 x (rb_off b) = x - rb_off b" using assms(2) by (rule sub64_nowrap)
  moreover have "x - rb_off b \<le> length (rb_data b)" using assms(2,3) by (simp add: rb_end_def)
  ultimately obtain b' where "rb_advance (sub64 x (rb_off b)) b = Some b'" "rb_ok b'"
    "rb_off b' = rb_off b + (x - rb_off b)" "rb_end b' = rb_end b"
    "\<And>i. rb_off b + (x - rb_off b) \<le> i \<Longrightarrow> rb_at b' i = rb_at b i"
    using rb_advance_spec [OF assms(1)] by (metis (no_types, lifting))
  with assms(2) that show thesis by (auto simp: sub_buf_def covers_def)
qed

lemma split_off_sub_buf:
  assumes "rb_ok b" "rb_off b < x" "x < rb_end b"
  obtains b1 b2 where "rb_split_off (sub64 x (rb_off b)) b = Some (b1, b2)"
    "sub_buf b1 b" "rb_off b1 = rb_off b" "rb_end b1 = x"
    "sub_buf b2 b" "rb_off b2 = x" "rb_end b2 = rb_end b"
proof -
  have eq: "sub64 x (rb_off b) = x - rb_off b" using assms(2) by (simp add: sub64_nowrap)
  have "x - rb_off b \<le> length (rb_data b)" using assms(2,3) by (simp add: rb_end_def)
  from rb_split_off_spec [OF assms(1) this] obtain b1 b2
    where b: "rb_split_off (x - rb_off b) b = Some (b1, b2)" "rb_ok b1" "rb_ok b2"
      "rb_off b1 = rb_off b" "rb_end b1 = rb_off b + (x - rb_off b)"
      "rb_off b2 = rb_off b + (x - rb_off b)" "rb_end b2 = rb_end b"
      "\<And>i. i < rb_off b + (x - rb_off b) \<Longrightarrow> rb_at b1 i = rb_at b i"
      "\<And>i. rb_off b + (x - rb_off b) \<le> i \<Longrightarrow> rb_at b2 i = rb_at b i"
    by metis
  with assms(2,3) eq show thesis
    by (intro that [of b1 b2]) (auto simp: sub_buf_def covers_def)
qed

definition overlap_post ::
  "range_buf list \<Rightarrow> range_buf \<Rightarrow> range_buf option \<Rightarrow> range_buf list \<Rightarrow> bool" where
  "overlap_post bs buf res ns \<longleftrightarrow>
     (\<forall>n \<in> set ns. sub_buf n buf \<and> rb_off n < rb_end n)
     \<and> (\<forall>i. covers buf i \<longrightarrow> (\<exists>b \<in> set bs. covers b i) \<or> (\<exists>n \<in> set ns. covers n i)
              \<or> (\<exists>buf'. res = Some buf' \<and> covers buf' i))
     \<and> (\<forall>buf'. res = Some buf' \<longrightarrow> sub_buf buf' buf \<and> (\<forall>b \<in> set bs. apart b buf')
              \<and> (rb_off buf < rb_end buf \<longrightarrow> rb_off buf' < rb_end buf'))"

lemma overlap_post_Cons:
  assumes IH: "overlap_post bs buf' res ns" and sub: "sub_buf buf' buf" and ap: "apart b buf'"
    and ex: "\<forall>n \<in> set ex. sub_buf n buf \<and> rb_off n < rb_end n"
    and cover: "\<And>i. covers buf i \<Longrightarrow> covers b i \<or> covers buf' i \<or> (\<exists>n \<in> set ex. covers n i)"
    and ne: "rb_off buf' < rb_end buf'" "rb_off buf < rb_end buf"
  shows "overlap_post (b # bs) buf res (ex @ ns)"
proof -
  have "\<forall>n \<in> set ns. sub_buf n buf' \<and> rb_off n < rb_end n"
    using IH by (simp add: overlap_post_def)
  then have 1: "\<forall>n \<in> set (ex @ ns). sub_buf n buf \<and> rb_off n < rb_end n"
    using ex sub_buf_trans [OF _ sub] by auto
  have 2: "(\<exists>c \<in> set (b # bs). covers c i) \<or> (\<exists>n \<in> set (ex @ ns). covers n i)
      \<or> (\<exists>x. res = Some x \<and> covers x i)" if "covers buf i" for i
  proof -
    have "covers buf' i \<Longrightarrow> (\<exists>c \<in> set bs. covers c i) \<or> (\<exists>n \<in> set ns. covers n i)
        \<or> (\<exists>x. res = Some x \<and> covers x i)"
      using IH by (simp add: overlap_post_def)
    with cover [OF that] show ?thesis by auto
  qed
  have 3: "sub_buf x buf \<and> (\<forall>c \<in> set (b # bs). apart c x) \<and> rb_off x < rb_end x" if "res = Some x" for x
  proof -
    have x: "sub_buf x buf'" "\<forall>c \<in> set bs. apart c x" "rb_off x < rb_end x"
      using IH that ne by (simp_all add: overlap_post_def)
    moreover have "apart b x" using x(1) ap by (auto simp: sub_buf_def apart_def)
    ultimately show ?thesis using sub_buf_trans [OF x(1) sub] by simp
  qed
  show ?thesis using 1 2 3 ne(2) by (simp add: overlap_post_def)
qed

lemma overlap_loop_spec:
  assumes "rb_ok buf" "\<forall>b \<in> set bs. rb_ok b \<and> rb_off buf \<le> rb_end b"
    and "sorted_wrt (\<lambda>a b. rb_end a \<le> rb_off b) bs"
  shows "\<exists>res ns. overlap_loop bs buf tmp = Some (res, tmp @ ns) \<and> overlap_post bs buf res ns"
  using assms
proof (induction bs arbitrary: buf tmp)
  case Nil
  then show ?case by (auto simp: overlap_post_def sub_buf_refl)
next
  case (Cons b bs)
  have b: "rb_ok b" "rb_off buf \<le> rb_end b" and bs: "\<forall>c \<in> set bs. rb_ok c \<and> rb_end b \<le> rb_off c"
    and sorted: "sorted_wrt (\<lambda>a b. rb_end a \<le> rb_off b) bs"
    using Cons.prems by auto
  note bounds = rb_end_bounds(1) [of buf] rb_end_bounds(1) [of b]
  consider (before) "rb_off b > rb_end buf" | (inside) "rb_off b \<le> rb_off buf" "rb_end buf \<le> rb_end b"
    | (head) "rb_off b \<le> rb_off buf" "rb_off buf < rb_end b" "rb_end b < rb_end buf"
    | (tail) "rb_off buf < rb_off b" "rb_off b < rb_end buf"
    | (skip) "rb_off b \<le> rb_end buf" "rb_off b \<le> rb_off buf \<Longrightarrow> rb_end b < rb_end buf \<and> rb_end b \<le> rb_off buf"
        "rb_off buf < rb_off b \<Longrightarrow> rb_end buf \<le> rb_off b"
    by linarith
  then show ?case
  proof cases
    case before
    have "\<forall>c \<in> set (b # bs). rb_end buf < rb_off c"
      using before bs bounds by fastforce
    then have "\<forall>c \<in> set (b # bs). apart c buf" by (auto simp: apart_def)
    with before \<open>\<forall>c \<in> set (b # bs). rb_end buf < rb_off c\<close> Cons.prems(1) show ?thesis
      by (intro exI [of _ "Some buf"] exI [of _ "[]"]) (simp add: overlap_post_def sub_buf_refl)
  next
    case inside
    then have "\<forall>i. covers buf i \<longrightarrow> covers b i" by (auto simp: covers_def)
    with inside Cons.prems(1) b bounds show ?thesis
      by (intro exI [of _ None] exI [of _ "[]"]) (auto simp: overlap_post_def)
  next
    case head
    obtain buf' where buf': "rb_advance (sub64 (rb_end b) (rb_off buf)) buf = Some buf'"
      "sub_buf buf' buf" "rb_off buf' = rb_end b" "rb_end buf' = rb_end buf"
      using advance_sub_buf [OF Cons.prems(1), of "rb_end b"] head rb_end_bounds(2) [OF b(1)] by auto
    have "rb_ok buf'" using buf'(2) by (simp add: sub_buf_def)
    moreover have "\<forall>c \<in> set bs. rb_ok c \<and> rb_off buf' \<le> rb_end c"
      using bs buf'(3) rb_end_bounds(1) by (metis le_trans)
    ultimately obtain res ns where IH: "overlap_loop bs buf' tmp = Some (res, tmp @ ns)"
      "overlap_post bs buf' res ns" using Cons.IH sorted by blast
    have step: "overlap_loop (b # bs) buf tmp = Some (res, tmp @ ns)"
      using head Cons.prems(1) b(1) bounds buf'(1) IH(1) by simp
    have "apart b buf'" "rb_off buf' < rb_end buf'" "rb_off buf < rb_end buf"
      using head buf'(3,4) by (simp_all add: apart_def)
    moreover have "covers buf i \<Longrightarrow> covers b i \<or> covers buf' i" for i
      using head buf'(3,4) by (auto simp: covers_def)
    ultimately have "overlap_post (b # bs) buf res ns"
      using overlap_post_Cons [OF IH(2) buf'(2), of b "[]"] by simp
    with step show ?thesis by blast
  next
    case tail
    obtain buf' rest where br: "rb_split_off (sub64 (rb_off b) (rb_off buf)) buf = Some (buf', rest)"
      "sub_buf buf' buf" "rb_off buf' = rb_off buf" "rb_end buf' = rb_off b"
      "sub_buf rest buf" "rb_off rest = rb_off b" "rb_end rest = rb_end buf"
      using split_off_sub_buf [OF Cons.prems(1) tail] by metis
    have "rb_ok buf'" using br(2) by (simp add: sub_buf_def)
    moreover have "\<forall>c \<in> set bs. rb_ok c \<and> rb_off buf' \<le> rb_end c"
      using Cons.prems(2) br(3) by auto
    ultimately obtain res ns where IH: "overlap_loop bs buf' (tmp @ [rest]) = Some (res, (tmp @ [rest]) @ ns)"
      "overlap_post bs buf' res ns" using Cons.IH sorted by blast
    have step: "overlap_loop (b # bs) buf tmp = Some (res, tmp @ (rest # ns))"
      using tail Cons.prems(1) b(1) bounds br(1) IH(1) by simp
    have "apart b buf'" "rb_off buf' < rb_end buf'" "rb_off buf < rb_end buf" "rb_off rest < rb_end rest"
      using tail br by (simp_all add: apart_def)
    moreover have "covers buf i \<Longrightarrow> covers b i \<or> covers buf' i \<or> covers rest i" for i
      using br by (auto simp: covers_def)
    ultimately have "overlap_post (b # bs) buf res (rest # ns)"
      using overlap_post_Cons [OF IH(2) br(2), of b "[rest]"] br(5) by simp
    with step show ?thesis by blast
  next
    case skip
    have "\<forall>c \<in> set bs. rb_ok c \<and> rb_off buf \<le> rb_end c" using Cons.prems(2) by auto
    then obtain res ns where IH: "overlap_loop bs buf tmp = Some (res, tmp @ ns)"
      "overlap_post bs buf res ns" using Cons.IH [OF Cons.prems(1)] sorted by blast
    have step: "overlap_loop (b # bs) buf tmp = Some (res, tmp @ ns)"
      using skip Cons.prems(1) b bounds IH(1) by auto
    have "apart b buf \<and> rb_off buf < rb_end buf"
      using skip b bounds by (cases "rb_off b \<le> rb_off buf") (simp_all add: apart_def)
    then have "overlap_post (b # bs) buf res ns"
      using overlap_post_Cons [OF IH(2) sub_buf_refl [OF Cons.prems(1)], of b "[]"] by simp
    with step show ?thesis by blast
  qed
qed

subsection \<open>The content of the buffer\<close>

definition chunks_wf :: "u64 \<Rightarrow> u64 \<Rightarrow> (u64, range_buf) btree \<Rightarrow> bool" where
  "chunks_wf lo hi m \<longleftrightarrow> bt_sorted m
     \<and> (\<forall>e \<in> set m. fst e = rb_end (snd e) \<and> rb_ok (snd e) \<and> lo \<le> rb_off (snd e) \<and> rb_end (snd e) \<le> hi)
     \<and> (\<forall>a \<in> set m. \<forall>b \<in> set m. fst a < fst b \<longrightarrow> rb_end (snd a) \<le> rb_off (snd b))"

fun content :: "(u64, range_buf) btree \<Rightarrow> nat \<Rightarrow> byte option" where
  "content [] i = None"
| "content (e # m) i = (case rb_at (snd e) i of Some x \<Rightarrow> Some x | None \<Rightarrow> content m i)"

lemma chunks_wf_Nil [simp]: "chunks_wf lo hi []"
  by (simp add: chunks_wf_def)

lemma chunks_wf_Cons: "chunks_wf lo hi (e # m) \<Longrightarrow> chunks_wf (rb_end (snd e)) hi m"
  by (auto simp: chunks_wf_def)

lemma chunks_wf_weaken: "chunks_wf lo hi m \<Longrightarrow> lo' \<le> lo \<Longrightarrow> hi \<le> hi' \<Longrightarrow> chunks_wf lo' hi' m"
  by (fastforce simp: chunks_wf_def)

lemma chunks_wfD:
  assumes "chunks_wf lo hi m" "e \<in> set m"
  shows "fst e = rb_end (snd e)" "rb_ok (snd e)" "lo \<le> rb_off (snd e)" "rb_end (snd e) \<le> hi"
  using assms by (simp_all add: chunks_wf_def)

lemma content_None_iff: "content m i = None \<longleftrightarrow> (\<forall>e \<in> set m. \<not> covers (snd e) i)"
proof (induction m)
  case (Cons e m)
  then show ?case using rb_at_covers [of "snd e" i] by (auto split: option.splits)
qed simp

lemma content_None: "\<forall>e \<in> set m. \<not> covers (snd e) i \<Longrightarrow> content m i = None"
  by (simp add: content_None_iff)

lemma content_mem:
  "chunks_wf lo hi m \<Longrightarrow> e \<in> set m \<Longrightarrow> covers (snd e) i \<Longrightarrow> content m i = rb_at (snd e) i"
proof (induction m arbitrary: lo)
  case (Cons c m)
  show ?case
  proof (cases "e = c")
    case True
    then show ?thesis using Cons.prems(3) rb_at_covers [of "snd e" i] by (auto split: option.splits)
  next
    case False
    then have m: "e \<in> set m" using Cons.prems(2) by simp
    note wf = chunks_wf_Cons [OF Cons.prems(1)]
    have "rb_end (snd c) \<le> i"
      using chunks_wfD(3) [OF wf m] Cons.prems(3) by (simp add: covers_def)
    then show ?thesis using Cons.IH [OF wf m Cons.prems(3)] by (simp add: rb_at_None)
  qed
qed simp

lemma content_SomeE:
  assumes "content m i = Some x"
  obtains e where "e \<in> set m" "rb_at (snd e) i = Some x"
  using assms by (induction m) (auto split: option.splits)

lemma content_bounds:
  assumes "chunks_wf lo hi m" "content m i = Some x"
  shows "lo \<le> i \<and> i < hi"
proof -
  obtain e where e: "e \<in> set m" "rb_at (snd e) i = Some x" using assms(2) by (rule content_SomeE)
  with chunks_wfD(3,4) [OF assms(1) e(1)] rb_at_dom [OF e(2)] show ?thesis by linarith
qed

lemma chunks_wf_insert:
  assumes wf: "chunks_wf lo hi m" and b: "rb_ok b" "lo \<le> rb_off b"
    and ap: "\<forall>e \<in> set m. apart (snd e) b" and hi: "hi \<le> hi'" "rb_end b \<le> hi'"
  shows "chunks_wf lo hi' (bt_insert (rb_end b) b m)"
proof -
  have sorted: "bt_sorted m" using wf by (simp add: chunks_wf_def)
  have set: "set (bt_insert (rb_end b) b m) = insert (rb_end b, b) {e \<in> set m. fst e \<noteq> rb_end b}"
    using sorted by (rule set_bt_insert)
  have old: "rb_ok (snd e) \<and> fst e = rb_end (snd e) \<and> lo \<le> rb_off (snd e) \<and> rb_end (snd e) \<le> hi'"
    if "e \<in> set m" for e
    using chunks_wfD [OF wf that] hi(1) by simp
  have left: "rb_end (snd e) \<le> rb_off b" if "e \<in> set m" "fst e < rb_end b" for e
    using ap that old [OF that(1)] rb_end_bounds(1) [of "snd e"] by (fastforce simp: apart_def)
  have right: "rb_end b \<le> rb_off (snd e)" if "e \<in> set m" "rb_end b < fst e" for e
    using ap that old [OF that(1)] rb_end_bounds(1) [of b] by (fastforce simp: apart_def)
  have "rb_end (snd x) \<le> rb_off (snd y)"
    if "x \<in> insert (rb_end b, b) {e \<in> set m. fst e \<noteq> rb_end b}"
      "y \<in> insert (rb_end b, b) {e \<in> set m. fst e \<noteq> rb_end b}" "fst x < fst y" for x y
    using that left [of x] right [of y] wf by (auto simp: chunks_wf_def)
  with set old b hi(2) bt_sorted_insert [OF sorted] show ?thesis
    by (auto simp: chunks_wf_def)
qed

lemma content_insert:
  assumes wf: "chunks_wf lo hi m" and b: "rb_ok b" "lo \<le> rb_off b"
    and ap: "\<forall>e \<in> set m. apart (snd e) b"
    and fresh: "rb_off b < rb_end b \<or> (\<forall>e \<in> set m. fst e \<noteq> rb_end b)"
  shows "content (bt_insert (rb_end b) b m) i = (case content m i of Some x \<Rightarrow> Some x | None \<Rightarrow> rb_at b i)"
proof -
  have wf': "chunks_wf lo (max hi (rb_end b)) (bt_insert (rb_end b) b m)"
    using chunks_wf_insert [OF wf b ap] by simp
  have set: "set (bt_insert (rb_end b) b m) = insert (rb_end b, b) {e \<in> set m. fst e \<noteq> rb_end b}"
    using wf by (simp add: chunks_wf_def set_bt_insert)
  have excl: "\<not> covers b i" if "e \<in> set m" "covers (snd e) i" for e
    using ap that by (fastforce simp: apart_def covers_def)
  have kept: "fst e \<noteq> rb_end b" if "e \<in> set m" "covers (snd e) i" for e
    using ap that fresh chunks_wfD(1) [OF wf that(1)] by (fastforce simp: apart_def covers_def)
  show ?thesis
  proof (cases "content m i")
    case None
    then have "\<forall>e \<in> set m. \<not> covers (snd e) i" by (simp add: content_None_iff)
    then have "\<not> covers b i \<Longrightarrow> content (bt_insert (rb_end b) b m) i = None"
      using set by (auto intro!: content_None)
    moreover have "covers b i \<Longrightarrow> content (bt_insert (rb_end b) b m) i = rb_at b i"
      using content_mem [OF wf', of "(rb_end b, b)"] set by simp
    ultimately show ?thesis using None rb_at_not_covers by fastforce
  next
    case (Some x)
    then obtain e where e: "e \<in> set m" "rb_at (snd e) i = Some x" by (rule content_SomeE)
    then have "covers (snd e) i" using rb_at_covers by blast
    then have "content (bt_insert (rb_end b) b m) i = Some x"
      using content_mem [OF wf', of e] set e kept by simp
    with Some show ?thesis by simp
  qed
qed

lemma overlap_post_mono:
  assumes "overlap_post bs buf res ns" "set bs \<subseteq> set cs"
    and "\<And>c. c \<in> set cs \<Longrightarrow> c \<notin> set bs \<Longrightarrow> apart c buf"
  shows "overlap_post cs buf res ns"
proof -
  have "\<forall>c \<in> set cs. apart c x" if "res = Some x" for x
  proof
    fix c assume c: "c \<in> set cs"
    have x: "sub_buf x buf" "\<forall>b \<in> set bs. apart b x" using assms(1) that by (simp_all add: overlap_post_def)
    show "apart c x"
      using x assms(3) [OF c] by (cases "c \<in> set bs") (auto simp: sub_buf_def apart_def)
  qed
  moreover have "(\<exists>c \<in> set cs. covers c i) \<or> (\<exists>n \<in> set ns. covers n i) \<or> (\<exists>x. res = Some x \<and> covers x i)"
    if "covers buf i" for i
  proof -
    have "(\<exists>b \<in> set bs. covers b i) \<or> (\<exists>n \<in> set ns. covers n i) \<or> (\<exists>x. res = Some x \<and> covers x i)"
      using assms(1) that by (simp add: overlap_post_def)
    with assms(2) show ?thesis by auto
  qed
  ultimately show ?thesis using assms(1) by (simp add: overlap_post_def)
qed

lemma place_buf_spec:
  assumes wf: "chunks_wf lo (rv_recv_off rv) (rv_data rv)" and b: "rb_ok buf" "rb_off buf < rb_end buf"
  shows "\<exists>res ns. place_buf rv buf tmp = Some (res, tmp @ ns)
           \<and> overlap_post (map snd (rv_data rv)) buf res ns"
proof (cases "rb_off buf < rv_recv_off rv")
  case True
  let ?bs = "map snd (bt_range_from (rb_off buf) (rv_data rv))"
  have key: "fst e = rb_end (snd e)" if "e \<in> set (rv_data rv)" for e
    using chunks_wfD(1) [OF wf that] .
  have "\<forall>c \<in> set ?bs. rb_ok c \<and> rb_off buf \<le> rb_end c"
    using chunks_wfD(1,2) [OF wf] by auto
  moreover have "sorted_wrt (\<lambda>a b. rb_end a \<le> rb_off b) ?bs"
  proof -
    have "sorted_wrt (<) (map fst (bt_range_from (rb_off buf) (rv_data rv)))"
      using wf bt_sorted_range_from unfolding chunks_wf_def bt_sorted_def by blast
    then have "sorted_wrt (\<lambda>a b. fst a < fst b) (bt_range_from (rb_off buf) (rv_data rv))"
      by (simp add: sorted_wrt_map)
    then have "sorted_wrt (\<lambda>a b. rb_end (snd a) \<le> rb_off (snd b)) (bt_range_from (rb_off buf) (rv_data rv))"
      by (rule sorted_wrt_mono_rel [rotated]) (use wf in \<open>simp add: chunks_wf_def\<close>)
    then show ?thesis by (simp add: sorted_wrt_map)
  qed
  ultimately obtain res ns where r: "overlap_loop ?bs buf tmp = Some (res, tmp @ ns)"
    "overlap_post ?bs buf res ns" using overlap_loop_spec [OF b(1)] by blast
  have "apart c buf" if "c \<in> set (map snd (rv_data rv))" "c \<notin> set ?bs" for c
    using that key by (fastforce simp: apart_def image_iff not_le)
  then have "overlap_post (map snd (rv_data rv)) buf res ns"
    by (intro overlap_post_mono [OF r(2)]) auto
  with r(1) True show ?thesis by (simp add: place_buf_def)
next
  case False
  have "apart (snd e) buf" if "e \<in> set (rv_data rv)" for e
    using chunks_wfD(4) [OF wf that] False by (simp add: apart_def)
  with False b show ?thesis
    by (simp add: place_buf_def rb_empty_iff overlap_post_def sub_buf_refl)
qed

subsection \<open>Storing a piece\<close>

text \<open>What the loop may change of the buffer: the chunks and the highest offset received.\<close>

definition same_frame :: "recv_buf \<Rightarrow> recv_buf \<Rightarrow> bool" where
  "same_frame rv rv' \<longleftrightarrow> rv_read_off rv' = rv_read_off rv \<and> rv_fin_off rv' = rv_fin_off rv
     \<and> rv_error rv' = rv_error rv \<and> rv_shut rv' = rv_shut rv \<and> rv_fc rv' = rv_fc rv"

lemma same_frame_trans: "same_frame a b \<Longrightarrow> same_frame b c \<Longrightarrow> same_frame a c"
  by (simp add: same_frame_def)

lemma store_buf_simps:
  assumes "\<not> rv_shut rv" "rb_ok b"
  shows "rv_data (store_buf b rv) = bt_insert (rb_end b) b (rv_data rv)"
    "rv_recv_off (store_buf b rv) = max (rv_recv_off rv) (rb_end b)"
    "same_frame rv (store_buf b rv)"
  using assms by (simp_all add: store_buf_def Let_def same_frame_def)

abbreviation rv_chunks_ok :: "recv_buf \<Rightarrow> bool" where
  "rv_chunks_ok rv \<equiv> chunks_wf (rv_read_off rv) (rv_recv_off rv) (rv_data rv)"

definition fill :: "(nat \<Rightarrow> byte option) \<Rightarrow> (nat \<Rightarrow> byte option) \<Rightarrow> nat \<Rightarrow> byte option" where
  "fill c d i = (case c i of Some x \<Rightarrow> Some x | None \<Rightarrow> d i)"

text \<open>The bytes a queue of pieces carries at or after an offset, when they agree with \<open>d\<close>.\<close>

definition carried :: "u64 \<Rightarrow> range_buf list \<Rightarrow> (nat \<Rightarrow> byte option) \<Rightarrow> nat \<Rightarrow> byte option" where
  "carried lo q d i = (if lo \<le> i \<and> (\<exists>b \<in> set q. covers b i) then d i else None)"

definition piece_ok :: "u64 \<Rightarrow> (nat \<Rightarrow> byte option) \<Rightarrow> range_buf \<Rightarrow> bool" where
  "piece_ok lo d b \<longleftrightarrow> rb_ok b \<and> rb_off b < rb_end b \<and> lo < rb_end b \<and> (\<forall>i. covers b i \<longrightarrow> rb_at b i = d i)"

lemma skip_read_piece:
  assumes "piece_ok lo d b"
  obtains b' where "skip_read lo b = Some b'" "piece_ok lo d b'" "lo \<le> rb_off b'"
    "rb_end b' = rb_end b" "\<And>i. covers b' i \<longleftrightarrow> lo \<le> i \<and> covers b i"
proof (cases "lo > rb_off b")
  case True
  have ok: "rb_ok b" "lo < u64_mod"
    using assms rb_end_bounds(2) [of b] by (auto simp: piece_ok_def)
  obtain b' where b': "rb_advance (sub64 lo (rb_off b)) b = Some b'" "sub_buf b' b"
    "rb_off b' = lo" "rb_end b' = rb_end b"
    using advance_sub_buf [OF ok(1) _ _ ok(2)] True assms by (auto simp: piece_ok_def)
  have cov: "covers b' i \<longleftrightarrow> lo \<le> i \<and> covers b i" for i
    using b'(3,4) True by (auto simp: covers_def)
  moreover have "piece_ok lo d b'"
    using assms b' cov by (auto simp: piece_ok_def sub_buf_def)
  ultimately show thesis using that [of b'] b' True by (simp add: skip_read_def)
next
  case False
  then have "covers b i \<longleftrightarrow> lo \<le> i \<and> covers b i" for i by (auto simp: covers_def)
  with False show thesis using that [of b] assms by (simp add: skip_read_def)
qed

lemma sub_piece:
  assumes "piece_ok lo d b" "lo \<le> rb_off b" "sub_buf n b" "rb_off n < rb_end n"
  shows "piece_ok lo d n"
proof -
  have "rb_at n i = d i" if "covers n i" for i
    using assms that sub_buf_covers [OF assms(3) that] by (simp add: piece_ok_def sub_buf_def)
  with assms show ?thesis by (simp add: piece_ok_def sub_buf_def)
qed

definition store_post ::
  "recv_buf \<Rightarrow> range_buf list \<Rightarrow> (nat \<Rightarrow> byte option) \<Rightarrow> recv_buf \<Rightarrow> bool" where
  "store_post rv q d rv' \<longleftrightarrow> same_frame rv rv' \<and> rv_chunks_ok rv'
     \<and> rv_recv_off rv \<le> rv_recv_off rv'
     \<and> (\<forall>h. rv_recv_off rv \<le> h \<and> (\<forall>b \<in> set q. rb_end b \<le> h) \<longrightarrow> rv_recv_off rv' \<le> h)
     \<and> (\<forall>e \<in> set (rv_data rv'). rb_is_empty (snd e) \<longrightarrow> e \<in> set (rv_data rv))
     \<and> content (rv_data rv') = fill (content (rv_data rv)) (carried (rv_read_off rv) q d)"

lemma store_buf_post:
  assumes wf: "rv_chunks_ok rv" and sh: "\<not> rv_shut rv"
    and b: "piece_ok (rv_read_off rv) d b" "rv_read_off rv \<le> rb_off b"
    and ap: "\<forall>c \<in> set (map snd (rv_data rv)). apart c b"
  shows "store_post rv [b] d (store_buf b rv)"
proof -
  have ok: "rb_ok b" "rb_off b < rb_end b" using b(1) by (simp_all add: piece_ok_def)
  have ap': "\<forall>e \<in> set (rv_data rv). apart (snd e) b" using ap by simp
  note st = store_buf_simps [OF sh ok(1)]
  have fr: "rv_read_off (store_buf b rv) = rv_read_off rv" using st(3) by (simp add: same_frame_def)
  have wf': "rv_chunks_ok (store_buf b rv)"
    using chunks_wf_insert [OF wf ok(1) b(2) ap'] by (simp add: st fr)
  have at: "rb_at b i = carried (rv_read_off rv) [b] d i" for i
    using b rb_at_not_covers [of b i] by (auto simp: carried_def piece_ok_def covers_def)
  have "content (rv_data (store_buf b rv)) i = fill (content (rv_data rv)) (carried (rv_read_off rv) [b] d) i" for i
    using content_insert [OF wf ok(1) b(2) ap'] ok(2)
    by (simp add: st fill_def at split: option.split)
  moreover have "\<forall>e \<in> set (rv_data (store_buf b rv)). rb_is_empty (snd e) \<longrightarrow> e \<in> set (rv_data rv)"
    using wf ok(2) by (auto simp: st set_bt_insert chunks_wf_def rb_empty_iff)
  ultimately show ?thesis using wf' st by (auto simp: store_post_def)
qed

lemma store_post_trans:
  assumes "store_post rv q1 d rv1" "store_post rv1 q2 d rv2"
  shows "store_post rv (q1 @ q2) d rv2"
proof -
  have fr: "rv_read_off rv1 = rv_read_off rv" using assms(1) by (simp add: store_post_def same_frame_def)
  have "content (rv_data rv2) i = fill (content (rv_data rv)) (carried (rv_read_off rv) (q1 @ q2) d) i" for i
    using assms fr by (auto simp: store_post_def fill_def carried_def split: option.splits)
  moreover have "same_frame rv rv2" using assms by (auto simp: store_post_def intro: same_frame_trans)
  ultimately show ?thesis using assms by (auto simp: store_post_def)
qed

lemma store_post_cover:
  assumes post: "store_post rv q d rv'"
    and sub: "\<And>b. b \<in> set q \<Longrightarrow> \<exists>c \<in> set q'. rb_end b \<le> rb_end c \<and> (\<forall>i. covers b i \<longrightarrow> covers c i)"
    and cvr: "\<And>i. rv_read_off rv \<le> i \<Longrightarrow> content (rv_data rv) i = None \<Longrightarrow>
                 (\<exists>c \<in> set q'. covers c i) \<Longrightarrow> (\<exists>b \<in> set q. covers b i)"
  shows "store_post rv q' d rv'"
proof -
  have "\<exists>c \<in> set q'. covers c i" if "\<exists>b \<in> set q. covers b i" for i
    using that sub by blast
  then have "fill (content (rv_data rv)) (carried (rv_read_off rv) q d) i
      = fill (content (rv_data rv)) (carried (rv_read_off rv) q' d) i" for i
    using cvr [of i] by (auto simp: fill_def carried_def split: option.split)
  then have "fill (content (rv_data rv)) (carried (rv_read_off rv) q d)
      = fill (content (rv_data rv)) (carried (rv_read_off rv) q' d)" by (rule ext)
  moreover have "rv_recv_off rv' \<le> h" if h: "rv_recv_off rv \<le> h" "\<forall>c \<in> set q'. rb_end c \<le> h" for h
  proof -
    have "\<forall>b \<in> set q. rb_end b \<le> h" using sub h(2) by (meson le_trans)
    with post h(1) show ?thesis by (simp add: store_post_def)
  qed
  ultimately show ?thesis using post by (simp add: store_post_def)
qed

lemma store_loop_spec:
  assumes "rv_chunks_ok rv" "\<not> rv_shut rv" "\<forall>b \<in> set q. piece_ok (rv_read_off rv) d b"
  shows "\<exists>rv'. store_loop q rv = Some rv' \<and> store_post rv q d rv'"
  using assms
proof (induction q rv rule: store_loop.induct)
  case (1 rv)
  then show ?case by (simp add: store_post_def same_frame_def fill_def carried_def fun_eq_iff split: option.split)
next
  case (2 buf0 tmp rv)
  let ?lo = "rv_read_off rv"
  from "2.prems"(3) obtain buf where buf: "skip_read ?lo buf0 = Some buf" "piece_ok ?lo d buf"
    "?lo \<le> rb_off buf" "rb_end buf = rb_end buf0" "\<And>i. covers buf i \<longleftrightarrow> ?lo \<le> i \<and> covers buf0 i"
    using skip_read_piece [of ?lo d buf0] by auto
  have "rb_ok buf" "rb_off buf < rb_end buf" using buf(2) by (simp_all add: piece_ok_def)
  then obtain res ns where place: "place_buf rv buf tmp = Some (res, tmp @ ns)"
    "overlap_post (map snd (rv_data rv)) buf res ns"
    using place_buf_spec [OF "2.prems"(1)] by blast
  have ns: "\<forall>n \<in> set ns. piece_ok ?lo d n"
    using place(2) sub_piece [OF buf(2,3)] by (simp add: overlap_post_def)
  have sub: "\<exists>c \<in> set (buf0 # tmp). rb_end b \<le> rb_end c \<and> (\<forall>i. covers b i \<longrightarrow> covers c i)"
    if "b \<in> set (tmp @ ns) \<or> res = Some b" for b
  proof (cases "b \<in> set tmp")
    case False
    then have "sub_buf b buf" using that place(2) by (auto simp: overlap_post_def)
    then have "rb_end b \<le> rb_end buf0" "\<And>i. covers b i \<Longrightarrow> covers buf0 i"
      using buf(4) buf(5) sub_buf_covers [of b buf] by (simp add: sub_buf_def, blast)
    then show ?thesis by simp
  qed auto
  have cvr: "(\<exists>b \<in> set (tmp @ ns). covers b i) \<or> (\<exists>b. res = Some b \<and> covers b i)"
    if "?lo \<le> i" "content (rv_data rv) i = None" "\<exists>c \<in> set (buf0 # tmp). covers c i" for i
  proof (cases "covers buf0 i")
    case True
    then have "covers buf i" using that(1) buf(5) by simp
    with place(2) have "(\<exists>b \<in> set (map snd (rv_data rv)). covers b i) \<or> (\<exists>n \<in> set ns. covers n i)
        \<or> (\<exists>x. res = Some x \<and> covers x i)" by (simp add: overlap_post_def)
    with that(2) show ?thesis by (auto simp: content_None_iff)
  qed (use that(3) in auto)
  show ?case
  proof (cases res)
    case None
    then obtain rv' where rv': "store_loop (tmp @ ns) rv = Some rv'" "store_post rv (tmp @ ns) d rv'"
      using "2.IH"(1) [OF buf(1) place(1)] "2.prems" ns by auto
    have "store_post rv (buf0 # tmp) d rv'"
    proof (rule store_post_cover [OF rv'(2)])
      fix i assume "rv_read_off rv \<le> i" "content (rv_data rv) i = None" "\<exists>c \<in> set (buf0 # tmp). covers c i"
      from cvr [OF this] None show "\<exists>b \<in> set (tmp @ ns). covers b i" by simp
    qed (rule sub, simp)
    with None buf(1) place(1) rv'(1) show ?thesis by simp
  next
    case (Some b)
    then have b: "piece_ok ?lo d b" "?lo \<le> rb_off b" "\<forall>c \<in> set (map snd (rv_data rv)). apart c b"
      using place(2) sub_piece [OF buf(2,3)] buf(2,3) by (auto simp: overlap_post_def sub_buf_def piece_ok_def)
    then have post: "store_post rv [b] d (store_buf b rv)"
      using store_buf_post [OF "2.prems"(1,2)] by blast
    then have "rv_read_off (store_buf b rv) = ?lo" "\<not> rv_shut (store_buf b rv)"
      using "2.prems"(2) by (simp_all add: store_post_def same_frame_def)
    moreover have "rv_chunks_ok (store_buf b rv)" using post by (simp add: store_post_def)
    ultimately obtain rv' where rv': "store_loop (tmp @ ns) (store_buf b rv) = Some rv'"
      "store_post (store_buf b rv) (tmp @ ns) d rv'"
      using "2.IH"(2) [OF buf(1) place(1) _ Some] "2.prems" ns by auto
    have "store_post rv (buf0 # tmp) d rv'"
    proof (rule store_post_cover [OF store_post_trans [OF post rv'(2)]])
      fix i assume "rv_read_off rv \<le> i" "content (rv_data rv) i = None" "\<exists>c \<in> set (buf0 # tmp). covers c i"
      from cvr [OF this] Some show "\<exists>c \<in> set ([b] @ tmp @ ns). covers c i" by auto
    qed (rule sub, use Some in auto)
    with Some buf(1) place(1) rv'(1) show ?thesis by simp
  qed
qed

lemma store_loop_empty:
  assumes wf: "rv_chunks_ok rv" and sh: "\<not> rv_shut rv" and lo: "rv_read_off rv \<le> rb_off b"
    and b: "rb_ok b" "rb_end b = rb_off b" "rv_recv_off rv \<le> rb_off b"
  shows "\<exists>rv'. store_loop [b] rv = Some rv' \<and> same_frame rv rv' \<and> rv_chunks_ok rv'
     \<and> rv_recv_off rv' = rb_off b \<and> content (rv_data rv') = content (rv_data rv)
     \<and> set (rv_data rv') \<subseteq> insert (rb_off b, b) (set (rv_data rv))"
proof -
  have skip: "skip_read (rv_read_off rv) b = Some b" using lo by (simp add: skip_read_def)
  have emp: "rb_is_empty b" using b(2) by (simp add: rb_empty_iff)
  show ?thesis
  proof (cases "bt_range_from (rb_off b) (rv_data rv)")
    case Nil
    have place: "place_buf rv b [] = Some (Some b, [])" using emp Nil by (simp add: place_buf_def)
    have "set (bt_range_from (rb_off b) (rv_data rv)) = {}" by (simp only: Nil list.set)
    then have none: "fst e < rb_end b" if "e \<in> set (rv_data rv)" for e
      using that b(2) by (cases e) (auto simp: not_le)
    then have ap: "\<forall>e \<in> set (rv_data rv). apart (snd e) b"
      using chunks_wfD(1) [OF wf] b(2) by (fastforce simp: apart_def)
    note st = store_buf_simps [OF sh b(1)]
    have fr: "rv_read_off (store_buf b rv) = rv_read_off rv" using st(3) by (simp add: same_frame_def)
    have "rv_chunks_ok (store_buf b rv)"
      using chunks_wf_insert [OF wf b(1) lo ap] by (simp add: st fr)
    moreover have "content (rv_data (store_buf b rv)) i = content (rv_data rv) i" for i
    proof -
      have "\<forall>e \<in> set (rv_data rv). fst e \<noteq> rb_end b" using none by (metis less_irrefl)
      moreover have "rb_at b i = None" using b(2) by (intro rb_at_None) linarith
      ultimately show ?thesis
        using content_insert [OF wf b(1) lo ap] by (simp add: st split: option.split)
    qed
    moreover have "set (rv_data (store_buf b rv)) \<subseteq> insert (rb_off b, b) (set (rv_data rv))"
      using wf b(2) by (auto simp: st set_bt_insert chunks_wf_def)
    ultimately show ?thesis
      using st b skip place by (auto simp: fun_eq_iff)
  next
    case (Cons e es)
    have "e \<in> set (bt_range_from (rb_off b) (rv_data rv))" by (simp only: Cons list.set insertI1)
    then have e: "e \<in> set (rv_data rv)" "rb_off b \<le> fst e" by simp_all
    note ce = chunks_wfD [OF wf e(1)]
    have "rb_end (snd e) = rb_off b" using ce b(3) e(2) by simp
    then have "place_buf rv b [] = Some (None, [])"
      using emp b ce(2) rb_end_bounds(1) [of "snd e"] by (simp add: place_buf_def Cons)
    moreover have "rv_recv_off rv = rb_off b" using \<open>rb_end (snd e) = rb_off b\<close> ce(4) b(3) by simp
    ultimately show ?thesis using skip wf by (auto simp: same_frame_def)
  qed
qed

lemma store_loop_shut:
  assumes "rv_data rv = []" "rv_shut rv" "skip_read (rv_read_off rv) b = Some b'" "rb_ok b'"
  shows "store_loop [b] rv = Some (rv\<lparr>rv_recv_off := max (rv_recv_off rv) (rb_end b')\<rparr>)"
proof -
  have "place_buf rv b' [] = Some (Some b', [])" using assms(1) by (simp add: place_buf_def bt_range_from_def)
  with assms show ?thesis by (simp add: store_buf_def)
qed

subsection \<open>The invariant, and what a write does\<close>

definition rv_inv :: "recv_buf \<Rightarrow> bool" where
  "rv_inv rv \<longleftrightarrow> rv_chunks_ok rv \<and> rv_read_off rv \<le> rv_recv_off rv
     \<and> rv_recv_off rv \<le> rv_max_data rv \<and> rv_max_data rv < u64_mod
     \<and> (\<forall>f. rv_fin_off rv = Some f \<longrightarrow> rv_recv_off rv = f)
     \<and> (\<forall>e \<in> set (rv_data rv). rb_is_empty (snd e) \<longrightarrow> rv_fin_off rv \<noteq> None)
     \<and> (rv_shut rv \<longrightarrow> rv_data rv = [])"

abbreviation rv_content :: "recv_buf \<Rightarrow> nat \<Rightarrow> byte option" where
  "rv_content rv \<equiv> content (rv_data rv)"

definition final_size_conflict :: "u64 \<Rightarrow> bool \<Rightarrow> recv_buf \<Rightarrow> bool" where
  "final_size_conflict off fin rv \<longleftrightarrow>
     (\<exists>f. rv_fin_off rv = Some f \<and> (off > f \<or> (fin \<and> f \<noteq> off))) \<or> (fin \<and> off < rv_recv_off rv)"

text \<open>The bytes that a write at \<open>offset\<close> carries beyond what has been read.\<close>

definition frame_at :: "u64 \<Rightarrow> byte list \<Rightarrow> nat \<Rightarrow> byte option" where
  "frame_at offset data i =
     (if offset \<le> i \<and> i < offset + length data then Some (data ! (i - offset)) else None)"

definition unread_at :: "u64 \<Rightarrow> (nat \<Rightarrow> byte option) \<Rightarrow> nat \<Rightarrow> byte option" where
  "unread_at lo d i = (if lo \<le> i then d i else None)"

lemma rb_at_new: "rb_at (rb_new data offset fin) i = frame_at offset data i"
  by (simp add: rb_at_def frame_at_def rb_end_def)

definition write_post :: "u64 \<Rightarrow> byte list \<Rightarrow> bool \<Rightarrow> recv_buf \<Rightarrow> recv_buf \<Rightarrow> bool" where
  "write_post offset data fin rv rv' \<longleftrightarrow>
     rv_inv rv'
     \<and> rv_recv_off rv' = (if data = [] \<and> \<not> fin then rv_recv_off rv else max (rv_recv_off rv) (offset + length data))
     \<and> rv_fin_off rv' = (if fin then Some (offset + length data) else rv_fin_off rv)
     \<and> rv_content rv' = (if rv_shut rv then rv_content rv
                        else fill (rv_content rv) (unread_at (rv_read_off rv) (frame_at offset data)))
     \<and> (\<forall>e \<in> set (rv_data rv'). rb_is_empty (snd e) \<longrightarrow>
          e \<in> set (rv_data rv) \<or> (fin \<and> rb_off (snd e) = offset + length data))
     \<and> rv_read_off rv' = rv_read_off rv \<and> rv_error rv' = rv_error rv
     \<and> rv_shut rv' = rv_shut rv \<and> rv_fc rv' = rv_fc rv"

definition with_fin :: "u64 \<Rightarrow> bool \<Rightarrow> recv_buf \<Rightarrow> recv_buf" where
  "with_fin off fin rv = (if fin then rv\<lparr>rv_fin_off := Some off\<rparr> else rv)"

lemma with_fin_simps [simp]:
  "rv_data (with_fin off fin rv) = rv_data rv" "rv_read_off (with_fin off fin rv) = rv_read_off rv"
  "rv_recv_off (with_fin off fin rv) = rv_recv_off rv" "rv_shut (with_fin off fin rv) = rv_shut rv"
  "rv_error (with_fin off fin rv) = rv_error rv" "rv_fc (with_fin off fin rv) = rv_fc rv"
  "rv_fin_off (with_fin off fin rv) = (if fin then Some off else rv_fin_off rv)"
  by (simp_all add: with_fin_def)

lemma rv_write_eq:
  assumes "offset + length data < u64_mod"
  shows "rv_write offset data fin rv =
    (if offset + length data > rv_max_data rv then (rv, Inl (Err FlowControlError))
     else if final_size_conflict (offset + length data) fin rv then (rv, Inl (Err FinalSizeError))
     else if rv_is_fin rv \<or> (\<not> fin \<and> data = []) then (rv, Inr ())
     else if rv_read_off rv \<ge> offset + length data \<and> data \<noteq> []
       then (with_fin (offset + length data) fin rv, Inr ())
     else (case store_loop [rb_new data offset fin] (with_fin (offset + length data) fin rv) of
             None \<Rightarrow> (with_fin (offset + length data) fin rv, Inl Panic)
           | Some rv' \<Rightarrow> (rv', Inr ())))"
proof -
  have 1: "rb_max_off (rb_new data offset fin) = offset + length data"
    "rb_is_empty (rb_new data offset fin) \<longleftrightarrow> data = []"
    using assms by (simp_all add: rb_max_off_def rb_len_def rb_is_empty_def add64_nowrap)
  have 2: "(case rv_fin_off rv of Some f \<Rightarrow> x > f \<or> (fin \<and> f \<noteq> x) | None \<Rightarrow> False) \<or> (fin \<and> x < rv_recv_off rv)
      \<longleftrightarrow> final_size_conflict x fin rv" for x
    by (auto simp: final_size_conflict_def split: option.split)
  show ?thesis
    unfolding rv_write_def Let_def 1 rb_new_simps 2 [symmetric] with_fin_def [symmetric]
    by (auto simp del: store_loop.simps)
qed

lemma write_post_stored:
  assumes inv: "rv_inv rv" and len: "offset + length data \<le> rv_max_data rv"
    and nc: "\<not> final_size_conflict (offset + length data) fin rv" and ne: "data \<noteq> [] \<or> fin"
    and fr: "same_frame (with_fin (offset + length data) fin rv) rv'" and wf: "rv_chunks_ok rv'"
    and rc: "rv_recv_off rv' = max (rv_recv_off rv) (offset + length data)"
    and em: "\<forall>e \<in> set (rv_data rv'). rb_is_empty (snd e) \<longrightarrow>
               e \<in> set (rv_data rv) \<or> (fin \<and> rb_off (snd e) = offset + length data)"
    and ct: "rv_content rv' = (if rv_shut rv then rv_content rv
                        else fill (rv_content rv) (unread_at (rv_read_off rv) (frame_at offset data)))"
    and sh: "rv_shut rv \<Longrightarrow> rv_data rv' = []"
  shows "write_post offset data fin rv rv'"
proof -
  have f: "rv_read_off rv' = rv_read_off rv" "rv_error rv' = rv_error rv" "rv_shut rv' = rv_shut rv"
    "rv_fc rv' = rv_fc rv" "rv_fin_off rv' = (if fin then Some (offset + length data) else rv_fin_off rv)"
    using fr by (simp_all add: same_frame_def)
  have "rv_recv_off rv' = x" if "rv_fin_off rv' = Some x" for x
    using that inv nc by (auto simp: f(5) rc rv_inv_def final_size_conflict_def split: if_splits)
  moreover have "rv_fin_off rv' \<noteq> None" if "e \<in> set (rv_data rv')" "rb_is_empty (snd e)" for e
    using em that inv by (auto simp: f(5) rv_inv_def)
  moreover have "rv_max_data rv' = rv_max_data rv" by (simp add: f(4) rv_max_data_def)
  ultimately have "rv_inv rv'"
    using inv wf len sh rc by (auto simp: rv_inv_def f(1,3))
  with f ct rc ne em show ?thesis by (auto simp: write_post_def)
qed

lemma write_post_same:
  assumes inv: "rv_inv rv" and len: "offset + length data \<le> rv_max_data rv"
    and nc: "\<not> final_size_conflict (offset + length data) fin rv" and ne: "data \<noteq> [] \<or> fin"
    and old: "offset + length data \<le> rv_read_off rv"
  shows "write_post offset data fin rv (with_fin (offset + length data) fin rv)"
proof -
  have "fill (rv_content rv) (unread_at (rv_read_off rv) (frame_at offset data)) i = rv_content rv i" for i
    using old by (auto simp: fill_def unread_at_def frame_at_def split: option.split)
  then have "fill (rv_content rv) (unread_at (rv_read_off rv) (frame_at offset data)) = rv_content rv"
    by (rule ext)
  with inv old show ?thesis
    by (intro write_post_stored [OF inv len nc ne])
       (auto simp: rv_inv_def same_frame_def)
qed

lemma store_write_post:
  assumes inv: "rv_inv rv" and len: "offset + length data \<le> rv_max_data rv"
    and nc: "\<not> final_size_conflict (offset + length data) fin rv" and ne: "data \<noteq> [] \<or> fin"
    and new: "rv_read_off rv < offset + length data \<or> data = []" and sh: "\<not> rv_shut rv"
  shows "\<exists>rv'. store_loop [rb_new data offset fin] (with_fin (offset + length data) fin rv) = Some rv'
           \<and> write_post offset data fin rv rv'"
proof -
  let ?b = "rb_new data offset fin" and ?rv = "with_fin (offset + length data) fin rv"
  have bend: "rb_end ?b = offset + length data" by (simp add: rb_end_def)
  have ok: "rb_ok ?b" using inv len by (simp add: rb_ok_def rv_inv_def)
  have wf: "rv_chunks_ok ?rv" and sh': "\<not> rv_shut ?rv" using inv sh by (simp_all add: rv_inv_def)
  show ?thesis
  proof (cases "data = []")
    case True
    have lo: "rv_recv_off rv \<le> offset" using True ne nc by (auto simp: final_size_conflict_def)
    then have "rv_read_off ?rv \<le> rb_off ?b" using inv by (auto simp: rv_inv_def)
    from store_loop_empty [OF wf sh' this ok] True lo obtain rv'
      where rv': "store_loop [?b] ?rv = Some rv'" "same_frame ?rv rv'" "rv_chunks_ok rv'"
        "rv_recv_off rv' = offset" "rv_content rv' = rv_content rv"
        "set (rv_data rv') \<subseteq> insert (offset, ?b) (set (rv_data rv))" by (auto simp: rb_end_def)
    have "fill (rv_content rv) (unread_at (rv_read_off rv) (frame_at offset data)) = rv_content rv"
      using True by (auto simp: fill_def unread_at_def frame_at_def fun_eq_iff split: option.split)
    then have "write_post offset data fin rv rv'"
      using rv' True lo ne sh by (intro write_post_stored [OF inv len nc ne]) auto
    with rv'(1) show ?thesis by blast
  next
    case False
    have piece: "piece_ok (rv_read_off ?rv) (frame_at offset data) ?b"
      using ok new False by (simp add: piece_ok_def bend rb_at_new)
    then obtain rv' where rv': "store_loop [?b] ?rv = Some rv'" "store_post ?rv [?b] (frame_at offset data) rv'"
      using store_loop_spec [OF wf sh', of "[?b]"] by auto
    have ct: "rv_content rv' = fill (rv_content rv) (unread_at (rv_read_off rv) (frame_at offset data))"
      using rv'(2) by (auto simp: store_post_def fill_def carried_def unread_at_def frame_at_def
          covers_def bend fun_eq_iff split: option.split)
    have wf': "rv_chunks_ok rv'" using rv'(2) by (simp add: store_post_def)
    have "rv_content rv' (offset + length data - 1) \<noteq> None"
      using False new by (cases data) (auto simp: ct fill_def unread_at_def frame_at_def split: option.split)
    then have "offset + length data \<le> rv_recv_off rv'"
      using content_bounds [OF wf'] False by (cases data) fastforce+
    then have "rv_recv_off rv' = max (rv_recv_off rv) (offset + length data)"
      using rv'(2) bend by (intro antisym) (simp_all add: store_post_def)
    with rv' ct wf' sh have "write_post offset data fin rv rv'"
      by (intro write_post_stored [OF inv len nc ne]) (simp_all add: store_post_def)
    with rv'(1) show ?thesis by blast
  qed
qed

lemma rv_inv_below: "rv_inv rv \<Longrightarrow> n \<le> rv_max_data rv \<Longrightarrow> n < u64_mod"
  by (simp add: rv_inv_def)

lemma store_shut_post:
  assumes inv: "rv_inv rv" and len: "offset + length data \<le> rv_max_data rv"
    and nc: "\<not> final_size_conflict (offset + length data) fin rv" and ne: "data \<noteq> [] \<or> fin"
    and new: "rv_read_off rv < offset + length data \<or> data = []" and sh: "rv_shut rv"
  shows "\<exists>rv'. store_loop [rb_new data offset fin] (with_fin (offset + length data) fin rv) = Some rv'
           \<and> write_post offset data fin rv rv'"
proof -
  let ?b = "rb_new data offset fin" and ?rv = "with_fin (offset + length data) fin rv"
  let ?rv' = "?rv\<lparr>rv_recv_off := max (rv_recv_off ?rv) (offset + length data)\<rparr>"
  have ok: "rb_ok ?b" using inv len by (simp add: rb_ok_def rv_inv_def)
  have nil: "rv_data ?rv = []" using inv sh by (simp add: rv_inv_def)
  have "\<exists>b'. skip_read (rv_read_off rv) ?b = Some b' \<and> rb_ok b' \<and> rb_end b' = offset + length data"
  proof (cases "rv_read_off rv > offset")
    case True
    have "rv_read_off rv < offset + length data"
      using True new nc ne inv by (auto simp: final_size_conflict_def rv_inv_def)
    then have "rb_off ?b \<le> rv_read_off rv" "rv_read_off rv \<le> rb_end ?b" "rv_read_off rv < u64_mod"
      using True rv_inv_below [OF inv len] by (simp_all add: rb_end_def)
    then obtain b' where "rb_advance (sub64 (rv_read_off rv) (rb_off ?b)) ?b = Some b'" "sub_buf b' ?b"
      "rb_off b' = rv_read_off rv" "rb_end b' = rb_end ?b"
      by (rule advance_sub_buf [OF ok])
    with True show ?thesis by (simp add: skip_read_def sub_buf_def) (simp add: rb_end_def)
  qed (use ok in \<open>simp add: skip_read_def rb_end_def\<close>)
  then have "store_loop [?b] ?rv = Some ?rv'"
    using store_loop_shut [OF nil, of ?b] sh by auto
  moreover have "write_post offset data fin rv ?rv'"
    using inv nil sh by (intro write_post_stored [OF inv len nc ne]) (simp_all add: same_frame_def)
  ultimately show ?thesis by blast
qed

lemma rv_write_ok:
  assumes inv: "rv_inv rv" and len: "offset + length data \<le> rv_max_data rv"
    and nc: "\<not> final_size_conflict (offset + length data) fin rv"
  shows "\<exists>rv'. rv_write offset data fin rv = (rv', Inr ()) \<and> write_post offset data fin rv rv'"
proof -
  note eq = rv_write_eq [OF rv_inv_below [OF inv len], of fin rv]
  have skip: "write_post offset data fin rv rv" if "data = []" "\<not> fin"
    using that inv by (auto simp: write_post_def fill_def unread_at_def frame_at_def fun_eq_iff split: option.split)
  consider (none) "data = []" "\<not> fin" | (isfin) "data \<noteq> [] \<or> fin" "rv_is_fin rv"
    | (old) "data \<noteq> []" "\<not> rv_is_fin rv" "rv_read_off rv \<ge> offset + length data"
    | (new) "data \<noteq> [] \<or> fin" "\<not> rv_is_fin rv" "rv_read_off rv < offset + length data \<or> data = []"
    by linarith
  then show ?thesis
  proof cases
    case none
    with eq len nc skip show ?thesis by simp
  next
    case isfin
    then have f: "rv_fin_off rv = Some (rv_read_off rv)" by (simp add: rv_is_fin_def split: option.splits)
    then have "offset + length data \<le> rv_read_off rv" "fin \<Longrightarrow> offset + length data = rv_read_off rv"
      using nc by (auto simp: final_size_conflict_def)
    moreover have "rv\<lparr>rv_fin_off := Some (rv_read_off rv)\<rparr> = rv" using f by (cases rv) simp
    ultimately have "write_post offset data fin rv rv"
      using write_post_same [OF inv len nc isfin(1)] by (cases fin) (simp_all add: with_fin_def)
    with eq len nc isfin show ?thesis by simp
  next
    case old
    with eq len nc write_post_same [OF inv len nc] show ?thesis by simp
  next
    case new
    have "\<exists>rv'. store_loop [rb_new data offset fin] (with_fin (offset + length data) fin rv) = Some rv'
           \<and> write_post offset data fin rv rv'"
      using store_shut_post [OF inv len nc new(1,3)] store_write_post [OF inv len nc new(1,3)] by blast
    with eq len nc new show ?thesis by (auto simp del: store_loop.simps)
  qed
qed

subsection \<open>What a read does\<close>

lemma rv_ready_iff:
  "rv_ready rv \<longleftrightarrow> (\<exists>e m. rv_data rv = e # m \<and> rb_off (snd e) = rv_read_off rv)"
  by (cases "rv_data rv") (auto simp: rv_ready_def split: prod.splits)

lemma not_ready_content:
  assumes "rv_chunks_ok rv" "\<not> rv_ready rv"
  shows "rv_content rv (rv_read_off rv) = None"
proof (cases "rv_data rv")
  case (Cons e m)
  have lo: "rv_read_off rv < rb_off (snd e)"
    using assms chunks_wfD(3) [OF assms(1), of e] Cons rv_ready_iff [of rv] by (auto simp: le_less)
  have "\<not> covers (snd x) (rv_read_off rv)" if "x \<in> set (rv_data rv)" for x
  proof (cases "x = e")
    case False
    then have "x \<in> set m" using that Cons by simp
    then have "rb_end (snd e) \<le> rb_off (snd x)"
      using chunks_wf_Cons [of "rv_read_off rv" "rv_recv_off rv" e m] assms(1) Cons chunks_wfD(3) by metis
    with lo rb_end_bounds(1) [of "snd e"] show ?thesis by (simp add: covers_def)
  qed (use lo in \<open>simp add: covers_def\<close>)
  then show ?thesis by (simp add: content_None_iff)
qed simp

definition same_meta :: "recv_buf \<Rightarrow> recv_buf \<Rightarrow> bool" where
  "same_meta rv rv' \<longleftrightarrow> rv_recv_off rv' = rv_recv_off rv \<and> rv_fin_off rv' = rv_fin_off rv
     \<and> rv_error rv' = rv_error rv \<and> rv_shut rv' = rv_shut rv \<and> rv_fc rv' = rv_fc rv"

definition read_post :: "usize \<Rightarrow> recv_buf \<Rightarrow> recv_buf \<Rightarrow> byte list \<Rightarrow> bool" where
  "read_post cap rv rv' bs \<longleftrightarrow>
     same_meta rv rv' \<and> rv_read_off rv' = rv_read_off rv + length bs
     \<and> rv_chunks_ok rv' \<and> rv_read_off rv' \<le> rv_recv_off rv \<and> length bs \<le> cap
     \<and> (\<forall>j < length bs. rv_content rv (rv_read_off rv + j) = Some (bs ! j))
     \<and> (\<forall>i \<ge> rv_read_off rv'. rv_content rv' i = rv_content rv i)
     \<and> (length bs < cap \<longrightarrow> \<not> rv_ready rv')
     \<and> (\<forall>e \<in> set (rv_data rv'). rb_is_empty (snd e) \<longrightarrow> e \<in> set (rv_data rv))"

lemma content_Cons_first:
  assumes "rb_off b = lo" "j < length (rb_data b)"
  shows "content ((k, b) # m) (lo + j) = Some (rb_data b ! j)"
  using assms by (simp add: rb_at_def rb_end_def)

lemma read_post_stop:
  assumes "rv_chunks_ok rv" "rv_read_off rv \<le> rv_recv_off rv" "cap = 0 \<or> \<not> rv_ready rv"
  shows "read_post cap rv rv []"
  using assms by (auto simp: read_post_def same_meta_def)

lemma read_post_part:
  assumes wf: "rv_chunks_ok rv" and d: "rv_data rv = (k, b) # rest" and off: "rb_off b = rv_read_off rv"
    and cap: "0 < cap" "cap < length (rb_data b)" and b': "rb_advance cap b = Some b'"
  shows "read_post cap rv (rv\<lparr>rv_read_off := rv_read_off rv + cap, rv_data := (k, b') # rest\<rparr>) (take cap (rb_data b))"
    (is "read_post cap rv ?rv' ?bs")
proof -
  have kb: "(k, b) \<in> set (rv_data rv)" using d by simp
  have ok: "k = rb_end b" "rb_ok b" "rb_end b \<le> rv_recv_off rv" using chunks_wfD [OF wf kb] by simp_all
  obtain c where "rb_advance cap b = Some c" "rb_ok c" "rb_off c = rb_off b + cap" "rb_end c = rb_end b"
    "rb_fin c = rb_fin b" "rb_data c = drop cap (rb_data b)" "\<And>i. rb_off b + cap \<le> i \<Longrightarrow> rb_at c i = rb_at b i"
    by (rule rb_advance_spec [OF ok(2) less_imp_le [OF cap(2)]]) (rule that; assumption)
  then have c: "rb_ok b'" "rb_off b' = rv_read_off rv + cap" "rb_end b' = rb_end b"
    "\<And>i. rv_read_off rv + cap \<le> i \<Longrightarrow> rb_at b' i = rb_at b i" using b' off by simp_all
  have hi: "rv_read_off rv + cap < rb_end b" using cap off by (simp add: rb_end_def)
  have "chunks_wf (rb_end b) (rv_recv_off rv) rest" using chunks_wf_Cons [of _ _ "(k, b)" rest] wf d by simp
  then have "chunks_wf (rv_read_off rv + cap) (rv_recv_off rv) ((k, b') # rest)"
    using wf ok c hi unfolding d by (auto simp: chunks_wf_def)
  moreover have "rv_content rv (rv_read_off rv + j) = Some (?bs ! j)" if "j < length ?bs" for j
    using that cap off content_Cons_first [of b "rv_read_off rv" j k rest] by (simp add: d)
  moreover have "content ((k, b') # rest) i = rv_content rv i" if "rv_read_off rv + cap \<le> i" for i
    using c(4) [OF that] by (simp add: d)
  moreover have "\<not> rb_is_empty b'" using c hi by (simp add: rb_empty_iff)
  ultimately show ?thesis using cap hi ok(3) d by (simp add: read_post_def same_meta_def)
qed

lemma read_post_all:
  assumes wf: "rv_chunks_ok rv" and d: "rv_data rv = (k, b) # rest" and off: "rb_off b = rv_read_off rv"
    and cap: "length (rb_data b) \<le> cap"
    and post: "read_post (cap - length (rb_data b))
                 (rv\<lparr>rv_read_off := rv_read_off rv + length (rb_data b), rv_data := rest\<rparr>) rv' bs"
  shows "read_post cap rv rv' (rb_data b @ bs)"
proof -
  let ?n = "length (rb_data b)"
  have bend: "rb_end b = rv_read_off rv + ?n" using off by (simp add: rb_end_def)
  have rest: "content rest i = rv_content rv i" if "rv_read_off rv + ?n \<le> i" for i
    using that by (simp add: d rb_at_None bend)
  have "rv_content rv (rv_read_off rv + j) = Some ((rb_data b @ bs) ! j)" if "j < ?n + length bs" for j
  proof (cases "j < ?n")
    case True
    then show ?thesis using off content_Cons_first [of b "rv_read_off rv" j k rest] by (simp add: d nth_append)
  next
    case False
    then obtain l where l: "j = ?n + l" using le_Suc_ex by (metis not_less)
    then have "content rest (rv_read_off rv + ?n + l) = Some (bs ! l)"
      using that post by (simp add: read_post_def)
    with l rest [of "rv_read_off rv + j"] show ?thesis by (simp add: nth_append add.assoc)
  qed
  moreover have "rv_content rv' i = rv_content rv i" if "rv_read_off rv' \<le> i" for i
    using post that rest [of i] by (simp add: read_post_def)
  ultimately show ?thesis using post cap d
    unfolding read_post_def same_meta_def by auto
qed

lemma read_loop_spec:
  assumes "rv_chunks_ok rv" "rv_read_off rv \<le> rv_recv_off rv" "rv_recv_off rv < u64_mod"
  shows "\<exists>rv' bs. read_loop cap rv out = Some (rv', out @ bs) \<and> read_post cap rv rv' bs"
  using assms
proof (induction "rv_data rv" arbitrary: rv cap out)
  case Nil
  then have "\<not> rv_ready rv" by (simp add: rv_ready_def)
  with Nil.prems read_post_stop show ?case by (simp add: read_loop.simps [of cap])
next
  case (Cons e rest)
  obtain k b where e: "e = (k, b)" by (cases e)
  note d = Cons.hyps(2) [symmetric, unfolded e]
  show ?case
  proof (cases "cap > 0 \<and> rv_ready rv")
    case False
    with Cons.prems read_post_stop show ?thesis by (subst read_loop.simps) auto
  next
    case True
    then have off: "rb_off b = rv_read_off rv" by (auto simp: rv_ready_iff d)
    have kb: "(k, b) \<in> set (rv_data rv)" using d by simp
    have ok: "rb_ok b" "rb_end b \<le> rv_recv_off rv" using chunks_wfD [OF Cons.prems(1) kb] by simp_all
    have bend: "rb_end b = rv_read_off rv + length (rb_data b)" using off by (simp add: rb_end_def)
    have add: "n \<le> length (rb_data b) \<Longrightarrow> add64 (rv_read_off rv) n = rv_read_off rv + n" for n
      using bend ok(2) Cons.prems(3) by (intro add64_nowrap) simp
    show ?thesis
    proof (cases "cap < length (rb_data b)")
      case part: True
      obtain b' where b': "rb_advance cap b = Some b'"
        by (rule rb_advance_spec [OF ok(1) less_imp_le [OF part]])
      show ?thesis
        using read_post_part [OF Cons.prems(1) d off _ part b'] True part b' add [of cap]
        by (subst read_loop.simps) (simp add: d rb_len_def rb_consume_advance min_def)
    next
      case all: False
      let ?rv = "rv\<lparr>rv_read_off := rv_read_off rv + length (rb_data b), rv_data := rest\<rparr>"
      have "chunks_wf (rb_end b) (rv_recv_off rv) rest"
        using chunks_wf_Cons [of _ _ "(k, b)" rest] Cons.prems(1) d by simp
      then have "\<exists>rv' bs. read_loop (cap - length (rb_data b)) ?rv (out @ rb_data b) = Some (rv', (out @ rb_data b) @ bs)
          \<and> read_post (cap - length (rb_data b)) ?rv rv' bs"
        using Cons.prems(3) ok(2) bend by (intro Cons.hyps(1)) simp_all
      with read_post_all [OF Cons.prems(1) d off] True all add [of "length (rb_data b)"] show ?thesis
        by (subst read_loop.simps) (fastforce simp: d rb_len_def min_def)
    qed
  qed
qed

lemma rv_read_spec:
  assumes inv: "rv_inv rv" and rdy: "rv_ready rv" and err: "rv_error rv = None"
  shows "\<exists>rv' bs. rv_read cap rv = (rv', Inr (bs, rv_fin_off rv = Some (rv_read_off rv')))
           \<and> read_post cap rv (rv'\<lparr>rv_fc := rv_fc rv\<rparr>) bs \<and> rv_inv rv'
           \<and> rv_fc rv' = fc_increase_read_off (length bs) (rv_fc rv)"
proof -
  have "rv_chunks_ok rv" "rv_read_off rv \<le> rv_recv_off rv" "rv_recv_off rv < u64_mod"
    using inv by (simp_all add: rv_inv_def)
  from read_loop_spec [OF this, of cap "[]"] obtain rv1 bs
    where r: "read_loop cap rv [] = Some (rv1, bs)" "read_post cap rv rv1 bs" by auto
  let ?rv' = "rv1\<lparr>rv_fc := fc_increase_read_off (length bs) (rv_fc rv1)\<rparr>"
  have meta: "rv_recv_off rv1 = rv_recv_off rv" "rv_fin_off rv1 = rv_fin_off rv" "rv_shut rv1 = rv_shut rv"
    "rv_fc rv1 = rv_fc rv" "rv_read_off rv1 \<le> rv_recv_off rv"
    using r(2) by (simp_all add: read_post_def same_meta_def)
  have "rv_data rv \<noteq> []" using rdy by (auto simp: rv_ready_iff)
  then have "\<not> rv_shut rv" using inv by (auto simp: rv_inv_def)
  moreover have "rv_chunks_ok rv1" "\<forall>e \<in> set (rv_data rv1). rb_is_empty (snd e) \<longrightarrow> e \<in> set (rv_data rv)"
    using r(2) unfolding read_post_def by blast+
  ultimately have "rv_inv ?rv'"
    using inv meta by (auto simp: rv_inv_def rv_max_data_def fc_increase_read_off_def)
  moreover have "read_post cap rv (rv1\<lparr>rv_fc := rv_fc rv\<rparr>) bs" using r(2) meta(4) by (cases rv1) simp
  moreover have "rv_is_fin ?rv' \<longleftrightarrow> rv_fin_off rv = Some (rv_read_off ?rv')" by (simp add: rv_is_fin_def meta)
  moreover have "rv_read cap rv = (?rv', Inr (bs, rv_is_fin ?rv'))"
    using rdy err r(1) by (simp add: rv_read_def Let_def)
  ultimately show ?thesis
    using r(2) meta(4) by (intro exI [of _ ?rv'] exI [of _ bs]) simp
qed

end
