(* ===== verification/RecvStream.thy ===== *)
theory RecvStream
  imports Reassembly
begin

text \<open>
  The receive side of a stream as a machine: any sequence of writes, reads, resets, shutdowns
  and flow-control updates on the \<open>RecvBuf\<close> of \<open>src/connection/stream.rs\<close>.  Shows that no call
  panics, that the invariant is kept, and that what the application reads is the peer's stream.
\<close>

datatype rv_op =
    Write u64 "byte list" bool
  | Read usize
  | Reset u64 u64
  | Shutdown
  | MaxData instant
  | AutotuneWin instant duration

text \<open>
  The buffer together with what has been observed of it: the bytes handed to the application,
  the frames that were accepted, and whether some call panicked.
\<close>

record rv_run =
  rr_buf :: recv_buf
  rr_out :: "byte list"
  rr_frames :: "(u64 \<times> nat) list"
  rr_panic :: bool

definition rr_init :: "u64 \<Rightarrow> u64 \<Rightarrow> rv_run" where
  "rr_init max_data max_window =
     \<lparr>rr_buf = rv_new max_data max_window, rr_out = [], rr_frames = [], rr_panic = False\<rparr>"

fun is_panic :: "'a result \<Rightarrow> bool" where
  "is_panic (Inl Panic) = True"
| "is_panic _ = False"

fun rr_step :: "rv_run \<Rightarrow> rv_op \<Rightarrow> rv_run" where
  "rr_step r (Write off data fin) =
     (let (rv, res) = rv_write off data fin (rr_buf r)
      in r\<lparr>rr_buf := rv, rr_panic := rr_panic r \<or> is_panic res,
           rr_frames := (case res of Inr _ \<Rightarrow> (off, length data) # rr_frames r | Inl _ \<Rightarrow> rr_frames r)\<rparr>)"
| "rr_step r (Read cap) =
     (let (rv, res) = rv_read cap (rr_buf r)
      in r\<lparr>rr_buf := rv, rr_panic := rr_panic r \<or> is_panic res,
           rr_out := (case res of Inr (bs, _) \<Rightarrow> rr_out r @ bs | Inl _ \<Rightarrow> rr_out r)\<rparr>)"
| "rr_step r (Reset e fsize) =
     (let (rv, res) = rv_reset e fsize (rr_buf r)
      in r\<lparr>rr_buf := rv, rr_panic := rr_panic r \<or> is_panic res\<rparr>)"
| "rr_step r Shutdown =
     (let (rv, res) = rv_shutdown (rr_buf r)
      in r\<lparr>rr_buf := rv, rr_panic := rr_panic r \<or> is_panic res\<rparr>)"
| "rr_step r (MaxData now) = r\<lparr>rr_buf := rv_update_max_data now (rr_buf r)\<rparr>"
| "rr_step r (AutotuneWin now srtt) = r\<lparr>rr_buf := rv_autotune_window now srtt (rr_buf r)\<rparr>"

text \<open>
  The frames carry the bytes of one stream \<open>s\<close>, and offsets are variable-length integers,
  hence below \<open>2 ^ 62\<close>.
\<close>

fun rr_ok :: "(nat \<Rightarrow> byte) \<Rightarrow> rv_run \<Rightarrow> rv_op \<Rightarrow> bool" where
  "rr_ok s r (Write off data fin) \<longleftrightarrow> off + length data < 2 ^ 62 \<and> data = map s [off..<off + length data]"
| "rr_ok s r (Reset e fsize) \<longleftrightarrow> fsize < 2 ^ 62"
| "rr_ok s r _ \<longleftrightarrow> True"

definition rv_fc_ok :: "recv_buf \<Rightarrow> bool" where
  "rv_fc_ok rv \<longleftrightarrow> fc_read_off (rv_fc rv) \<le> rv_read_off rv
     \<and> fc_max_data (rv_fc rv) \<le> fc_read_off (rv_fc rv) + fc_window (rv_fc rv)
     \<and> fc_window (rv_fc rv) \<le> fc_max_window (rv_fc rv) \<and> fc_max_window (rv_fc rv) < 2 ^ 62
     \<and> rv_recv_off rv < 2 ^ 62"

definition agrees :: "(nat \<Rightarrow> byte) \<Rightarrow> (nat \<Rightarrow> byte option) \<Rightarrow> bool" where
  "agrees s c \<longleftrightarrow> (\<forall>i x. c i = Some x \<longrightarrow> x = s i)"

definition rr_inv :: "(nat \<Rightarrow> byte) \<Rightarrow> rv_run \<Rightarrow> bool" where
  "rr_inv s r \<longleftrightarrow> rv_inv (rr_buf r) \<and> rv_fc_ok (rr_buf r) \<and> agrees s (rv_content (rr_buf r))
     \<and> \<not> rr_panic r \<and> rr_out r = map s [0..<length (rr_out r)]
     \<and> (rv_error (rr_buf r) = None \<and> \<not> rv_shut (rr_buf r) \<longrightarrow> length (rr_out r) = rv_read_off (rr_buf r))"

subsection \<open>Each operation keeps the invariant\<close>

lemma below_62_u64: "(n::nat) < 2 ^ 62 \<Longrightarrow> n < u64_mod"
  by (simp add: u64_mod_62)

lemma agrees_fill:
  "agrees s c \<Longrightarrow> data = map s [off..<off + length data] \<Longrightarrow> agrees s (fill c (unread_at lo (frame_at off data)))"
proof -
  assume c: "agrees s c" and d: "data = map s [off..<off + length data]"
  have "data ! (i - off) = s i" if "off \<le> i" "i < off + length data" for i
    using that by (subst d) (simp add: nth_append)
  with c show ?thesis by (auto simp: agrees_def fill_def unread_at_def frame_at_def split: option.splits)
qed

lemma rv_fc_ok_cong:
  "rv_fc_ok rv \<Longrightarrow> rv_fc rv' = rv_fc rv \<Longrightarrow> rv_read_off rv \<le> rv_read_off rv' \<Longrightarrow> rv_recv_off rv' < 2 ^ 62 \<Longrightarrow> rv_fc_ok rv'"
  by (simp add: rv_fc_ok_def)

lemma rv_write_cases:
  assumes "rv_inv rv" "off + length data < u64_mod"
  obtains (flow) "rv_write off data fin rv = (rv, Inl (Err FlowControlError))" "off + length data > rv_max_data rv"
  | (final) "rv_write off data fin rv = (rv, Inl (Err FinalSizeError))" "off + length data \<le> rv_max_data rv"
      "final_size_conflict (off + length data) fin rv"
  | (ok) rv' where "rv_write off data fin rv = (rv', Inr ())" "write_post off data fin rv rv'"
      "off + length data \<le> rv_max_data rv" "\<not> final_size_conflict (off + length data) fin rv"
proof -
  consider "off + length data > rv_max_data rv"
    | "off + length data \<le> rv_max_data rv" "final_size_conflict (off + length data) fin rv"
    | "off + length data \<le> rv_max_data rv" "\<not> final_size_conflict (off + length data) fin rv" by linarith
  then show thesis
  proof cases
    case 1 then show thesis using flow rv_write_eq [OF assms(2), of fin rv] by simp
  next
    case 2 then show thesis using final rv_write_eq [OF assms(2), of fin rv] by simp
  next
    case 3 then show thesis using ok rv_write_ok [OF assms(1) 3] by blast
  qed
qed

lemma rr_write_inv:
  assumes inv: "rr_inv s r" and ok: "rr_ok s r (Write off data fin)"
  shows "rr_inv s (rr_step r (Write off data fin))"
proof -
  let ?rv = "rr_buf r"
  have rv: "rv_inv ?rv" "rv_fc_ok ?rv" "agrees s (rv_content ?rv)" using inv by (simp_all add: rr_inv_def)
  have len: "off + length data < u64_mod" using ok below_62_u64 by simp
  show ?thesis
  proof (rule rv_write_cases [OF rv(1) len, of fin], goal_cases flow final ok)
    case flow
    with inv show ?thesis by (simp add: rr_inv_def)
  next
    case final
    with inv show ?thesis by (simp add: rr_inv_def)
  next
    case (ok rv')
    have "rv_recv_off rv' < 2 ^ 62"
      using ok(2) rv(2) \<open>rr_ok s r (Write off data fin)\<close> by (simp add: write_post_def rv_fc_ok_def)
    moreover have "rv_fc rv' = rv_fc ?rv" "rv_read_off rv' = rv_read_off ?rv" using ok(2) by (simp_all add: write_post_def)
    ultimately have fc: "rv_fc_ok rv'" using rv_fc_ok_cong [OF rv(2), of rv'] by simp
    have ag: "agrees s (rv_content rv')"
      using ok(2) agrees_fill [OF rv(3)] rv(3) \<open>rr_ok s r (Write off data fin)\<close> by (simp add: write_post_def)
    show ?thesis using inv ok(1,2) fc ag by (simp add: rr_inv_def write_post_def)
  qed
qed

lemma rr_read_inv:
  assumes inv: "rr_inv s r"
  shows "rr_inv s (rr_step r (Read cap))"
proof -
  let ?rv = "rr_buf r"
  have rv: "rv_inv ?rv" "rv_fc_ok ?rv" "agrees s (rv_content ?rv)" using inv by (simp_all add: rr_inv_def)
  consider (wait) "\<not> rv_ready ?rv" | (err) e where "rv_ready ?rv" "rv_error ?rv = Some e"
    | (data) "rv_ready ?rv" "rv_error ?rv = None" by (cases "rv_error ?rv") auto
  then show ?thesis
  proof cases
    case wait
    with inv show ?thesis by (simp add: rv_read_def rr_inv_def)
  next
    case err
    with inv show ?thesis by (simp add: rv_read_def rr_inv_def rv_inv_def rv_fc_ok_def agrees_def rv_max_data_def)
  next
    case data
    from rv_read_spec [OF rv(1) data, of cap] obtain rv' bs where
      r: "rv_read cap ?rv = (rv', Inr (bs, rv_fin_off ?rv = Some (rv_read_off rv')))"
      "read_post cap ?rv (rv'\<lparr>rv_fc := rv_fc ?rv\<rparr>) bs" "rv_inv rv'"
      "rv_fc rv' = fc_increase_read_off (length bs) (rv_fc ?rv)" by blast
    have off: "rv_read_off rv' = rv_read_off ?rv + length bs" "rv_recv_off rv' = rv_recv_off ?rv"
      "rv_read_off rv' \<le> rv_recv_off ?rv" "rv_error rv' = rv_error ?rv" "rv_shut rv' = rv_shut ?rv"
      and ct: "\<And>j. j < length bs \<Longrightarrow> rv_content ?rv (rv_read_off ?rv + j) = Some (bs ! j)"
      and ct': "\<And>i. rv_read_off rv' \<le> i \<Longrightarrow> rv_content rv' i = rv_content ?rv i"
      using r(2) by (simp_all add: read_post_def same_meta_def)
    have "fc_read_off (rv_fc ?rv) + length bs < u64_mod"
      using off rv(2) by (simp add: rv_fc_ok_def u64_mod_62)
    then have "rv_fc_ok rv'" using off rv(2) by (simp add: rv_fc_ok_def r(4) fc_increase_read_off_def add64_nowrap)
    moreover have "agrees s (rv_content rv')"
    proof -
      have "rv_content rv' i = Some x \<Longrightarrow> rv_content ?rv i = Some x" for i x
        using content_bounds [of "rv_read_off rv'" _ "rv_data rv'" i x] r(3) ct' by (auto simp: rv_inv_def)
      with rv(3) show ?thesis by (auto simp: agrees_def)
    qed
    moreover have len: "rv_shut ?rv = False" "length (rr_out r) = rv_read_off ?rv"
      using inv data rv(1) by (auto simp: rr_inv_def rv_inv_def rv_ready_iff)
    moreover have "rr_out r @ bs = map s [0..<length (rr_out r @ bs)]"
    proof -
      have "bs ! j = s (length (rr_out r) + j)" if "j < length bs" for j
        using ct [OF that] rv(3) len(2) by (auto simp: agrees_def)
      then have "bs = map s [length (rr_out r)..<length (rr_out r) + length bs]"
        by (intro nth_equalityI) simp_all
      moreover have "rr_out r = map s [0..<length (rr_out r)]" using inv by (simp add: rr_inv_def)
      ultimately show ?thesis by (metis length_append map_append upt_add_eq_append zero_le)
    qed
    ultimately show ?thesis using inv r(1,3) off by (simp add: rr_inv_def)
  qed
qed

lemma rv_clear_inv: "rv_inv rv \<Longrightarrow> rv_inv (rv\<lparr>rv_error := e, rv_data := []\<rparr>)"
  by (simp add: rv_inv_def rv_max_data_def)

lemma rv_reset_cases:
  assumes inv: "rv_inv rv" and fsize: "fsize < u64_mod"
  obtains (bad) "rv_reset e fsize rv = (rv, Inl (Err FinalSizeError))"
      "(\<exists>f. rv_fin_off rv = Some f \<and> f \<noteq> fsize) \<or> fsize < rv_recv_off rv"
  | (again) "rv_reset e fsize rv = (rv, Inr (fsize - rv_recv_off rv))" "rv_error rv \<noteq> None"
      "\<not> ((\<exists>f. rv_fin_off rv = Some f \<and> f \<noteq> fsize) \<or> fsize < rv_recv_off rv)"
  | (flow) "rv_reset e fsize rv = (rv\<lparr>rv_error := Some e, rv_data := []\<rparr>, Inl (Err FlowControlError))"
      "fsize > rv_max_data rv" "\<not> ((\<exists>f. rv_fin_off rv = Some f \<and> f \<noteq> fsize) \<or> fsize < rv_recv_off rv)" "rv_error rv = None"
  | (ok) rv' where "rv_reset e fsize rv = (rv', Inr (fsize - rv_recv_off rv))" "rv_inv rv'" "rv_error rv' = Some e"
      "rv_recv_off rv' = fsize" "rv_read_off rv' = fsize" "rv_fin_off rv' = Some fsize"
      "rv_content rv' = (\<lambda>_. None)" "rv_shut rv' = rv_shut rv" "rv_fc rv' = rv_fc rv"
      "rv_recv_off rv \<le> fsize" "fsize \<le> rv_max_data rv"
      "\<not> ((\<exists>f. rv_fin_off rv = Some f \<and> f \<noteq> fsize) \<or> fsize < rv_recv_off rv)" "rv_error rv = None"
proof -
  let ?rv1 = "rv\<lparr>rv_error := Some e, rv_data := []\<rparr>"
  let ?bad = "(\<exists>f. rv_fin_off rv = Some f \<and> f \<noteq> fsize) \<or> fsize < rv_recv_off rv"
  have inv1: "rv_inv ?rv1" using inv by (rule rv_clear_inv)
  have case_bad: "(case rv_fin_off rv of Some f \<Rightarrow> f \<noteq> fsize | None \<Rightarrow> False) \<longleftrightarrow> (\<exists>f. rv_fin_off rv = Some f \<and> f \<noteq> fsize)"
    by (auto split: option.split)
  consider (bad') ?bad | (again') "\<not> ?bad" "rv_error rv \<noteq> None" | (new) "\<not> ?bad" "rv_error rv = None" by blast
  then show thesis
  proof cases
    case bad'
    then show thesis using bad by (auto simp: rv_reset_def case_bad)
  next
    case again'
    then show thesis using again by (simp add: rv_reset_def case_bad sub64_nowrap)
  next
    case new
    then have eq: "rv_reset e fsize rv = (case rv_write fsize [] True ?rv1 of
                   (rv2, Inl e) \<Rightarrow> (rv2, Inl e)
                 | (rv2, Inr _) \<Rightarrow> (rv2\<lparr>rv_read_off := fsize\<rparr>, Inr (fsize - rv_recv_off rv)))"
      by (auto simp: rv_reset_def case_bad Let_def sub64_nowrap)
    have len: "fsize + length ([] :: byte list) < u64_mod" using fsize by simp
    show thesis
    proof (rule rv_write_cases [OF inv1 len, of True], goal_cases flow final ok)
      case flow
      then show thesis using that(3) eq new by (simp add: rv_max_data_def)
    next
      case final
      then show thesis using new by (auto simp: final_size_conflict_def)
    next
      case (ok rv2)
      let ?rv' = "rv2\<lparr>rv_read_off := fsize\<rparr>"
      have p: "rv_inv rv2" "rv_recv_off rv2 = fsize" "rv_fin_off rv2 = Some fsize" "rv_error rv2 = Some e"
        "rv_content rv2 = (\<lambda>_. None)" "rv_shut rv2 = rv_shut rv" "rv_fc rv2 = rv_fc rv"
        "\<And>x. x \<in> set (rv_data rv2) \<Longrightarrow> rb_is_empty (snd x) \<Longrightarrow> rb_off (snd x) = fsize"
        using ok(2) new by (auto simp: write_post_def fill_def unread_at_def frame_at_def)
      have "rb_off (snd x) = fsize" if "x \<in> set (rv_data rv2)" for x
      proof -
        have "\<not> covers (snd x) (rb_off (snd x))"
          using p(5) that content_None_iff [of "rv_data rv2" "rb_off (snd x)"] by (auto simp: fun_eq_iff)
        then have "rb_is_empty (snd x)"
          using rb_end_bounds(1) [of "snd x"] by (auto simp: covers_def rb_empty_iff)
        with p(8) that show ?thesis by blast
      qed
      then have "rv_inv ?rv'" using p(1,2) by (auto simp: rv_inv_def rv_max_data_def chunks_wf_def)
      then show thesis using that(4) [of ?rv'] p ok new eq by (simp add: rv_max_data_def not_less)
    qed
  qed
qed

lemma agrees_none [simp]: "agrees s (\<lambda>_. None)"
  by (simp add: agrees_def)

lemma rr_reset_inv:
  assumes inv: "rr_inv s r" and ok: "rr_ok s r (Reset e fsize)"
  shows "rr_inv s (rr_step r (Reset e fsize))"
proof -
  let ?rv = "rr_buf r"
  have rv: "rv_inv ?rv" "rv_fc_ok ?rv" using inv by (simp_all add: rr_inv_def)
  have len: "fsize < u64_mod" using ok below_62_u64 by simp
  show ?thesis
  proof (rule rv_reset_cases [OF rv(1) len, of e], goal_cases bad again flow ok)
    case bad
    with inv show ?case by (simp add: rr_inv_def)
  next
    case again
    with inv show ?case by (auto simp: rr_inv_def)
  next
    case flow
    with inv rv_clear_inv [OF rv(1), of "Some e"] show ?case
      by (simp add: rr_inv_def rv_fc_ok_def agrees_def)
  next
    case (ok rv')
    have "rv_read_off ?rv \<le> rv_read_off rv'" using ok(5,10) rv(1) by (simp add: rv_inv_def)
    with ok have "rv_fc_ok rv'"
      using \<open>rr_ok s r (Reset e fsize)\<close> by (intro rv_fc_ok_cong [OF rv(2)]) simp_all
    with ok inv show ?case by (simp add: rr_inv_def)
  qed
qed

lemma rr_other_inv:
  assumes inv: "rr_inv s r"
  shows "rr_inv s (rr_step r Shutdown)" "rr_inv s (rr_step r (MaxData now))"
    "rr_inv s (rr_step r (AutotuneWin now srtt))"
proof -
  let ?rv = "rr_buf r"
  have rv: "rv_inv ?rv" "rv_fc_ok ?rv" using inv by (simp_all add: rr_inv_def)
  show "rr_inv s (rr_step r Shutdown)"
    using inv by (auto simp: rr_inv_def rv_shutdown_def rv_inv_def rv_fc_ok_def rv_max_data_def agrees_def Let_def)
  have "add64 (fc_read_off (rv_fc ?rv)) (fc_window (rv_fc ?rv)) = fc_read_off (rv_fc ?rv) + fc_window (rv_fc ?rv)"
    "fc_read_off (rv_fc ?rv) + fc_window (rv_fc ?rv) < u64_mod"
    using rv by (auto simp: rv_fc_ok_def rv_inv_def u64_mod_62 intro!: add64_nowrap)
  then show "rr_inv s (rr_step r (MaxData now))"
    using inv by (auto simp: rr_inv_def rv_update_max_data_def rv_inv_def rv_fc_ok_def rv_max_data_def fc_defs)
  have "mul64 (fc_window (rv_fc ?rv)) 2 = fc_window (rv_fc ?rv) * 2"
    using rv by (intro below_62) (simp add: rv_fc_ok_def)
  then show "rr_inv s (rr_step r (AutotuneWin now srtt))"
    using inv by (auto simp: rr_inv_def rv_autotune_window_def rv_inv_def rv_fc_ok_def rv_max_data_def fc_defs
        split: option.split)
qed

lemma rr_step_inv: "rr_inv s r \<Longrightarrow> rr_ok s r x \<Longrightarrow> rr_inv s (rr_step r x)"
  using rr_write_inv rr_read_inv rr_reset_inv rr_other_inv by (cases x) metis+

subsection \<open>Nothing accepted is lost\<close>

definition accepted :: "(u64 \<times> nat) list \<Rightarrow> nat \<Rightarrow> bool" where
  "accepted fs i \<longleftrightarrow> (\<exists>f \<in> set fs. fst f \<le> i \<and> i < fst f + snd f)"

definition rr_full :: "rv_run \<Rightarrow> bool" where
  "rr_full r \<longleftrightarrow> (rv_error (rr_buf r) = None \<and> \<not> rv_shut (rr_buf r) \<longrightarrow>
     (\<forall>i. accepted (rr_frames r) i \<longleftrightarrow> i < rv_read_off (rr_buf r) \<or> rv_content (rr_buf r) i \<noteq> None))"

lemma accepted_Cons: "accepted ((off, n) # fs) i \<longleftrightarrow> (off \<le> i \<and> i < off + n) \<or> accepted fs i"
  by (auto simp: accepted_def)

lemma rr_full_step:
  assumes inv: "rr_inv s r" and ok: "rr_ok s r x" and full: "rr_full r"
  shows "rr_full (rr_step r x)"
proof (cases x)
  case (Write off data fin)
  have len: "off + length data < u64_mod" using ok Write below_62_u64 by simp
  have rv: "rv_inv (rr_buf r)" using inv by (simp add: rr_inv_def)
  show ?thesis
  proof (rule rv_write_cases [OF rv len, of fin], goal_cases flow final ok)
    case (ok rv')
    have "i < rv_read_off rv' \<or> rv_content rv' i \<noteq> None \<longleftrightarrow>
        (off \<le> i \<and> i < off + length data) \<or> i < rv_read_off (rr_buf r) \<or> rv_content (rr_buf r) i \<noteq> None"
      if "\<not> rv_shut (rr_buf r)" for i
      using ok(2) that by (auto simp: write_post_def fill_def unread_at_def frame_at_def split: option.splits)
    with ok(1,2) full Write show ?case by (auto simp: rr_full_def write_post_def accepted_Cons)
  qed (use full Write in \<open>simp_all add: rr_full_def\<close>)
next
  case (Read cap)
  let ?rv = "rr_buf r"
  have rv: "rv_inv ?rv" using inv by (simp add: rr_inv_def)
  show ?thesis
  proof (cases "rv_ready ?rv \<and> rv_error ?rv = None")
    case True
    from rv_read_spec [OF rv conjunct1 [OF True] conjunct2 [OF True], of cap] obtain rv' bs where
      r: "rv_read cap ?rv = (rv', Inr (bs, rv_fin_off ?rv = Some (rv_read_off rv')))"
      "read_post cap ?rv (rv'\<lparr>rv_fc := rv_fc ?rv\<rparr>) bs" "rv_inv rv'" by blast
    have off: "rv_read_off rv' = rv_read_off ?rv + length bs" "rv_error rv' = rv_error ?rv" "rv_shut rv' = rv_shut ?rv"
      and ct: "\<And>j. j < length bs \<Longrightarrow> rv_content ?rv (rv_read_off ?rv + j) = Some (bs ! j)"
      and ct': "\<And>i. rv_read_off rv' \<le> i \<Longrightarrow> rv_content rv' i = rv_content ?rv i"
      using r(2) by (simp_all add: read_post_def same_meta_def)
    have "i < rv_read_off rv' \<or> rv_content rv' i \<noteq> None \<longleftrightarrow> i < rv_read_off ?rv \<or> rv_content ?rv i \<noteq> None" for i
    proof (cases "i < rv_read_off rv'")
      case True
      with ct [of "i - rv_read_off ?rv"] off(1) show ?thesis by (cases "i < rv_read_off ?rv") auto
    qed (use ct' off(1) in auto)
    with full r(1) off Read show ?thesis by (simp add: rr_full_def)
  qed (use full Read in \<open>auto simp: rr_full_def rv_read_def split: option.splits\<close>)
next
  case (Reset e fsize)
  have rv: "rv_inv (rr_buf r)" and len: "fsize < u64_mod"
    using inv ok Reset below_62_u64 by (simp_all add: rr_inv_def)
  show ?thesis
    by (rule rv_reset_cases [OF rv len, of e]) (use full Reset in \<open>auto simp: rr_full_def split: prod.splits\<close>)
qed (use full in \<open>auto simp: rr_full_def rv_shutdown_def rv_update_max_data_def rv_autotune_window_def Let_def\<close>)

interpretation rrm: inv_machine rr_step "rr_ok s" "\<lambda>r. rr_inv s r \<and> rr_full r"
  by unfold_locales (use rr_step_inv rr_full_step in blast)

lemma rr_init_inv:
  assumes "max_data \<le> max_window" "max_window < 2 ^ 62"
  shows "rr_inv s (rr_init max_data max_window) \<and> rr_full (rr_init max_data max_window)"
  using assms below_62_u64 [of max_data]
  by (simp add: rr_init_def rv_new_def fc_new_def rr_inv_def rr_full_def rv_inv_def rv_fc_ok_def
      rv_max_data_def accepted_def agrees_def)

subsection \<open>Properties\<close>

lemmas rv_eval = rr_init_def rv_new_def fc_new_def rv_write_def rb_new_def rb_max_off_def rb_len_def
  rv_max_data_def add64_def u64_mod_def Let_def rv_is_fin_def rb_is_empty_def skip_read_def
  place_buf_def bt_range_from_def store_buf_def sub64_def rb_advance_def rb_split_off_def
  rv_read_def rv_ready_def read_loop.simps rb_consume_def fc_increase_read_off_def

definition demo_stream :: "nat \<Rightarrow> byte" where
  "demo_stream i = word_of_nat (7 * i)"

text \<open>Frames out of order and overlapping, with reads between them.\<close>

definition demo_ops :: "rv_op list" where
  "demo_ops = [Write 2 (map demo_stream [2, 3, 4]) False, Read 10,
     Write 0 (map demo_stream [0, 1, 2, 3]) False, Write 4 (map demo_stream [4, 5]) True, Read 3, Read 10]"

text \<open>
  C1.  Reassembly is correct.  On a stream whose initial limit is within the maximum window, whatever the order, overlap and duplication of the frames, and
  however reads, resets, shutdowns and window updates are interleaved with them, no call on the
  receive buffer panics, and the bytes handed to the application are the bytes of the peer's
  stream from offset 0 on, in order.
\<close>

theorem recv_reassembly:
  assumes "max_data \<le> max_window" "max_window < 2 ^ 62"
    and "ok_run rr_step (rr_ok s) (rr_init max_data max_window) ops"
  shows "let r = foldl rr_step (rr_init max_data max_window) ops
         in \<not> rr_panic r \<and> rr_out r = map s [0..<length (rr_out r)]"
  using rrm.run_inv [OF rr_init_inv [OF assms(1,2)] assms(3)] by (simp add: rr_inv_def Let_def)

theorem recv_reassembly_witness:
  "let r = foldl rr_step (rr_init 100 100) demo_ops
   in \<not> rr_panic r \<and> rr_out r = map demo_stream [0..<6]"
proof -
  have "ok_run rr_step (rr_ok demo_stream) (rr_init 100 100) demo_ops"
    by (simp add: demo_ops_def demo_stream_def upt_rec rv_eval)
  moreover have "length (rr_out (foldl rr_step (rr_init 100 100) demo_ops)) = 6"
    by (simp add: demo_ops_def rv_eval)
  ultimately show ?thesis
    using recv_reassembly [of 100 100 demo_stream demo_ops] by (simp add: Let_def)
qed

lemma rv_ready_fc [simp]: "rv_ready (rv\<lparr>rv_fc := x\<rparr>) \<longleftrightarrow> rv_ready rv"
  by (simp add: rv_ready_iff)

lemma rr_read_more:
  assumes inv: "rr_inv s r" and full: "rr_full r"
    and live: "rv_error (rr_buf r) = None" "\<not> rv_shut (rr_buf r)"
    and acc: "\<forall>i < n. accepted (rr_frames r) i" and cap: "n \<le> length (rr_out r) + cap"
  shows "n \<le> length (rr_out (rr_step r (Read cap)))"
proof -
  let ?rv = "rr_buf r"
  have rv: "rv_inv ?rv" and len: "length (rr_out r) = rv_read_off ?rv"
    using inv live by (simp_all add: rr_inv_def)
  have got: "rv_content ?rv i \<noteq> None" if "rv_read_off ?rv \<le> i" "i < n" for i
    using full live acc that by (auto simp: rr_full_def)
  show ?thesis
  proof (cases "rv_ready ?rv")
    case True
    from rv_read_spec [OF rv True live(1), of cap] obtain rv' bs where
      r: "rv_read cap ?rv = (rv', Inr (bs, rv_fin_off ?rv = Some (rv_read_off rv')))"
      "read_post cap ?rv (rv'\<lparr>rv_fc := rv_fc ?rv\<rparr>) bs" "rv_inv rv'" by blast
    have off: "rv_read_off rv' = rv_read_off ?rv + length bs"
      and more: "length bs < cap \<Longrightarrow> \<not> rv_ready rv'"
      and ct': "\<And>i. rv_read_off rv' \<le> i \<Longrightarrow> rv_content rv' i = rv_content ?rv i"
      using r(2) by (simp_all add: read_post_def same_meta_def)
    have "n \<le> rv_read_off rv'"
    proof (rule ccontr)
      assume "\<not> n \<le> rv_read_off rv'"
      then have lt: "rv_read_off rv' < n" by simp
      then have "\<not> rv_ready rv'" using more off len cap by simp
      moreover have "rv_chunks_ok rv'" using r(3) by (simp add: rv_inv_def)
      ultimately have "rv_content rv' (rv_read_off rv') = None" by (rule not_ready_content [rotated])
      then show False using ct' [of "rv_read_off rv'"] got [OF _ lt] off by simp
    qed
    with r(1) off len show ?thesis by simp
  next
    case False
    have "rv_chunks_ok ?rv" using rv by (simp add: rv_inv_def)
    from not_ready_content [OF this False] have "n \<le> rv_read_off ?rv" using got by (meson le_refl not_less)
    with len False show ?thesis by (simp add: rv_read_def)
  qed
qed

text \<open>
  C3.  Nothing accepted is lost: as long as the receive side is neither reset nor shut down,
  once the accepted frames cover the first \<open>n\<close> bytes of the stream, one more read with room for
  them brings the output to at least these \<open>n\<close> bytes.
\<close>

theorem recv_complete:
  assumes "max_data \<le> max_window" "max_window < 2 ^ 62"
    and "ok_run rr_step (rr_ok s) (rr_init max_data max_window) ops"
    and "r = foldl rr_step (rr_init max_data max_window) ops"
    and "rv_error (rr_buf r) = None" "\<not> rv_shut (rr_buf r)"
    and "\<forall>i < n. accepted (rr_frames r) i" "n \<le> length (rr_out r) + cap"
  shows "take n (rr_out (rr_step r (Read cap))) = map s [0..<n]"
proof -
  have inv: "rr_inv s r" "rr_full r"
    using rrm.run_inv [OF rr_init_inv [OF assms(1,2)] assms(3)] assms(4) by simp_all
  have n: "n \<le> length (rr_out (rr_step r (Read cap)))" by (rule rr_read_more [OF inv assms(5-8)])
  have "rr_inv s (rr_step r (Read cap))" using rr_read_inv [OF inv(1)] .
  then have "rr_out (rr_step r (Read cap)) = map s [0..<length (rr_out (rr_step r (Read cap)))]"
    by (simp add: rr_inv_def)
  then show ?thesis using n by (metis take_map take_upt add_0)
qed

theorem recv_complete_witness:
  "take 4 (rr_out (rr_step (foldl rr_step (rr_init 100 100) (take 3 demo_ops)) (Read 10)))
     = map demo_stream [0..<4]"
proof -
  let ?r = "foldl rr_step (rr_init 100 100) (take 3 demo_ops)"
  have "ok_run rr_step (rr_ok demo_stream) (rr_init 100 100) (take 3 demo_ops)"
    by (simp add: demo_ops_def demo_stream_def upt_rec rv_eval)
  moreover have "rv_error (rr_buf ?r) = None" "\<not> rv_shut (rr_buf ?r)"
    by (simp_all add: demo_ops_def rv_eval)
  moreover have "\<forall>i < 4. accepted (rr_frames ?r) i"
    by (simp add: demo_ops_def accepted_def rv_eval)
  ultimately show ?thesis
    using recv_complete [of 100 100 demo_stream "take 3 demo_ops" ?r 4 10] by simp
qed

text \<open>
  C25.  A write is answered completely: beyond the advertised limit it is a flow-control error,
  against a known or implied final size it is a final-size error, and both leave the buffer as
  it was.  Otherwise it succeeds, keeps the invariant, extends the highest offset, records the
  final size, and stores exactly the bytes that were missing and not yet read; a byte that is
  already stored is never replaced.
\<close>

theorem rv_write_spec:
  assumes "rv_inv rv" "offset + length data < u64_mod" "rv_write offset data fin rv = (rv', res)"
  shows "if offset + length data > rv_max_data rv then res = Inl (Err FlowControlError) \<and> rv' = rv
    else if final_size_conflict (offset + length data) fin rv then res = Inl (Err FinalSizeError) \<and> rv' = rv
    else res = Inr () \<and> rv_inv rv' \<and> rv_read_off rv' = rv_read_off rv
      \<and> rv_recv_off rv' = (if data = [] \<and> \<not> fin then rv_recv_off rv else max (rv_recv_off rv) (offset + length data))
      \<and> rv_fin_off rv' = (if fin then Some (offset + length data) else rv_fin_off rv)
      \<and> (\<forall>i. rv_content rv' i =
            (if rv_content rv i = None \<and> \<not> rv_shut rv \<and> rv_read_off rv \<le> i \<and> offset \<le> i \<and> i < offset + length data
             then Some (data ! (i - offset)) else rv_content rv i))"
proof (rule rv_write_cases [OF assms(1,2), of fin], goal_cases flow final ok)
  case (ok rv2)
  have "rv_content rv2 i =
      (if rv_content rv i = None \<and> \<not> rv_shut rv \<and> rv_read_off rv \<le> i \<and> offset \<le> i \<and> i < offset + length data
       then Some (data ! (i - offset)) else rv_content rv i)" for i
    using ok(2) by (auto simp: write_post_def fill_def unread_at_def frame_at_def split: option.split)
  with ok assms(3) show ?case by (simp add: write_post_def)
qed (use assms(3) in simp_all)

theorem rv_write_spec_witness:
  "rv_write 2 [5, 6] True (rv_new 100 100) = (fst (rv_write 2 [5, 6] True (rv_new 100 100)), Inr ())
   \<and> rv_content (fst (rv_write 2 [5, 6] True (rv_new 100 100))) 3 = Some 6"
proof -
  have "rv_inv (rv_new 100 100)" by (simp add: rv_new_def fc_new_def rv_inv_def rv_max_data_def u64_mod_def)
  moreover have "\<not> final_size_conflict 4 True (rv_new 100 100)"
    by (simp add: rv_new_def final_size_conflict_def)
  ultimately show ?thesis
    using rv_write_spec [of "rv_new 100 100" 2 "[5, 6]" True "fst (rv_write 2 [5, 6] True (rv_new 100 100))"
        "snd (rv_write 2 [5, 6] True (rv_new 100 100))"]
    by (simp add: rv_new_def fc_new_def rv_max_data_def u64_mod_def prod_eq_iff)
qed

text \<open>
  C26.  A read of a readable, unreset buffer succeeds and returns the stored bytes from the read
  offset on: as many as there are without a gap, up to the capacity.  It advances the read
  offset by that much, keeps all other content, and reports the end of the stream exactly when
  the new read offset is the final size.
\<close>

theorem rv_read_delivers:
  assumes "rv_inv rv" "rv_ready rv" "rv_error rv = None"
  shows "\<exists>rv' bs. rv_read cap rv = (rv', Inr (bs, rv_fin_off rv = Some (rv_read_off rv'))) \<and> rv_inv rv'
    \<and> rv_read_off rv' = rv_read_off rv + length bs \<and> length bs \<le> cap
    \<and> (\<forall>j < length bs. rv_content rv (rv_read_off rv + j) = Some (bs ! j))
    \<and> (length bs < cap \<longrightarrow> rv_content rv (rv_read_off rv') = None)
    \<and> (\<forall>i \<ge> rv_read_off rv'. rv_content rv' i = rv_content rv i)"
proof -
  from rv_read_spec [OF assms, of cap] obtain rv' bs where
    r: "rv_read cap rv = (rv', Inr (bs, rv_fin_off rv = Some (rv_read_off rv')))"
    "read_post cap rv (rv'\<lparr>rv_fc := rv_fc rv\<rparr>) bs" "rv_inv rv'" by blast
  have p: "rv_read_off rv' = rv_read_off rv + length bs" "length bs \<le> cap"
    "\<forall>j < length bs. rv_content rv (rv_read_off rv + j) = Some (bs ! j)"
    "\<forall>i \<ge> rv_read_off rv'. rv_content rv' i = rv_content rv i" "length bs < cap \<Longrightarrow> \<not> rv_ready rv'"
    using r(2) by (simp_all add: read_post_def)
  have "rv_content rv (rv_read_off rv') = None" if "length bs < cap"
    using not_ready_content [of rv'] p(4,5) that r(3) by (simp add: rv_inv_def)
  with r p show ?thesis by blast
qed

theorem rv_read_delivers_witness:
  "\<exists>rv' bs. rv_read 1 (fst (rv_write 0 [5, 6] True (rv_new 100 100))) = (rv', Inr (bs, False))
     \<and> length bs \<le> 1 \<and> rv_read_off rv' = length bs"
proof -
  let ?rv = "fst (rv_write 0 [5, 6] True (rv_new 100 100))"
  have rv: "?rv = \<lparr>rv_data = [(2, rb_new [5, 6] 0 True)], rv_read_off = 0, rv_recv_off = 2, rv_fin_off = Some 2,
      rv_error = None, rv_shut = False, rv_fc = fc_new 100 100\<rparr>"
    by (simp add: rv_eval)
  have "rv_inv ?rv"
    unfolding rv
    by (simp add: rv_inv_def chunks_wf_def rb_ok_def rb_end_def rb_is_empty_def rv_max_data_def fc_new_def u64_mod_def)
  moreover have "rv_ready ?rv" "rv_error ?rv = None" unfolding rv by (simp_all add: rv_ready_def)
  ultimately obtain rv' bs where "rv_read 1 ?rv = (rv', Inr (bs, rv_fin_off ?rv = Some (rv_read_off rv')))"
    "rv_read_off rv' = rv_read_off ?rv + length bs" "length bs \<le> 1"
    using rv_read_delivers [of ?rv 1] by blast
  then show ?thesis unfolding rv by (intro exI [of _ rv'] exI [of _ bs]) simp
qed

text \<open>
  C27.  What a reset does on each of its branches.  It fails with a final-size error and changes
  nothing when the final size disagrees with a known one or lies below received data.  A repeated
  reset of a stream changes nothing and returns how far the final size is beyond the received data (which the
  connection counts).  The first one fails with a flow-control error beyond the limit, having
  noted the error code and dropped the stored data; within the limit it returns that difference, drops
  the stored data, and the stream is complete at the final size.  It never panics.
\<close>

theorem rv_reset_spec:
  assumes "rv_inv rv" "fsize < u64_mod" "rv_reset e fsize rv = (rv', res)"
  shows "if (\<exists>f. rv_fin_off rv = Some f \<and> f \<noteq> fsize) \<or> fsize < rv_recv_off rv
      then res = Inl (Err FinalSizeError) \<and> rv' = rv
    else if rv_error rv \<noteq> None then res = Inr (fsize - rv_recv_off rv) \<and> rv' = rv
    else if fsize > rv_max_data rv
      then res = Inl (Err FlowControlError) \<and> rv' = rv\<lparr>rv_error := Some e, rv_data := []\<rparr>
    else res = Inr (fsize - rv_recv_off rv) \<and> rv_inv rv' \<and> rv_error rv' = Some e \<and> rv_is_complete rv'
      \<and> rv_recv_off rv' = fsize \<and> rv_read_off rv' = fsize \<and> rv_content rv' = (\<lambda>_. None)"
  by (rule rv_reset_cases [OF assms(1,2), of e]) (use assms(3) in \<open>auto simp: rv_is_complete_def\<close>)

theorem rv_reset_spec_witness:
  "rv_is_complete (fst (rv_reset 7 10 (rv_new 100 100))) \<and> snd (rv_reset 7 10 (rv_new 100 100)) = Inr 10"
proof -
  have "rv_inv (rv_new 100 100)" by (simp add: rv_new_def fc_new_def rv_inv_def rv_max_data_def u64_mod_def)
  then show ?thesis
    using rv_reset_spec [of "rv_new 100 100" 10 7 "fst (rv_reset 7 10 (rv_new 100 100))"
        "snd (rv_reset 7 10 (rv_new 100 100))"]
    by (simp add: rv_new_def fc_new_def rv_max_data_def u64_mod_def)
qed

subsection \<open>After a shutdown\<close>

definition not_reset :: "rv_op \<Rightarrow> bool" where
  "not_reset x \<longleftrightarrow> (case x of Reset _ _ \<Rightarrow> False | _ \<Rightarrow> True)"

definition stuck :: "u64 \<Rightarrow> recv_buf \<Rightarrow> bool" where
  "stuck f rv \<longleftrightarrow> rv_shut rv \<and> rv_fin_off rv = Some f \<and> rv_read_off rv < f"

lemma stuck_step:
  assumes inv: "rr_inv s r" and ok: "rr_ok s r x" "not_reset x" and st: "stuck f (rr_buf r)"
  shows "stuck f (rr_buf (rr_step r x))"
proof (cases x)
  case (Write off data fin)
  have len: "off + length data < u64_mod" using ok Write below_62_u64 by simp
  have rv: "rv_inv (rr_buf r)" using inv by (simp add: rr_inv_def)
  show ?thesis
  proof (rule rv_write_cases [OF rv len, of fin], goal_cases flow final ok)
    case (ok rv')
    then show ?case using st Write by (auto simp: stuck_def write_post_def final_size_conflict_def)
  qed (use st Write in simp_all)
next
  case (Read cap)
  have "\<not> rv_ready (rr_buf r)" using inv st by (auto simp: rr_inv_def rv_inv_def stuck_def rv_ready_iff)
  with Read st show ?thesis by (simp add: rv_read_def)
qed (use ok st in \<open>auto simp: not_reset_def stuck_def rv_shutdown_def rv_update_max_data_def rv_autotune_window_def\<close>)

interpretation rrs: inv_machine rr_step "\<lambda>r x. rr_ok s r x \<and> not_reset x" "\<lambda>r. rr_inv s r \<and> stuck f (rr_buf r)"
  by unfold_locales (use rr_step_inv stuck_step in blast)

text \<open>
  After the application has shut down the receive side, a stream that ends beyond what had
  been received by then never becomes complete: no sequence of further frames, reads or window
  updates makes the receive buffer report completion, although the peer has sent everything.
  Only a reset by the peer completes it.
\<close>

theorem recv_shutdown_never_complete:
  assumes "rr_inv s r" "rv_shut (rr_buf r)" "rv_fin_off (rr_buf r) = Some f" "rv_read_off (rr_buf r) < f"
    and "ok_run rr_step (\<lambda>r x. rr_ok s r x \<and> not_reset x) r ops"
  shows "\<not> rv_is_complete (rr_buf (foldl rr_step r ops))"
  using rrs.run_inv [of s r f ops] assms by (auto simp: stuck_def rv_is_complete_def)

theorem recv_shutdown_never_complete_witness:
  "\<not> rv_is_complete (rr_buf (foldl rr_step
       (foldl rr_step (rr_init 100 100) [Shutdown, Write 0 (map demo_stream [0, 1]) True]) [Read 10]))"
proof -
  let ?r = "foldl rr_step (rr_init 100 100) [Shutdown, Write 0 (map demo_stream [0, 1]) True]"
  have "ok_run rr_step (rr_ok demo_stream) (rr_init 100 100) [Shutdown, Write 0 (map demo_stream [0, 1]) True]"
    by (simp add: upt_rec rv_eval rv_shutdown_def)
  moreover have "rr_inv demo_stream (rr_init 100 100) \<and> rr_full (rr_init 100 100)"
    by (rule rr_init_inv) simp_all
  ultimately have "rr_inv demo_stream ?r" using rrm.run_inv by blast
  moreover have "rv_shut (rr_buf ?r)" "rv_fin_off (rr_buf ?r) = Some 2" "rv_read_off (rr_buf ?r) < 2"
    by (simp_all add: rv_eval rv_shutdown_def)
  ultimately show ?thesis
    using recv_shutdown_never_complete [of demo_stream ?r 2 "[Read 10]"] by (simp add: not_reset_def)
qed

end
