(* ===== verification/Ranges.thy ===== *)
theory Ranges
  imports Btree
begin

text \<open>
  \<open>src/ranges.rs\<close>: a set of \<open>u64\<close> values kept as a \<open>BTreeMap\<close> from the start of each maximal
  range to its end (exclusive), with a bound on the number of ranges.
  The invariant \<open>rs_wf\<close> says that the ranges are non-empty and separated by gaps;
  \<open>rs_elems\<close> is the set of numbers a range set stands for, and each operation is shown to
  compute the corresponding set operation.
\<close>

type_synonym range = "u64 \<times> u64"

record range_set =
  rs_set :: "(u64, u64) btree"
  rs_capacity :: usize

definition rs_new :: "usize \<Rightarrow> range_set" where
  "rs_new capacity = \<lparr>rs_set = [], rs_capacity = capacity\<rparr>"

definition rs_default :: range_set where
  "rs_default = rs_new u64_max"

fun range_is_empty :: "range \<Rightarrow> bool" where
  "range_is_empty (start, stop) \<longleftrightarrow> \<not> start < stop"

fun range_contains :: "range \<Rightarrow> u64 \<Rightarrow> bool" where
  "range_contains (start, stop) x \<longleftrightarrow> start \<le> x \<and> x < stop"

subsection \<open>Queries\<close>

definition prev_to :: "(u64, u64) btree \<Rightarrow> u64 \<Rightarrow> range option" where
  "prev_to m elem = last_entry (bt_range_upto elem m)"

definition next_to :: "(u64, u64) btree \<Rightarrow> u64 \<Rightarrow> range option" where
  "next_to m elem = first_entry (bt_range_from elem m)"

definition next_after :: "(u64, u64) btree \<Rightarrow> u64 \<Rightarrow> range option" where
  "next_after m elem = first_entry (bt_range_after elem m)"

definition rs_is_empty :: "range_set \<Rightarrow> bool" where
  "rs_is_empty rs \<longleftrightarrow> rs_set rs = []"

definition rs_len :: "range_set \<Rightarrow> usize" where
  "rs_len rs = length (rs_set rs)"

definition rs_min :: "range_set \<Rightarrow> u64 option" where
  "rs_min rs = map_option fst (first_entry (rs_set rs))"

definition rs_max :: "range_set \<Rightarrow> u64 option" where
  "rs_max rs = map_option (\<lambda>r. sub64 (snd r) 1) (last_entry (rs_set rs))"

definition rs_contains :: "range_set \<Rightarrow> u64 \<Rightarrow> bool" where
  "rs_contains rs elem =
     (case prev_to (rs_set rs) elem of
        Some r \<Rightarrow>
          if range_contains r elem then True
          else (case next_to (rs_set rs) elem of
                  Some r' \<Rightarrow> if range_contains r' elem then True else False
                | None \<Rightarrow> False)
      | None \<Rightarrow>
          (case next_to (rs_set rs) elem of
             Some r' \<Rightarrow> if range_contains r' elem then True else False
           | None \<Rightarrow> False))"

definition rs_peek_min :: "range_set \<Rightarrow> range option" where
  "rs_peek_min rs = first_entry (rs_set rs)"

definition rs_eq_range :: "range_set \<Rightarrow> range \<Rightarrow> bool" where
  "rs_eq_range rs other \<longleftrightarrow> rs_len rs = 1 \<and> rs_peek_min rs = Some other"

fun rs_filter :: "range_set \<Rightarrow> range \<Rightarrow> range option" where
  "rs_filter rs (start, stop) =
     (if rs_is_empty rs then Some (start, stop)
      else
        let new_end = (case next_after (rs_set rs) start of
                         Some r \<Rightarrow> if fst r < stop then fst r else stop
                       | None \<Rightarrow> stop)
        in (case prev_to (rs_set rs) start of
              Some r \<Rightarrow>
                if snd r \<ge> stop then None
                else if snd r > start then Some (snd r, new_end)
                else Some (start, new_end)
            | None \<Rightarrow> Some (start, new_end)))"

subsection \<open>Updates\<close>

function merge_following :: "(u64, u64) btree \<Rightarrow> u64 \<Rightarrow> u64 \<Rightarrow> (u64, u64) btree \<times> u64" where
  "merge_following m start stop =
     (case next_to m start of
        None \<Rightarrow> (m, stop)
      | Some r \<Rightarrow>
          if fst r > stop then (m, stop)
          else merge_following (bt_remove (fst r) m) start (max (snd r) stop))"
  by pat_completeness auto
termination
proof (relation "measure (\<lambda>(m, start, stop). length m)")
  fix m :: "(u64, u64) btree" and start stop r
  assume "next_to m start = Some r"
  then have "r \<in> set m"
    by (auto simp: next_to_def dest: first_entry_mem)
  then show "((bt_remove (fst r) m, start, max (snd r) stop), m, start, stop)
      \<in> measure (\<lambda>(m, start, stop). length m)"
    by (auto intro: length_bt_remove_less)
qed simp

declare merge_following.simps [simp del]

definition insert_merged :: "range_set \<Rightarrow> (u64, u64) btree \<Rightarrow> u64 \<Rightarrow> u64 \<Rightarrow> range_set" where
  "insert_merged rs m start stop =
     (let (m1, end1) = merge_following m start stop;
          m2 = (if length m1 \<ge> rs_capacity rs then tl m1 else m1)
      in rs\<lparr>rs_set := bt_insert start end1 m2\<rparr>)"

fun rs_insert :: "range_set \<Rightarrow> range \<Rightarrow> range_set" where
  "rs_insert rs (start, stop) =
     (if range_is_empty (start, stop) then rs
      else case prev_to (rs_set rs) start of
             Some r \<Rightarrow>
               if snd r \<ge> stop then rs
               else if snd r \<ge> start then insert_merged rs (bt_remove (fst r) (rs_set rs)) (fst r) stop
               else insert_merged rs (rs_set rs) start stop
           | None \<Rightarrow> insert_merged rs (rs_set rs) start stop)"

definition rs_add_elem :: "range_set \<Rightarrow> u64 \<Rightarrow> range_set" where
  "rs_add_elem rs elem = rs_insert rs (elem, add64 elem 1)"

function remove_following :: "(u64, u64) btree \<Rightarrow> u64 \<Rightarrow> u64 \<Rightarrow> (u64, u64) btree" where
  "remove_following m start stop =
     (case next_to m start of
        None \<Rightarrow> m
      | Some r \<Rightarrow>
          if fst r > stop then m
          else if snd r > stop then bt_insert stop (snd r) (bt_remove (fst r) m)
          else remove_following (bt_remove (fst r) m) start stop)"
  by pat_completeness auto
termination
proof (relation "measure (\<lambda>(m, start, stop). length m)")
  fix m :: "(u64, u64) btree" and start stop r
  assume "next_to m start = Some r"
  then have "r \<in> set m"
    by (auto simp: next_to_def dest: first_entry_mem)
  then show "((bt_remove (fst r) m, start, stop), m, start, stop)
      \<in> measure (\<lambda>(m, start, stop). length m)"
    by (auto intro: length_bt_remove_less)
qed simp

declare remove_following.simps [simp del]

definition remove_prev :: "(u64, u64) btree \<Rightarrow> range \<Rightarrow> u64 \<Rightarrow> u64 \<Rightarrow> (u64, u64) btree" where
  "remove_prev m r start stop =
     (let m1 = bt_remove (fst r) m;
          m2 = (if fst r < start then bt_insert (fst r) start m1 else m1)
      in if snd r > stop then bt_insert stop (snd r) m2 else m2)"

fun rs_remove :: "range_set \<Rightarrow> range \<Rightarrow> range_set" where
  "rs_remove rs (start, stop) =
     (if rs_is_empty rs \<or> range_is_empty (start, stop) then rs
      else case prev_to (rs_set rs) start of
             Some r \<Rightarrow>
               if snd r > start then
                 (let m = remove_prev (rs_set rs) r start stop
                  in if snd r \<ge> stop then rs\<lparr>rs_set := m\<rparr>
                     else rs\<lparr>rs_set := remove_following m start stop\<rparr>)
               else rs\<lparr>rs_set := remove_following (rs_set rs) start stop\<rparr>
           | None \<Rightarrow> rs\<lparr>rs_set := remove_following (rs_set rs) start stop\<rparr>)"

definition rs_remove_elem :: "range_set \<Rightarrow> u64 \<Rightarrow> range_set" where
  "rs_remove_elem rs elem = rs_remove rs (elem, add64 elem 1)"

fun remove_until_step :: "u64 \<Rightarrow> range \<Rightarrow> range_set \<Rightarrow> range_set" where
  "remove_until_step elem (s, e) rs =
     (let rs1 = rs\<lparr>rs_set := bt_remove s (rs_set rs)\<rparr>
      in if e > add64 elem 1 then rs_insert rs1 (add64 elem 1, e) else rs1)"

definition rs_remove_until :: "range_set \<Rightarrow> u64 \<Rightarrow> range_set" where
  "rs_remove_until rs elem = fold (remove_until_step elem) (bt_range_upto elem (rs_set rs)) rs"

definition rs_clear :: "range_set \<Rightarrow> range_set" where
  "rs_clear rs = rs\<lparr>rs_set := []\<rparr>"

definition rs_pop_min :: "range_set \<Rightarrow> range option \<times> range_set" where
  "rs_pop_min rs =
     (case rs_peek_min rs of
        None \<Rightarrow> (None, rs)
      | Some r \<Rightarrow> (Some r, rs\<lparr>rs_set := bt_remove (fst r) (rs_set rs)\<rparr>))"

subsection \<open>The flattening iterator\<close>

record flatten =
  fl_set :: "(u64, u64) btree"
  fl_next :: u64
  fl_end :: u64

definition rs_flatten :: "range_set \<Rightarrow> flatten" where
  "rs_flatten rs = \<lparr>fl_set = rs_set rs, fl_next = 0, fl_end = 0\<rparr>"

definition flatten_emit :: "flatten \<Rightarrow> (u64 \<times> flatten)" where
  "flatten_emit it = (fl_next it, it\<lparr>fl_next := add64 (fl_next it) 1\<rparr>)"

definition flatten_next :: "flatten \<Rightarrow> (u64 \<times> flatten) option" where
  "flatten_next it =
     (if fl_next it = fl_end it then
        (case fl_set it of
           [] \<Rightarrow> None
         | r # rest \<Rightarrow>
             Some (flatten_emit (it\<lparr>fl_set := rest, fl_next := fst r, fl_end := snd r\<rparr>)))
      else Some (flatten_emit it))"

definition flatten_emit_back :: "flatten \<Rightarrow> (u64 \<times> flatten)" where
  "flatten_emit_back it =
     (let e = sub64 (fl_end it) 1 in (e, it\<lparr>fl_end := e\<rparr>))"

definition flatten_next_back :: "flatten \<Rightarrow> (u64 \<times> flatten) option" where
  "flatten_next_back it =
     (if fl_next it = fl_end it then
        (case last_entry (fl_set it) of
           None \<Rightarrow> None
         | Some r \<Rightarrow>
             Some (flatten_emit_back
               (it\<lparr>fl_set := butlast (fl_set it), fl_next := fst r, fl_end := snd r\<rparr>)))
      else Some (flatten_emit_back it))"

subsection \<open>Invariant and abstraction\<close>

definition rs_wf :: "(u64, u64) btree \<Rightarrow> bool" where
  "rs_wf m \<longleftrightarrow> bt_sorted m
     \<and> (\<forall>r \<in> set m. fst r < snd r \<and> snd r < u64_mod)
     \<and> (\<forall>a \<in> set m. \<forall>b \<in> set m. fst a < fst b \<longrightarrow> snd a < fst b)"

definition rs_elems :: "(u64, u64) btree \<Rightarrow> nat set" where
  "rs_elems m = (\<Union>r \<in> set m. {fst r ..< snd r})"

lemma prev_to_SomeD:
  assumes "bt_sorted m" "prev_to m x = Some r"
  shows "r \<in> set m" "fst r \<le> x" "\<forall>a \<in> set m. fst a \<le> x \<longrightarrow> fst a \<le> fst r"
proof -
  from assms(2) obtain ys where ys: "bt_range_upto x m = ys @ [r]"
    by (auto simp: prev_to_def dest: last_entry_SomeD)
  have mem: "set (bt_range_upto x m) = {a \<in> set m. fst a \<le> x}"
    by (auto simp: bt_range_upto_def)
  with ys show "r \<in> set m" "fst r \<le> x" by auto
  have "bt_sorted (ys @ [r])"
    using assms(1) ys by (metis bt_range_upto_def bt_sorted_filter)
  then have "\<forall>a \<in> set (bt_range_upto x m). fst a \<le> fst r"
    unfolding ys by (auto simp: bt_sorted_append intro: less_imp_le)
  with mem show "\<forall>a \<in> set m. fst a \<le> x \<longrightarrow> fst a \<le> fst r" by blast
qed

lemma prev_to_NoneD: "prev_to m x = None \<Longrightarrow> \<forall>a \<in> set m. x < fst a"
  by (auto simp: prev_to_def bt_range_upto_def filter_empty_conv not_le)

lemma first_entry_filterD:
  assumes "bt_sorted m" "first_entry (filter (\<lambda>e. P (fst e)) m) = Some r"
  shows "r \<in> set m" "P (fst r)" "\<forall>a \<in> set m. P (fst a) \<longrightarrow> fst r \<le> fst a"
proof -
  from assms(2) obtain ys where ys: "filter (\<lambda>e. P (fst e)) m = r # ys"
    by (auto dest: first_entry_SomeD)
  have mem: "set (filter (\<lambda>e. P (fst e)) m) = {a \<in> set m. P (fst a)}" by auto
  with ys show "r \<in> set m" "P (fst r)" by auto
  have "bt_sorted (r # ys)"
    using assms(1) ys by (metis bt_sorted_filter)
  then have "\<forall>a \<in> set (filter (\<lambda>e. P (fst e)) m). fst r \<le> fst a"
    unfolding ys by (auto intro: less_imp_le)
  with mem show "\<forall>a \<in> set m. P (fst a) \<longrightarrow> fst r \<le> fst a" by blast
qed

lemma next_to_SomeD:
  assumes "bt_sorted m" "next_to m x = Some r"
  shows "r \<in> set m" "x \<le> fst r" "\<forall>a \<in> set m. x \<le> fst a \<longrightarrow> fst r \<le> fst a"
  using first_entry_filterD [of m "\<lambda>k. x \<le> k" r] assms
  by (simp_all add: next_to_def bt_range_from_def)

lemma next_after_SomeD:
  assumes "bt_sorted m" "next_after m x = Some r"
  shows "r \<in> set m" "x < fst r" "\<forall>a \<in> set m. x < fst a \<longrightarrow> fst r \<le> fst a"
  using first_entry_filterD [of m "\<lambda>k. x < k" r] assms
  by (simp_all add: next_after_def bt_range_after_def)

lemma next_to_NoneD: "next_to m x = None \<Longrightarrow> \<forall>a \<in> set m. fst a < x"
  by (auto simp: next_to_def bt_range_from_def filter_empty_conv not_le)

lemma next_after_NoneD: "next_after m x = None \<Longrightarrow> \<forall>a \<in> set m. fst a \<le> x"
  by (auto simp: next_after_def bt_range_after_def filter_empty_conv not_less)

lemma rs_wf_Nil [simp]: "rs_wf []"
  by (simp add: rs_wf_def)

lemma rs_elems_Nil [simp]: "rs_elems [] = {}"
  by (simp add: rs_elems_def)

lemma rs_wfD:
  assumes "rs_wf m"
  shows "bt_sorted m"
    and "r \<in> set m \<Longrightarrow> fst r < snd r"
    and "r \<in> set m \<Longrightarrow> snd r < u64_mod"
    and "a \<in> set m \<Longrightarrow> b \<in> set m \<Longrightarrow> fst a < fst b \<Longrightarrow> snd a < fst b"
  using assms by (auto simp: rs_wf_def)

lemma bt_sorted_key_unique:
  "bt_sorted m \<Longrightarrow> a \<in> set m \<Longrightarrow> b \<in> set m \<Longrightarrow> fst a = fst b \<Longrightarrow> a = b"
  by (induction m) fastforce+

lemma rs_wf_apart:
  "rs_wf m \<Longrightarrow> a \<in> set m \<Longrightarrow> r \<in> set m \<Longrightarrow> fst a \<noteq> fst r \<Longrightarrow> snd a < fst r \<or> snd r < fst a"
  by (meson linorder_neqE rs_wfD(4))

lemma rs_wf_subset:
  assumes "rs_wf m" "bt_sorted m'" "set m' \<subseteq> set m"
  shows "rs_wf m'"
  using assms by (auto simp: rs_wf_def)

lemma rs_wf_remove: "rs_wf m \<Longrightarrow> rs_wf (bt_remove k m)"
  by (rule rs_wf_subset) (auto simp: bt_sorted_remove dest: rs_wfD(1))

text \<open>Adding a range that keeps its distance from the others.\<close>

lemma rs_wf_insert:
  assumes "rs_wf m" "s < e" "e < u64_mod"
    and "\<forall>a \<in> set m. (fst a < s \<and> snd a < s) \<or> e < fst a"
  shows "rs_wf (bt_insert s e m)"
    and "rs_elems (bt_insert s e m) = rs_elems m \<union> {s..<e}"
proof -
  have neq: "{a \<in> set m. fst a \<noteq> s} = set m"
    using assms(2,4) by fastforce
  have set_eq: "set (bt_insert s e m) = insert (s, e) (set m)"
    using rs_wfD(1) [OF assms(1)] neq by (simp add: set_bt_insert)
  show "rs_wf (bt_insert s e m)"
    unfolding rs_wf_def set_eq
    using assms bt_sorted_insert [OF rs_wfD(1) [OF assms(1)]]
    by (fastforce simp: rs_wf_def)
  show "rs_elems (bt_insert s e m) = rs_elems m \<union> {s..<e}"
    by (auto simp: rs_elems_def set_eq)
qed

lemma rs_elems_remove:
  assumes "rs_wf m" "r \<in> set m"
  shows "rs_elems m = rs_elems (bt_remove (fst r) m) \<union> {fst r..<snd r}"
proof -
  have "x = r" if "x \<in> set m" "fst x = fst r" for x
    using that assms(2) bt_sorted_key_unique [OF rs_wfD(1) [OF assms(1)]] by blast
  then have "set m = insert r (set (bt_remove (fst r) m))"
    using assms(2) unfolding set_bt_remove by blast
  then show ?thesis by (auto simp: rs_elems_def)
qed

text \<open>
  The loop of \<open>insert\<close> over the following ranges: it removes exactly the ranges that start
  in \<open>[start, end']\<close> and extends the new range over them.
\<close>

lemma merge_following_spec:
  assumes "rs_wf m" "start < stop" "stop < u64_mod"
    and "merge_following m start stop = (m', stop')"
  shows "set m' = {a \<in> set m. fst a < start \<or> stop' < fst a} \<and> rs_wf m' \<and> stop \<le> stop'
      \<and> stop' < u64_mod \<and> rs_elems m' \<union> {start..<stop'} = rs_elems m \<union> {start..<stop}"
  using assms
proof (induction m start stop arbitrary: m' stop' rule: merge_following.induct)
  case (1 m start stop)
  show ?case
  proof (cases "next_to m start")
    case None
    then have "m' = m" "stop' = stop"
      using "1.prems"(4) by (simp_all add: merge_following.simps [of m])
    with next_to_NoneD [OF None] "1.prems"(1-3) show ?thesis by auto
  next
    case (Some r)
    note r = next_to_SomeD [OF rs_wfD(1) [OF "1.prems"(1)] Some]
    show ?thesis
    proof (cases "fst r > stop")
      case True
      then have "m' = m" "stop' = stop"
        using "1.prems"(4) Some by (simp_all add: merge_following.simps [of m])
      with r True "1.prems"(1-3) show ?thesis by force
    next
      case False
      let ?m = "bt_remove (fst r) m" and ?e = "max (snd r) stop"
      have call: "merge_following ?m start ?e = (m', stop')"
        using "1.prems"(4) Some False by (simp add: merge_following.simps [of m])
      have wf: "rs_wf ?m" and lt: "start < ?e" and bd: "?e < u64_mod"
        using "1.prems"(1-3) r(1) by (auto simp: rs_wf_remove dest: rs_wfD(3))
      note IH = "1.IH" [OF Some False wf lt bd call]
      have "{fst r..<snd r} \<union> {start..<stop} = {start..<?e}"
        using r(2) False "1.prems"(2) by auto
      then have elems: "rs_elems m \<union> {start..<stop} = rs_elems ?m \<union> {start..<?e}"
        using rs_elems_remove [OF "1.prems"(1) r(1)] by blast
      have "{a \<in> set ?m. fst a < start \<or> stop' < fst a}
          = {a \<in> set m. fst a < start \<or> stop' < fst a}"
        using IH r(2) rs_wfD(2) [OF "1.prems"(1) r(1)] by auto
      with IH elems show ?thesis by simp
    qed
  qed
qed

text \<open>
  Inserting below the capacity yields the union; at the capacity the lowest remaining range
  is dropped first.
\<close>

lemma insert_merged_spec:
  fixes rs :: range_set
  assumes wf: "rs_wf m" and lt: "start < stop" and bd: "stop < u64_mod"
    and before: "\<forall>a \<in> set m. fst a < start \<longrightarrow> snd a < start"
    and mf: "merge_following m start stop = (m1, stop1)"
  defines "m2 \<equiv> (if length m1 \<ge> rs_capacity rs then tl m1 else m1)"
  shows "rs_wf (rs_set (insert_merged rs m start stop))"
    and "rs_elems (rs_set (insert_merged rs m start stop)) = rs_elems m2 \<union> {start..<stop1}"
proof -
  note spec = merge_following_spec [OF wf lt bd mf]
  note mfs = spec [THEN conjunct1] spec [THEN conjunct2, THEN conjunct1]
    spec [THEN conjunct2, THEN conjunct2, THEN conjunct1]
    spec [THEN conjunct2, THEN conjunct2, THEN conjunct2, THEN conjunct1]
  have sub: "set m2 \<subseteq> set m1"
    unfolding m2_def by (cases m1) auto
  have wf2: "rs_wf m2"
  proof (rule rs_wf_subset [OF mfs(2) _ sub])
    show "bt_sorted m2"
      using rs_wfD(1) [OF mfs(2)] unfolding m2_def by (cases m1) auto
  qed
  have sep: "\<forall>a \<in> set m2. (fst a < start \<and> snd a < start) \<or> stop1 < fst a"
    using sub before mfs(1) by auto
  have eq: "rs_set (insert_merged rs m start stop) = bt_insert start stop1 m2"
    by (simp add: insert_merged_def mf m2_def Let_def)
  show "rs_wf (rs_set (insert_merged rs m start stop))"
    and "rs_elems (rs_set (insert_merged rs m start stop)) = rs_elems m2 \<union> {start..<stop1}"
    unfolding eq using rs_wf_insert [OF wf2 _ mfs(4) sep] lt mfs(3) by auto
qed

lemma rs_wf_length: "rs_wf m \<Longrightarrow> length m = card (set m)"
proof -
  assume "rs_wf m"
  then have "distinct (map fst m)"
    by (simp add: rs_wf_def bt_sorted_def strict_sorted_iff)
  then show ?thesis by (simp add: distinct_card distinct_map)
qed

lemma rs_wf_length_mono:
  "rs_wf m \<Longrightarrow> rs_wf m' \<Longrightarrow> set m' \<subseteq> set m \<Longrightarrow> length m' \<le> length m"
  by (simp add: rs_wf_length card_mono)

lemma rs_wf_length_less:
  "rs_wf m \<Longrightarrow> rs_wf m' \<Longrightarrow> set m' \<subset> set m \<Longrightarrow> length m' < length m"
  by (simp add: rs_wf_length psubset_card_mono)

text \<open>
  A stored range touches \<open>[start, stop)\<close> when the two overlap or are adjacent, so that
  inserting one merges them.
\<close>

definition rs_touches :: "(u64, u64) btree \<Rightarrow> range \<Rightarrow> bool" where
  "rs_touches m rg \<longleftrightarrow> (\<exists>r \<in> set m. fst r \<le> snd rg \<and> fst rg \<le> snd r)"

lemma prev_to_before:
  assumes "rs_wf m" "prev_to m start = Some r" "a \<in> set m" "fst a < start"
  shows "a = r \<or> snd a < fst r"
proof (cases "fst a = fst r")
  case True
  then show ?thesis
    using assms prev_to_SomeD(1) [OF rs_wfD(1) [OF assms(1)] assms(2)]
      bt_sorted_key_unique [OF rs_wfD(1) [OF assms(1)]] by blast
next
  case False
  with assms prev_to_SomeD [OF rs_wfD(1) [OF assms(1)] assms(2)] show ?thesis
    by (metis le_neq_implies_less less_imp_le rs_wfD(4))
qed

lemma rs_insert_cases:
  assumes wf: "rs_wf (rs_set rs)" and lt: "start < stop"
  obtains (covered) "rs_insert rs (start, stop) = rs" "{start..<stop} \<subseteq> rs_elems (rs_set rs)"
      "rs_touches (rs_set rs) (start, stop)"
  | (merge_prev) m s where "rs_insert rs (start, stop) = insert_merged rs m s stop"
      "rs_wf m" "s < stop" "\<forall>a \<in> set m. fst a < s \<longrightarrow> snd a < s" "set m \<subset> set (rs_set rs)"
      "rs_elems m \<union> {s..<stop} = rs_elems (rs_set rs) \<union> {start..<stop}"
      "rs_touches (rs_set rs) (start, stop)"
  | (no_prev) "rs_insert rs (start, stop) = insert_merged rs (rs_set rs) start stop"
      "\<forall>a \<in> set (rs_set rs). fst a < start \<longrightarrow> snd a < start"
proof (cases "prev_to (rs_set rs) start")
  case None
  with lt prev_to_NoneD [OF None] show thesis
    by (intro no_prev) (auto dest: less_asym)
next
  case (Some r)
  note r = prev_to_SomeD [OF rs_wfD(1) [OF wf] Some]
  consider "stop \<le> snd r" | "snd r < stop" "start \<le> snd r" | "snd r < start" by linarith
  then show thesis
  proof cases
    case 1
    then have "{start..<stop} \<subseteq> rs_elems (rs_set rs)"
      using r(1,2) by (auto simp: rs_elems_def intro!: bexI [of _ r])
    moreover have "rs_touches (rs_set rs) (start, stop)"
      using 1 r(1,2) lt by (auto simp: rs_touches_def intro!: bexI [of _ r])
    ultimately show thesis
      using 1 lt Some by (intro covered) auto
  next
    case 2
    let ?m = "bt_remove (fst r) (rs_set rs)"
    have "rs_elems ?m \<union> {fst r..<stop} = rs_elems (rs_set rs) \<union> {start..<stop}"
    proof -
      have "{fst r..<snd r} \<union> {start..<stop} = {fst r..<stop}"
        using 2 r(2) lt rs_wfD(2) [OF wf r(1)] by auto
      then show ?thesis using rs_elems_remove [OF wf r(1)] by blast
    qed
    moreover have "rs_touches (rs_set rs) (start, stop)"
      using 2 r(1,2) lt by (auto simp: rs_touches_def intro!: bexI [of _ r])
    moreover have "\<forall>a \<in> set ?m. fst a < fst r \<longrightarrow> snd a < fst r"
      using rs_wfD(4) [OF wf _ r(1)] by auto
    moreover have "set ?m \<subset> set (rs_set rs)"
      using r(1) by auto
    ultimately show thesis
      using 2 lt Some r(2) rs_wf_remove [OF wf] by (intro merge_prev [of ?m "fst r"]) auto
  next
    case 3
    then have "\<forall>a \<in> set (rs_set rs). fst a < start \<longrightarrow> snd a < start"
      using prev_to_before [OF wf Some] r(2) by fastforce
    with 3 lt Some show thesis by (intro no_prev) auto
  qed
qed

lemma rs_capacity_insert [simp]: "rs_capacity (rs_insert rs rg) = rs_capacity rs"
  by (cases rg) (auto simp: insert_merged_def Let_def split: option.splits prod.splits)

lemma rs_insert_wf:
  assumes "rs_wf (rs_set rs)" "snd rg < u64_mod"
  shows "rs_wf (rs_set (rs_insert rs rg))"
proof (cases rg)
  case (Pair start stop)
  show ?thesis
  proof (cases "start < stop")
    case True
    obtain m1 s1 where mf: "merge_following (rs_set rs) start stop = (m1, s1)" by fastforce
    from assms(1) True show ?thesis
    proof (cases rule: rs_insert_cases)
      case (merge_prev m s)
      obtain m2 s2 where "merge_following m s stop = (m2, s2)" by fastforce
      with merge_prev assms Pair show ?thesis by (simp add: insert_merged_spec(1))
    qed (use assms Pair mf True in \<open>auto intro: insert_merged_spec(1)\<close>)
  qed (use assms Pair in simp)
qed

text \<open>
  What \<open>insert\<close> computes: the union with the new range, except that a full set in which
  the new range touches nothing gives up its lowest range.
\<close>

definition rs_room :: "range_set \<Rightarrow> range \<Rightarrow> bool" where
  "rs_room rs rg \<longleftrightarrow> rs_len rs < rs_capacity rs \<or> rs_touches (rs_set rs) rg"

lemma merge_following_length:
  assumes "rs_wf m" "start < stop" "stop < u64_mod" "merge_following m start stop = (m1, s1)"
    and "\<forall>a \<in> set m. fst a < start \<longrightarrow> snd a < start"
  shows "length m1 \<le> length m"
    and "rs_touches m (start, stop) \<Longrightarrow> length m1 < length m"
    and "\<not> rs_touches m (start, stop) \<Longrightarrow> m1 = m \<and> s1 = stop"
proof -
  note spec = merge_following_spec [OF assms(1-4)]
  from spec show "length m1 \<le> length m"
    using rs_wf_length_mono [OF assms(1), of m1] by auto
  show "length m1 < length m" if t: "rs_touches m (start, stop)"
  proof (rule rs_wf_length_less [OF assms(1)])
    show "rs_wf m1" using spec by simp
    from t obtain r where "r \<in> set m" "fst r \<le> stop" "start \<le> snd r"
      by (auto simp: rs_touches_def)
    moreover have "\<not> fst r < start"
      using calculation assms(5) by auto
    ultimately have "r \<in> set m" "r \<notin> set m1" using spec by auto
    then show "set m1 \<subset> set m" using spec by auto
  qed
  show "m1 = m \<and> s1 = stop" if t: "\<not> rs_touches m (start, stop)"
  proof (cases "next_to m start")
    case None
    then show ?thesis using assms(4) by (simp add: merge_following.simps [of m])
  next
    case (Some r)
    note r = next_to_SomeD [OF rs_wfD(1) [OF assms(1)] Some]
    have "stop < fst r"
      using t r(1,2) rs_wfD(2) [OF assms(1) r(1)] by (force simp: rs_touches_def)
    then show ?thesis using assms(4) Some by (simp add: merge_following.simps [of m])
  qed
qed

lemma rs_insert_elems:
  assumes wf: "rs_wf (rs_set rs)" and bd: "stop < u64_mod" and room: "rs_room rs (start, stop)"
    and len: "rs_len rs \<le> rs_capacity rs"
  shows "rs_elems (rs_set (rs_insert rs (start, stop))) = rs_elems (rs_set rs) \<union> {start..<stop}"
proof (cases "start < stop")
  case True
  from wf True show ?thesis
  proof (cases rule: rs_insert_cases)
    case covered
    then show ?thesis by auto
  next
    case (merge_prev m s)
    obtain m2 s2 where mf: "merge_following m s stop = (m2, s2)" by fastforce
    have "length m < rs_capacity rs"
      using rs_wf_length_less [OF wf merge_prev(2,5)] len by (simp add: rs_len_def)
    then have "\<not> length m2 \<ge> rs_capacity rs"
      using merge_following_length(1) [OF merge_prev(2,3) bd mf merge_prev(4)] by simp
    then show ?thesis
      using insert_merged_spec(2) [OF merge_prev(2,3) bd merge_prev(4) mf, of rs]
        merge_following_spec [OF merge_prev(2,3) bd mf] merge_prev(1,6) by simp
  next
    case no_prev
    obtain m2 s2 where mf: "merge_following (rs_set rs) start stop = (m2, s2)" by fastforce
    have "\<not> length m2 \<ge> rs_capacity rs"
      using merge_following_length(1,2) [OF wf True bd mf no_prev(2)] room len
      by (auto simp: rs_room_def rs_len_def)
    then show ?thesis
      using insert_merged_spec(2) [OF wf True bd no_prev(2) mf, of rs]
        merge_following_spec [OF wf True bd mf] no_prev(1) by simp
  qed
qed simp

lemma rs_insert_full:
  assumes wf: "rs_wf (rs_set rs)" and bd: "stop < u64_mod" and lt: "start < stop"
    and full: "rs_len rs = rs_capacity rs" and notouch: "\<not> rs_touches (rs_set rs) (start, stop)"
  shows "rs_elems (rs_set (rs_insert rs (start, stop))) = rs_elems (tl (rs_set rs)) \<union> {start..<stop}"
  using wf lt
proof (cases rule: rs_insert_cases)
  case no_prev
  obtain m2 s2 where mf: "merge_following (rs_set rs) start stop = (m2, s2)" by fastforce
  with merge_following_length(3) [OF wf lt bd mf no_prev(2) notouch]
    insert_merged_spec(2) [OF wf lt bd no_prev(2) mf, of rs] no_prev(1) full
  show ?thesis by (simp add: rs_len_def)
qed (use notouch in simp_all)

lemma length_bt_insert_le: "length (bt_insert k v xs) \<le> Suc (length xs)"
  by (induction k v xs rule: bt_insert.induct) auto

lemma rs_insert_len:
  assumes wf: "rs_wf (rs_set rs)" and bd: "snd rg < u64_mod"
    and len: "rs_len rs \<le> rs_capacity rs" "0 < rs_capacity rs"
  shows "rs_len (rs_insert rs rg) \<le> rs_capacity rs"
proof -
  have merged: "rs_len (insert_merged rs m s e) \<le> rs_capacity rs"
    if m: "rs_wf m" "set m \<subseteq> set (rs_set rs)" "s < e" "e < u64_mod"
      "\<forall>a \<in> set m. fst a < s \<longrightarrow> snd a < s" for m s e
  proof -
    obtain m1 s1 where mf: "merge_following m s e = (m1, s1)" by fastforce
    have "length m1 \<le> rs_capacity rs"
      using merge_following_length(1) [OF m(1,3,4) mf m(5)] rs_wf_length_mono [OF wf m(1,2)] len
      by (simp add: rs_len_def)
    then show ?thesis
      using length_bt_insert_le [of s s1 "if rs_capacity rs \<le> length m1 then tl m1 else m1"] len(2)
      by (auto simp: insert_merged_def mf rs_len_def split: if_splits)
  qed
  obtain start stop where rg: "rg = (start, stop)" by (cases rg)
  show ?thesis
  proof (cases "start < stop")
    case True
    from wf True show ?thesis
    proof (cases rule: rs_insert_cases)
      case covered
      then show ?thesis using len rg by simp
    next
      case (merge_prev m s)
      then show ?thesis using merged [of m s stop] bd rg by auto
    next
      case no_prev
      then show ?thesis using merged [of "rs_set rs" start stop] True bd rg wf by auto
    qed
  qed (use len rg in simp)
qed

subsection \<open>Removal\<close>

lemma rs_elems_disjoint:
  assumes "\<forall>a \<in> set m. snd a \<le> lo \<or> hi \<le> fst a"
  shows "rs_elems m \<inter> {lo..<hi} = {}"
  using assms by (fastforce simp: rs_elems_def)

lemma remove_following_spec:
  assumes "rs_wf m" "start < stop" "stop < u64_mod"
    and "\<forall>a \<in> set m. fst a < start \<longrightarrow> snd a \<le> start"
  shows "rs_wf (remove_following m start stop)
       \<and> rs_elems (remove_following m start stop) = rs_elems m - {start..<stop}"
  using assms
proof (induction m start stop rule: remove_following.induct)
  case (1 m start stop)
  note wf = "1.prems"(1) and lt = "1.prems"(2)
  show ?case
  proof (cases "next_to m start")
    case None
    have "rs_elems m \<inter> {start..<stop} = {}"
      using next_to_NoneD [OF None] "1.prems"(4) by (intro rs_elems_disjoint) auto
    then show ?thesis using None wf by (auto simp: remove_following.simps [of m])
  next
    case (Some r)
    note r = next_to_SomeD [OF rs_wfD(1) [OF wf] Some]
    let ?m = "bt_remove (fst r) m"
    have others: "\<forall>a \<in> set ?m. snd a \<le> start \<or> snd r < fst a"
    proof
      fix a assume a: "a \<in> set ?m"
      show "snd a \<le> start \<or> snd r < fst a"
      proof (cases "fst a < start")
        case False
        with a r(3) have "fst r < fst a" by (auto simp: not_less intro: le_neq_trans)
        with a rs_wfD(4) [OF wf r(1)] show ?thesis by auto
      qed (use a "1.prems"(4) in auto)
    qed
    show ?thesis
    proof (cases "fst r > stop")
      case True
      have "rs_elems m \<inter> {start..<stop} = {}"
        using r(3) True "1.prems"(4) by (intro rs_elems_disjoint) (meson leD leI le_trans less_imp_le)
      then show ?thesis using Some True wf by (auto simp: remove_following.simps [of m])
    next
      case False
      show ?thesis
      proof (cases "snd r > stop")
        case True
        have "\<forall>a \<in> set ?m. (fst a < stop \<and> snd a < stop) \<or> snd r < fst a"
          using others lt rs_wfD(2) [OF wf] by fastforce
        note ins = rs_wf_insert [OF rs_wf_remove [OF wf] True rs_wfD(3) [OF wf r(1)] this]
        have "rs_elems ?m \<inter> {start..<stop} = {}"
          using others True
          by (intro rs_elems_disjoint) (metis less_imp_le order.strict_trans)
        moreover have "{fst r..<snd r} - {start..<stop} = {stop..<snd r}"
          using False True r(2) by auto
        ultimately have "rs_elems m - {start..<stop} = rs_elems ?m \<union> {stop..<snd r}"
          using rs_elems_remove [OF wf r(1)] by blast
        with ins Some False True show ?thesis by (simp add: remove_following.simps [of m])
      next
        case le: False
        have "\<forall>a \<in> set ?m. fst a < start \<longrightarrow> snd a \<le> start" using "1.prems"(4) by auto
        note IH = "1.IH" [OF Some False le rs_wf_remove [OF wf] lt "1.prems"(3) this]
        have "{fst r..<snd r} \<subseteq> {start..<stop}" using r(2) le by auto
        then have "rs_elems m - {start..<stop} = rs_elems ?m - {start..<stop}"
          using rs_elems_remove [OF wf r(1)] by blast
        with IH Some False le show ?thesis by (simp add: remove_following.simps [of m])
      qed
    qed
  qed
qed

lemma remove_prev_spec:
  assumes wf: "rs_wf m" and r: "r \<in> set m" "fst r \<le> start" "start < snd r"
    and lt: "start < stop" and bd: "stop < u64_mod"
  shows "rs_wf (remove_prev m r start stop)
       \<and> rs_elems (remove_prev m r start stop) = rs_elems m - ({start..<stop} \<inter> {fst r..<snd r})
       \<and> (\<forall>a \<in> set (remove_prev m r start stop). fst a < start \<longrightarrow> snd a \<le> start)"
proof -
  let ?m1 = "bt_remove (fst r) m"
  define m2 where "m2 = (if fst r < start then bt_insert (fst r) start ?m1 else ?m1)"
  have others: "\<forall>a \<in> set ?m1. (fst a < fst r \<and> snd a < fst r) \<or> snd r < fst a"
  proof
    fix a assume a: "a \<in> set ?m1"
    then consider "fst a < fst r" | "fst r < fst a" by (auto intro: linorder_cases)
    then show "(fst a < fst r \<and> snd a < fst r) \<or> snd r < fst a"
      by cases (use a rs_wfD(4) [OF wf _ r(1)] rs_wfD(4) [OF wf r(1)] in auto)
  qed
  have sbd: "start < u64_mod" and rbd: "snd r < u64_mod"
    using lt bd rs_wfD(3) [OF wf r(1)] by auto
  have m2: "rs_wf m2" "rs_elems m2 = rs_elems ?m1 \<union> {fst r..<start}"
    "set m2 \<subseteq> insert (fst r, start) (set ?m1)"
  proof -
    have sep: "\<forall>a \<in> set ?m1. (fst a < fst r \<and> snd a < fst r) \<or> start < fst a"
      using others r(3) by (metis order.strict_trans)
    show "rs_wf m2" "rs_elems m2 = rs_elems ?m1 \<union> {fst r..<start}"
      using rs_wf_insert [OF rs_wf_remove [OF wf] _ sbd sep] rs_wf_remove [OF wf]
      by (auto simp: m2_def)
    show "set m2 \<subseteq> insert (fst r, start) (set ?m1)"
      using rs_wfD(1) [OF rs_wf_remove [OF wf, of "fst r"]] by (auto simp: m2_def set_bt_insert)
  qed
  have low: "\<forall>a \<in> set m2. (fst a < fst r \<and> snd a < fst r) \<or> a = (fst r, start) \<or> snd r < fst a"
    using m2(3) others by blast
  have elems: "rs_elems m = rs_elems ?m1 \<union> {fst r..<snd r}"
    by (rule rs_elems_remove [OF wf r(1)])
  have disj: "rs_elems ?m1 \<inter> {fst r..<snd r} = {}"
    using others by (intro rs_elems_disjoint) (metis less_imp_le)
  show ?thesis
  proof (cases "snd r > stop")
    case True
    have "\<forall>a \<in> set m2. (fst a < stop \<and> snd a < stop) \<or> snd r < fst a"
      using low r(2) lt by fastforce
    note ins = rs_wf_insert [OF m2(1) True rbd this]
    have eq: "remove_prev m r start stop = bt_insert stop (snd r) m2"
      using True by (simp add: remove_prev_def m2_def Let_def)
    have "{fst r..<snd r} - {start..<stop} = {fst r..<start} \<union> {stop..<snd r}"
      using r lt True by auto
    then have "rs_elems m - ({start..<stop} \<inter> {fst r..<snd r})
        = rs_elems ?m1 \<union> {fst r..<start} \<union> {stop..<snd r}"
      using elems disj by blast
    moreover have "\<forall>a \<in> set (bt_insert stop (snd r) m2). fst a < start \<longrightarrow> snd a \<le> start"
      using low r(2,3) lt rs_wfD(1) [OF m2(1)] by (fastforce simp: set_bt_insert)
    ultimately show ?thesis using ins m2(2) by (simp add: eq)
  next
    case False
    then have eq: "remove_prev m r start stop = m2"
      by (simp add: remove_prev_def m2_def Let_def)
    have "{fst r..<snd r} - {start..<stop} = {fst r..<start}"
      using r False by auto
    then have "rs_elems m - ({start..<stop} \<inter> {fst r..<snd r}) = rs_elems ?m1 \<union> {fst r..<start}"
      using elems disj by blast
    moreover have "\<forall>a \<in> set m2. fst a < start \<longrightarrow> snd a \<le> start"
      using low r(2,3) by fastforce
    ultimately show ?thesis using m2 by (simp add: eq)
  qed
qed

lemma rs_capacity_remove [simp]: "rs_capacity (rs_remove rs rg) = rs_capacity rs"
  by (cases rg) (auto simp: Let_def split: option.splits)

lemma rs_remove_spec:
  assumes wf: "rs_wf (rs_set rs)" and bd: "stop < u64_mod"
  shows "rs_wf (rs_set (rs_remove rs (start, stop)))
       \<and> rs_elems (rs_set (rs_remove rs (start, stop))) = rs_elems (rs_set rs) - {start..<stop}"
proof (cases "rs_set rs = [] \<or> \<not> start < stop")
  case True
  then show ?thesis using wf by (auto simp: rs_is_empty_def)
next
  case False
  then have lt: "start < stop" and ne: "\<not> rs_is_empty rs" by (auto simp: rs_is_empty_def)
  show ?thesis
  proof (cases "prev_to (rs_set rs) start")
    case None
    then show ?thesis
      using remove_following_spec [OF wf lt bd] prev_to_NoneD [OF None] ne lt by fastforce
  next
    case (Some r)
    note r = prev_to_SomeD [OF rs_wfD(1) [OF wf] Some]
    show ?thesis
    proof (cases "snd r > start")
      case True
      let ?m = "remove_prev (rs_set rs) r start stop"
      note rp = remove_prev_spec [OF wf r(1,2) True lt bd]
      show ?thesis
      proof (cases "snd r \<ge> stop")
        case ge: True
        have "{start..<stop} \<inter> {fst r..<snd r} = {start..<stop}" using r(2) ge by auto
        then show ?thesis using rp Some True ge ne lt by (simp add: Let_def)
      next
        case less: False
        have "rs_elems (rs_set rs) - ({start..<stop} \<inter> {fst r..<snd r}) - {start..<stop}
            = rs_elems (rs_set rs) - {start..<stop}" by blast
        then show ?thesis
          using rp remove_following_spec [of ?m start stop] lt bd Some True less ne
          by (simp add: Let_def)
      qed
    next
      case False
      have "\<forall>a \<in> set (rs_set rs). fst a < start \<longrightarrow> snd a \<le> start"
        using prev_to_before [OF wf Some] False r(2) by fastforce
      then show ?thesis
        using remove_following_spec [OF wf lt bd] Some False ne lt by simp
    qed
  qed
qed

lemma rs_remove_until_fold:
  assumes "rs_wf (rs_set rs)" "rs_len rs \<le> rs_capacity rs" "elem + 1 < u64_mod"
    and "bt_sorted rl" "set rl \<subseteq> set (rs_set rs)" "\<forall>r \<in> set rl. fst r \<le> elem"
  shows "rs_wf (rs_set (fold (remove_until_step elem) rl rs))
       \<and> rs_elems (rs_set (fold (remove_until_step elem) rl rs))
           = rs_elems (rs_set rs) - (rs_elems rl \<inter> {..elem})"
  using assms
proof (induction rl arbitrary: rs)
  case Nil
  then show ?case by simp
next
  case (Cons r rl)
  note wf = Cons.prems(1)
  have r: "r \<in> set (rs_set rs)" "fst r \<le> elem" using Cons.prems(5,6) by auto
  let ?rs1 = "rs\<lparr>rs_set := bt_remove (fst r) (rs_set rs)\<rparr>"
  have wf1: "rs_wf (rs_set ?rs1)" by (simp add: rs_wf_remove [OF wf])
  have len1: "rs_len ?rs1 < rs_capacity ?rs1"
    using length_bt_remove_less [OF r(1) refl] Cons.prems(2) by (simp add: rs_len_def)
  have elems1: "rs_elems (rs_set rs) = rs_elems (rs_set ?rs1) \<union> {fst r..<snd r}"
    using rs_elems_remove [OF wf r(1)] by simp
  have others: "\<forall>a \<in> set (rs_set ?rs1). snd a \<le> fst r \<or> snd r \<le> fst a"
  proof
    fix a assume a: "a \<in> set (rs_set ?rs1)"
    then have "snd a < fst r \<or> snd r < fst a" using rs_wf_apart [OF wf _ r(1), of a] by simp
    then show "snd a \<le> fst r \<or> snd r \<le> fst a" by auto
  qed
  have disj1: "rs_elems (rs_set ?rs1) \<inter> {fst r..<snd r} = {}"
    by (rule rs_elems_disjoint [OF others])
  have cons: "rs_elems (r # rl) = {fst r..<snd r} \<union> rs_elems rl" by (auto simp: rs_elems_def)
  show ?case
  proof (cases "snd r > elem + 1")
    case True
    have "rl = []"
    proof (rule ccontr)
      assume "rl \<noteq> []"
      then obtain b where b: "b \<in> set rl" by (cases rl) auto
      then have "fst r < fst b" "b \<in> set (rs_set rs)" "fst b \<le> elem"
        using Cons.prems(4-6) by auto
      with rs_wfD(4) [OF wf r(1)] True show False by fastforce
    qed
    have step: "remove_until_step elem r rs = rs_insert ?rs1 (elem + 1, snd r)"
      using True Cons.prems(3) by (cases r) (simp add: add64_nowrap Let_def)
    have bd: "snd r < u64_mod" by (rule rs_wfD(3) [OF wf r(1)])
    have "rs_elems (rs_set (rs_insert ?rs1 (elem + 1, snd r)))
        = rs_elems (rs_set ?rs1) \<union> {elem + 1..<snd r}"
      using rs_insert_elems [OF wf1 bd, of "elem + 1"] len1 by (simp add: rs_room_def)
    also have "\<dots> = rs_elems (rs_set rs) - ({fst r..<snd r} \<inter> {..elem})"
    proof -
      have "{fst r..<snd r} - {..elem} = {elem + 1..<snd r}" using r(2) by auto
      with elems1 disj1 show ?thesis by blast
    qed
    finally show ?thesis
      using \<open>rl = []\<close> step rs_insert_wf [OF wf1, of "(elem + 1, snd r)"] bd cons by simp
  next
    case False
    have step: "remove_until_step elem r rs = ?rs1"
      using False Cons.prems(3) by (cases r) (simp add: add64_nowrap Let_def)
    have "set rl \<subseteq> set (rs_set ?rs1)" using Cons.prems(4,5) by auto
    then have IH: "rs_wf (rs_set (fold (remove_until_step elem) rl ?rs1))
        \<and> rs_elems (rs_set (fold (remove_until_step elem) rl ?rs1))
            = rs_elems (rs_set ?rs1) - (rs_elems rl \<inter> {..elem})"
      using Cons.IH [OF wf1] len1 Cons.prems(3,4,6) by simp
    have "{fst r..<snd r} \<subseteq> {..elem}" using False by auto
    then have "rs_elems (rs_set ?rs1) - (rs_elems rl \<inter> {..elem})
        = rs_elems (rs_set rs) - (({fst r..<snd r} \<union> rs_elems rl) \<inter> {..elem})"
      using elems1 disj1 by blast
    with IH step cons show ?thesis by simp
  qed
qed

lemma rs_remove_until_spec:
  assumes wf: "rs_wf (rs_set rs)" and len: "rs_len rs \<le> rs_capacity rs" and bd: "elem + 1 < u64_mod"
  shows "rs_wf (rs_set (rs_remove_until rs elem))
       \<and> rs_elems (rs_set (rs_remove_until rs elem)) = rs_elems (rs_set rs) - {..elem}"
proof -
  let ?rl = "bt_range_upto elem (rs_set rs)"
  have rl: "set ?rl = {a \<in> set (rs_set rs). fst a \<le> elem}" by (auto simp: bt_range_upto_def)
  have "bt_sorted ?rl"
    using rs_wfD(1) [OF wf] by (simp add: bt_range_upto_def bt_sorted_filter)
  then have "rs_wf (rs_set (rs_remove_until rs elem))
      \<and> rs_elems (rs_set (rs_remove_until rs elem)) = rs_elems (rs_set rs) - (rs_elems ?rl \<inter> {..elem})"
    unfolding rs_remove_until_def
    by (intro rs_remove_until_fold [OF wf len bd]) (simp_all only: rl, blast+)
  moreover have "rs_elems (rs_set rs) \<inter> {..elem} = rs_elems ?rl \<inter> {..elem}"
    using rl by (auto simp: rs_elems_def)
  ultimately show ?thesis by blast
qed

subsection \<open>Queries against the set of elements\<close>

lemma rs_elems_prev:
  assumes "rs_wf m"
  shows "x \<in> rs_elems m \<longleftrightarrow> (\<exists>r. prev_to m x = Some r \<and> x < snd r)"
proof
  assume "x \<in> rs_elems m"
  then obtain a where a: "a \<in> set m" "fst a \<le> x" "x < snd a"
    by (auto simp: rs_elems_def)
  show "\<exists>r. prev_to m x = Some r \<and> x < snd r"
  proof (cases "prev_to m x")
    case None
    with a(1,2) show ?thesis using prev_to_NoneD [OF None] by auto
  next
    case (Some r)
    note r = prev_to_SomeD [OF rs_wfD(1) [OF assms] Some]
    have "fst a = fst r"
    proof (rule ccontr)
      assume "fst a \<noteq> fst r"
      with a r have "snd a < fst r" using rs_wfD(4) [OF assms a(1) r(1)] by force
      with a r(2) show False by simp
    qed
    then have "a = r" using bt_sorted_key_unique [OF rs_wfD(1) [OF assms] a(1) r(1)] by simp
    with a Some show ?thesis by simp
  qed
next
  assume "\<exists>r. prev_to m x = Some r \<and> x < snd r"
  then obtain r where r: "prev_to m x = Some r" "x < snd r" by blast
  with prev_to_SomeD [OF rs_wfD(1) [OF assms] r(1)] show "x \<in> rs_elems m"
    by (auto simp: rs_elems_def intro!: bexI [of _ r])
qed

lemma rs_contains_iff:
  assumes "rs_wf (rs_set rs)"
  shows "rs_contains rs x \<longleftrightarrow> x \<in> rs_elems (rs_set rs)"
proof -
  have "x \<in> rs_elems (rs_set rs)" if "next_to (rs_set rs) x = Some r" "range_contains r x" for r
    using that next_to_SomeD(1) [OF rs_wfD(1) [OF assms] that(1)]
    by (cases r) (auto simp: rs_elems_def intro!: bexI [of _ r])
  moreover have "range_contains r x \<longleftrightarrow> x < snd r" if "prev_to (rs_set rs) x = Some r" for r
    using that prev_to_SomeD(2) [OF rs_wfD(1) [OF assms] that] by (cases r) auto
  ultimately show ?thesis
    using rs_elems_prev [OF assms, of x] by (auto simp: rs_contains_def split: option.splits)
qed

lemma finite_rs_elems [simp]: "finite (rs_elems m)"
  by (simp add: rs_elems_def)

lemma rs_elems_empty_iff: "rs_wf m \<Longrightarrow> rs_elems m = {} \<longleftrightarrow> m = []"
  by (cases m) (auto simp: rs_elems_def rs_wf_def)

text \<open>The end of a range is never an element, so ranges are maximal.\<close>

lemma rs_end_notin: "rs_wf m \<Longrightarrow> r \<in> set m \<Longrightarrow> snd r \<notin> rs_elems m"
proof
  assume wf: "rs_wf m" and r: "r \<in> set m" and "snd r \<in> rs_elems m"
  then obtain a where a: "a \<in> set m" "fst a \<le> snd r" "snd r < snd a"
    by (auto simp: rs_elems_def)
  then have "a \<noteq> r" by auto
  then have "fst a \<noteq> fst r"
    using bt_sorted_key_unique [OF rs_wfD(1) [OF wf] a(1) r] by blast
  from rs_wf_apart [OF wf a(1) r this] a rs_wfD(2) [OF wf r] rs_wfD(2) [OF wf a(1)]
  show False by linarith
qed

lemma rs_gap_disjoint:
  assumes wf: "rs_wf m" and lo: "lo \<notin> rs_elems m" and nxt: "\<forall>a \<in> set m. lo < fst a \<longrightarrow> hi \<le> fst a"
  shows "rs_elems m \<inter> {lo..<hi} = {}"
proof (rule rs_elems_disjoint, rule ballI)
  fix a assume a: "a \<in> set m"
  show "snd a \<le> lo \<or> hi \<le> fst a"
  proof (cases "lo < fst a")
    case False
    with a lo show ?thesis by (force simp: rs_elems_def)
  qed (use a nxt in blast)
qed

lemma next_after_bound:
  assumes wf: "rs_wf m" and lt: "start < stop"
  defines "b \<equiv> (case next_after m start of Some r \<Rightarrow> if fst r < stop then fst r else stop | None \<Rightarrow> stop)"
  shows "start < b" "b \<le> stop" "b = stop \<or> b \<in> rs_elems m" "\<forall>a \<in> set m. start < fst a \<longrightarrow> b \<le> fst a"
proof -
  have "start < b \<and> b \<le> stop \<and> (b = stop \<or> b \<in> rs_elems m)
      \<and> (\<forall>a \<in> set m. start < fst a \<longrightarrow> b \<le> fst a)"
  proof (cases "next_after m start")
    case None
    have "\<forall>a \<in> set m. \<not> start < fst a"
      using next_after_NoneD [OF None] by (simp add: not_less)
    with lt None show ?thesis by (simp add: b_def)
  next
    case (Some r)
    note r = next_after_SomeD [OF rs_wfD(1) [OF wf] Some]
    have "fst r \<in> rs_elems m"
      using r(1) rs_wfD(2) [OF wf r(1)] by (auto simp: rs_elems_def intro!: bexI [of _ r])
    show ?thesis
    proof (cases "fst r < stop")
      case False
      with r(3) have "\<forall>a \<in> set m. start < fst a \<longrightarrow> stop \<le> fst a"
        by (meson leI le_trans)
      with False Some lt show ?thesis by (simp add: b_def)
    qed (use Some r lt \<open>fst r \<in> rs_elems m\<close> in \<open>simp add: b_def\<close>)
  qed
  then show "start < b" "b \<le> stop" "b = stop \<or> b \<in> rs_elems m"
    "\<forall>a \<in> set m. start < fst a \<longrightarrow> b \<le> fst a" by blast+
qed

definition rs_filter_ok :: "nat set \<Rightarrow> range \<Rightarrow> range option \<Rightarrow> bool" where
  "rs_filter_ok A rg res \<longleftrightarrow>
     (case res of
        None \<Rightarrow> {fst rg..<snd rg} \<subseteq> A
      | Some (a, b) \<Rightarrow> fst rg \<le> a \<and> a < b \<and> b \<le> snd rg \<and> {fst rg..<a} \<subseteq> A
          \<and> A \<inter> {a..<b} = {} \<and> (b = snd rg \<or> b \<in> A))"

lemma rs_filter_spec:
  assumes wf: "rs_wf (rs_set rs)" and lt: "start < stop"
  shows "rs_filter_ok (rs_elems (rs_set rs)) (start, stop) (rs_filter rs (start, stop))"
proof (cases "rs_set rs = []")
  case True
  with lt show ?thesis by (simp add: rs_is_empty_def rs_filter_ok_def)
next
  case False
  let ?m = "rs_set rs" and ?A = "rs_elems (rs_set rs)"
  let ?b = "case next_after ?m start of Some r \<Rightarrow> if fst r < stop then fst r else stop | None \<Rightarrow> stop"
  note b = next_after_bound [OF wf lt]
  show ?thesis
  proof (cases "start \<in> ?A")
    case True
    then obtain r where r: "prev_to ?m start = Some r" "start < snd r"
      using rs_elems_prev [OF wf] by blast
    note pr = prev_to_SomeD [OF rs_wfD(1) [OF wf] r(1)]
    have cov: "{start..<snd r} \<subseteq> ?A"
      using pr(1,2) by (auto simp: rs_elems_def intro!: bexI [of _ r])
    have notin: "snd r \<notin> ?A" by (rule rs_end_notin [OF wf pr(1)])
    show ?thesis
    proof (cases "stop \<le> snd r")
      case True
      then show ?thesis using False r cov by (auto simp: rs_is_empty_def rs_filter_ok_def Let_def)
    next
      case short: False
      have ub: "snd r < ?b"
      proof -
        have "snd r \<le> ?b" using b(2-4) short pr rs_wf_apart [OF wf _ pr(1)]
        proof (cases "next_after ?m start")
          case (Some q)
          note q = next_after_SomeD [OF rs_wfD(1) [OF wf] Some]
          have "snd r < fst q" using rs_wf_apart [OF wf pr(1) q(1)] pr(2) q(2) rs_wfD(2) [OF wf q(1)] by force
          with Some short show ?thesis by simp
        qed (use short in simp)
        moreover have "snd r \<noteq> ?b" using b(3) notin short by auto
        ultimately show ?thesis by simp
      qed
      have "?A \<inter> {snd r..<?b} = {}"
        by (rule rs_gap_disjoint [OF wf notin]) (use b(4) r(2) in auto)
      then show ?thesis
        using False r short cov ub b(2,3) by (simp add: rs_is_empty_def rs_filter_ok_def)
    qed
  next
    case notin: False
    have "?A \<inter> {start..<?b} = {}"
      by (rule rs_gap_disjoint [OF wf notin b(4)])
    moreover have "rs_filter rs (start, stop) = Some (start, ?b)"
    proof (cases "prev_to ?m start")
      case (Some r)
      with notin have "snd r \<le> start" using rs_elems_prev [OF wf] not_less by blast
      with Some False lt show ?thesis by (simp add: rs_is_empty_def)
    qed (use False in \<open>simp add: rs_is_empty_def\<close>)
    ultimately show ?thesis using b(1-3) by (simp add: rs_filter_ok_def)
  qed
qed

lemma rs_elems_Cons: "rs_elems (r # m) = {fst r..<snd r} \<union> rs_elems m"
  by (auto simp: rs_elems_def)

lemma rs_wf_Cons:
  "rs_wf (r # m) \<longleftrightarrow> fst r < snd r \<and> snd r < u64_mod \<and> (\<forall>a \<in> set m. snd r < fst a) \<and> rs_wf m"
  by (auto simp: rs_wf_def intro: order.strict_trans)

lemma rs_wf_snoc:
  "rs_wf (m @ [r]) \<longleftrightarrow> fst r < snd r \<and> snd r < u64_mod \<and> (\<forall>a \<in> set m. snd a < fst r) \<and> rs_wf m"
  by (induction m) (auto simp: rs_wf_Cons)

lemma rs_min_spec:
  "rs_wf (rs_set rs) \<Longrightarrow>
   rs_min rs = (if rs_elems (rs_set rs) = {} then None else Some (Min (rs_elems (rs_set rs))))"
proof (cases "rs_set rs")
  case (Cons r m)
  assume "rs_wf (rs_set rs)"
  with Cons have r: "fst r < snd r" "\<forall>a \<in> set m. snd r < fst a" by (auto simp: rs_wf_Cons)
  have "Min (rs_elems (r # m)) = fst r"
  proof (rule Min_eqI)
    show "fst r \<in> rs_elems (r # m)" using r by (simp add: rs_elems_Cons)
    show "fst r \<le> y" if "y \<in> rs_elems (r # m)" for y
      using that r by (force simp: rs_elems_def)
  qed simp
  then show ?thesis using Cons r by (auto simp: rs_min_def rs_elems_Cons)
qed (simp add: rs_min_def)

lemma rs_max_spec:
  "rs_wf (rs_set rs) \<Longrightarrow>
   rs_max rs = (if rs_elems (rs_set rs) = {} then None else Some (Max (rs_elems (rs_set rs))))"
proof (cases "rs_set rs" rule: rev_cases)
  case (snoc m r)
  assume "rs_wf (rs_set rs)"
  with snoc have r: "fst r < snd r" "\<forall>a \<in> set m. snd a < fst r" by (auto simp: rs_wf_snoc)
  have "Max (rs_elems (m @ [r])) = snd r - 1"
  proof (rule Max_eqI)
    show "snd r - 1 \<in> rs_elems (m @ [r])" using r by (auto simp: rs_elems_def)
    show "y \<le> snd r - 1" if "y \<in> rs_elems (m @ [r])" for y
      using that r by (force simp: rs_elems_def)
  qed simp
  moreover have "fst r \<in> rs_elems (m @ [r])" using r by (auto simp: rs_elems_def)
  ultimately show ?thesis using snoc r by (auto simp: rs_max_def sub64_nowrap)
qed (simp add: rs_max_def)

lemma rs_pop_min_spec:
  assumes wf: "rs_wf (rs_set rs)" and pop: "rs_pop_min rs = (Some r, rs')"
  shows "rs_wf (rs_set rs')" "fst r < snd r" "fst r = Min (rs_elems (rs_set rs))"
    "rs_elems (rs_set rs) = {fst r..<snd r} \<union> rs_elems (rs_set rs')"
    "\<forall>x \<in> rs_elems (rs_set rs'). snd r < x" "rs_capacity rs' = rs_capacity rs"
proof -
  from pop obtain m where m: "rs_set rs = r # m"
    by (auto simp: rs_pop_min_def rs_peek_min_def split: option.splits dest: first_entry_SomeD)
  with wf have r: "fst r < snd r" "\<forall>a \<in> set m. snd r < fst a" "rs_wf m" by (auto simp: rs_wf_Cons)
  have "bt_remove (fst r) (r # m) = m"
  proof -
    have "filter (\<lambda>e. fst e \<noteq> fst r) m = m" using r(1,2) by (force simp: filter_id_conv)
    then show ?thesis by (simp add: bt_remove_def)
  qed
  with pop m have rs': "rs' = rs\<lparr>rs_set := m\<rparr>"
    by (simp add: rs_pop_min_def rs_peek_min_def)
  show "fst r = Min (rs_elems (rs_set rs))"
    using rs_min_spec [OF wf] m by (auto simp: rs_min_def split: if_splits)
  show "rs_wf (rs_set rs')" "fst r < snd r"
    "rs_elems (rs_set rs) = {fst r..<snd r} \<union> rs_elems (rs_set rs')"
    "rs_capacity rs' = rs_capacity rs"
    using r m by (simp_all add: rs' rs_elems_Cons)
  show "\<forall>x \<in> rs_elems (rs_set rs'). snd r < x"
    using r(2) by (force simp: rs' rs_elems_def)
qed

lemma rs_eq_range_iff:
  assumes wf: "rs_wf (rs_set rs)" and "s < e"
  shows "rs_eq_range rs (s, e) \<longleftrightarrow> rs_elems (rs_set rs) = {s..<e}"
proof
  assume "rs_eq_range rs (s, e)"
  then have "rs_set rs = [(s, e)]"
    by (cases "rs_set rs") (auto simp: rs_eq_range_def rs_len_def rs_peek_min_def)
  then show "rs_elems (rs_set rs) = {s..<e}" by (simp add: rs_elems_def)
next
  assume eq: "rs_elems (rs_set rs) = {s..<e}"
  then obtain r m where m: "rs_set rs = r # m"
    using \<open>s < e\<close> by (cases "rs_set rs") auto
  with wf have r: "fst r < snd r" "\<forall>a \<in> set m. snd r < fst a" "rs_wf m" by (auto simp: rs_wf_Cons)
  have "snd r \<notin> {s..<e}" using rs_end_notin [OF wf, of r] m eq by simp
  moreover have ends: "fst r \<in> {s..<e}" "snd r - 1 \<in> {s..<e}"
    using eq m r(1) by (auto simp: rs_elems_Cons)
  ultimately have "snd r = e" by auto
  have "m = []"
  proof (cases m)
    case (Cons a m')
    then have "fst a \<in> rs_elems (rs_set rs)" using m r(3) by (simp add: rs_elems_Cons rs_wf_Cons)
    with Cons r(2) \<open>snd r = e\<close> eq show ?thesis by auto
  qed
  moreover have "fst r = s"
    using atLeastLessThan_inj(1) [of "fst r" "snd r" s e] eq m \<open>m = []\<close> r(1) \<open>s < e\<close>
    by (simp add: rs_elems_Cons)
  ultimately show "rs_eq_range rs (s, e)"
    using m \<open>snd r = e\<close> by (auto simp: rs_eq_range_def rs_len_def rs_peek_min_def prod_eq_iff)
qed

subsection \<open>Iteration\<close>

text \<open>The first \<open>n\<close> numbers an iterator yields, from the front and from the back.\<close>

fun flatten_take :: "nat \<Rightarrow> flatten \<Rightarrow> u64 list" where
  "flatten_take 0 it = []"
| "flatten_take (Suc n) it =
     (case flatten_next it of None \<Rightarrow> [] | Some (x, it') \<Rightarrow> x # flatten_take n it')"

fun flatten_take_back :: "nat \<Rightarrow> flatten \<Rightarrow> u64 list" where
  "flatten_take_back 0 it = []"
| "flatten_take_back (Suc n) it =
     (case flatten_next_back it of None \<Rightarrow> [] | Some (x, it') \<Rightarrow> x # flatten_take_back n it')"

definition range_list :: "(u64, u64) btree \<Rightarrow> u64 list" where
  "range_list m = concat (map (\<lambda>r. [fst r..<snd r]) m)"

lemma sorted_range_list: "rs_wf m \<Longrightarrow> range_list m = sorted_list_of_set (rs_elems m)"
proof -
  assume wf: "rs_wf m"
  then have "sorted_wrt (<) (range_list m)"
  proof (induction m)
    case (Cons r m)
    then have r: "\<forall>a \<in> set m. snd r < fst a" by (simp add: rs_wf_Cons)
    from Cons have "sorted_wrt (<) (range_list m)" by (simp add: rs_wf_Cons)
    then show ?case
      using r by (force simp: range_list_def sorted_wrt_append sorted_wrt_upt)
  qed (simp add: range_list_def)
  moreover have "set (range_list m) = rs_elems m" by (simp add: range_list_def rs_elems_def)
  ultimately show ?thesis
    by (metis finite_rs_elems sorted_list_of_set.sorted_sorted_key_list_of_set strict_sorted_equal
        strict_sorted_list_of_set set_sorted_list_of_set)
qed

definition fl_inv :: "flatten \<Rightarrow> bool" where
  "fl_inv it \<longleftrightarrow> fl_next it \<le> fl_end it \<and> fl_end it < u64_mod \<and> rs_wf (fl_set it)"

lemma flatten_next_spec:
  assumes "fl_inv it"
  shows "case [fl_next it..<fl_end it] @ range_list (fl_set it) of
           [] \<Rightarrow> flatten_next it = None
         | x # xs \<Rightarrow> \<exists>it'. flatten_next it = Some (x, it') \<and> fl_inv it'
               \<and> [fl_next it'..<fl_end it'] @ range_list (fl_set it') = xs"
proof (cases "fl_next it = fl_end it")
  case True
  show ?thesis
  proof (cases "fl_set it")
    case (Cons r m)
    with assms have "fst r < snd r" "snd r < u64_mod" "rs_wf m"
      by (auto simp: fl_inv_def rs_wf_Cons)
    with True Cons show ?thesis
      by (simp add: flatten_next_def flatten_emit_def add64_nowrap fl_inv_def range_list_def
          upt_conv_Cons)
  qed (simp add: True flatten_next_def range_list_def)
next
  case False
  with assms have "fl_next it < fl_end it" by (simp add: fl_inv_def)
  with assms False show ?thesis
    by (simp add: flatten_next_def flatten_emit_def add64_nowrap fl_inv_def upt_conv_Cons)
qed

lemma flatten_take_spec:
  "fl_inv it \<Longrightarrow> flatten_take n it = take n ([fl_next it..<fl_end it] @ range_list (fl_set it))"
proof (induction n arbitrary: it)
  case (Suc n)
  show ?case
  proof (cases "[fl_next it..<fl_end it] @ range_list (fl_set it)")
    case Nil
    then show ?thesis using flatten_next_spec [OF Suc.prems, unfolded Nil] Nil by simp
  next
    case (Cons x xs)
    then obtain it' where "flatten_next it = Some (x, it')" "fl_inv it'"
      "[fl_next it'..<fl_end it'] @ range_list (fl_set it') = xs"
      using flatten_next_spec [OF Suc.prems, unfolded Cons] by auto
    then show ?thesis using Suc.IH [of it'] Cons by simp
  qed
qed simp

lemma flatten_next_back_spec:
  assumes "fl_inv it"
  shows "case rev [fl_next it..<fl_end it] @ rev (range_list (fl_set it)) of
           [] \<Rightarrow> flatten_next_back it = None
         | x # xs \<Rightarrow> \<exists>it'. flatten_next_back it = Some (x, it') \<and> fl_inv it'
               \<and> rev [fl_next it'..<fl_end it'] @ rev (range_list (fl_set it')) = xs"
proof (cases "fl_next it = fl_end it")
  case True
  show ?thesis
  proof (cases "fl_set it" rule: rev_cases)
    case (snoc m r)
    with assms have "fst r < snd r" "snd r < u64_mod" "rs_wf m"
      by (auto simp: fl_inv_def rs_wf_snoc)
    moreover obtain e where "snd r = Suc e" using \<open>fst r < snd r\<close> by (cases "snd r") auto
    ultimately show ?thesis
      using True snoc
      by (simp add: flatten_next_back_def flatten_emit_back_def sub64_nowrap fl_inv_def
          range_list_def)
  qed (simp add: True flatten_next_back_def range_list_def)
next
  case False
  with assms have lt: "fl_next it < fl_end it" by (simp add: fl_inv_def)
  then obtain e where "fl_end it = Suc e" by (cases "fl_end it") auto
  with assms False lt show ?thesis
    by (simp add: flatten_next_back_def flatten_emit_back_def sub64_nowrap fl_inv_def)
qed

lemma flatten_take_back_spec:
  "fl_inv it \<Longrightarrow>
   flatten_take_back n it = take n (rev [fl_next it..<fl_end it] @ rev (range_list (fl_set it)))"
proof (induction n arbitrary: it)
  case (Suc n)
  show ?case
  proof (cases "rev [fl_next it..<fl_end it] @ rev (range_list (fl_set it))")
    case Nil
    then show ?thesis using flatten_next_back_spec [OF Suc.prems, unfolded Nil] Nil by simp
  next
    case (Cons x xs)
    then obtain it' where "flatten_next_back it = Some (x, it')" "fl_inv it'"
      "rev [fl_next it'..<fl_end it'] @ rev (range_list (fl_set it')) = xs"
      using flatten_next_back_spec [OF Suc.prems, unfolded Cons] by auto
    then show ?thesis using Suc.IH [of it'] Cons by simp
  qed
qed simp

subsection \<open>The interface of the unbounded sets\<close>

text \<open>
  What the clients of \<open>RangeSet::default()\<close> rely on (the acknowledged and the lost ranges of a
  send buffer, the stream identifiers that may still be opened): the operations act on
  sets of numbers.
\<close>

locale interval_set =
  fixes invar :: "'s \<Rightarrow> bool"
    and elems :: "'s \<Rightarrow> nat set"
    and ins :: "'s \<Rightarrow> range \<Rightarrow> 's"
    and del :: "'s \<Rightarrow> range \<Rightarrow> 's"
    and mem :: "'s \<Rightarrow> u64 \<Rightarrow> bool"
  assumes invar_ins: "invar s \<Longrightarrow> b < u64_mod \<Longrightarrow> invar (ins s (a, b))"
    and elems_ins: "invar s \<Longrightarrow> b < u64_mod \<Longrightarrow> elems (ins s (a, b)) = elems s \<union> {a..<b}"
    and invar_del: "invar s \<Longrightarrow> b < u64_mod \<Longrightarrow> invar (del s (a, b))"
    and elems_del: "invar s \<Longrightarrow> b < u64_mod \<Longrightarrow> elems (del s (a, b)) = elems s - {a..<b}"
    and mem_iff: "invar s \<Longrightarrow> mem s x \<longleftrightarrow> x \<in> elems s"
begin

lemmas laws = invar_ins elems_ins invar_del elems_del mem_iff

lemma del_elem:
  "invar s \<Longrightarrow> x + 1 < u64_mod \<Longrightarrow> elems (del s (x, add64 x 1)) = elems s - {x}"
  using elems_del [of s "add64 x 1" x] by (simp add: add64_nowrap atLeastLessThan_singleton)

lemma invar_del_elem: "invar s \<Longrightarrow> x + 1 < u64_mod \<Longrightarrow> invar (del s (x, add64 x 1))"
  by (simp add: invar_del)

lemma ins_del_absorb:
  "invar s \<Longrightarrow> b < u64_mod \<Longrightarrow> d < u64_mod \<Longrightarrow> {c..<d} \<subseteq> {a..<b} \<Longrightarrow>
   elems (ins (del s (c, d)) (a, b)) = elems (ins s (a, b))"
  by (auto simp: laws)

lemma fold_ins:
  "invar s \<Longrightarrow> \<forall>r \<in> set rl. snd r < u64_mod \<Longrightarrow>
   invar (fold (\<lambda>r s. ins s r) rl s) \<and> elems (fold (\<lambda>r s. ins s r) rl s) = elems s \<union> (\<Union>r \<in> set rl. {fst r..<snd r})"
proof (induction rl arbitrary: s)
  case (Cons r rl)
  obtain a b where r: "r = (a, b)" by (cases r)
  with Cons.prems have "b < u64_mod" by simp
  with Cons.prems r have "invar (ins s (a, b))" "elems (ins s (a, b)) = elems s \<union> {a..<b}"
    by (simp_all add: laws)
  with Cons.IH [of "ins s (a, b)"] Cons.prems(2) r show ?case by auto
qed simp

end

definition rs_inv :: "range_set \<Rightarrow> bool" where
  "rs_inv rs \<longleftrightarrow> rs_wf (rs_set rs) \<and> rs_capacity rs = u64_max"

abbreviation rs_nums :: "range_set \<Rightarrow> nat set" where
  "rs_nums rs \<equiv> rs_elems (rs_set rs)"

text \<open>A set of separated ranges of 64-bit numbers has fewer ranges than \<open>usize::MAX\<close>.\<close>

lemma rs_wf_length_bound: "rs_wf m \<Longrightarrow> length m < u64_max"
proof -
  assume wf: "rs_wf m"
  let ?F = "fst ` set m" and ?S = "snd ` set m"
  have inj_f: "inj_on fst (set m)"
    using bt_sorted_key_unique [OF rs_wfD(1) [OF wf]] by (auto intro!: inj_onI)
  have inj_s: "inj_on snd (set m)"
  proof (rule inj_onI)
    fix a b assume ab: "a \<in> set m" "b \<in> set m" "snd a = snd b"
    have "fst a = fst b"
    proof (rule ccontr)
      assume "fst a \<noteq> fst b"
      from rs_wf_apart [OF wf ab(1,2) this] ab(3) rs_wfD(2) [OF wf ab(1)] rs_wfD(2) [OF wf ab(2)]
      show False by linarith
    qed
    with ab show "a = b" by (simp add: prod_eq_iff)
  qed
  have "?F \<subseteq> rs_elems m" using rs_wfD(2) [OF wf] by (force simp: rs_elems_def)
  then have "snd r \<notin> ?F" if "r \<in> set m" for r
    using rs_end_notin [OF wf that] by blast
  then have disj: "?F \<inter> ?S = {}" by (metis disjoint_iff imageE)
  have "?F \<union> ?S \<subseteq> {..<u64_mod}"
    using rs_wfD(2,3) [OF wf] by (force intro: less_trans)
  then have "card (?F \<union> ?S) \<le> u64_mod"
    by (metis card_lessThan card_mono finite_lessThan)
  moreover have "card (?F \<union> ?S) = 2 * length m"
    using disj inj_f inj_s by (simp add: card_Un_disjoint card_image rs_wf_length [OF wf])
  ultimately show ?thesis by (simp add: u64_max_def u64_mod_def)
qed

lemma rs_inv_default [simp]: "rs_inv rs_default" "rs_nums rs_default = {}"
  by (simp_all add: rs_inv_def rs_default_def rs_new_def)

interpretation urs: interval_set rs_inv rs_nums rs_insert rs_remove rs_contains
proof unfold_locales
  fix s :: range_set and a b x :: u64
  assume inv: "rs_inv s"
  then have wf: "rs_wf (rs_set s)" and cap: "rs_capacity s = u64_max" by (auto simp: rs_inv_def)
  have len: "rs_len s < rs_capacity s"
    using rs_wf_length_bound [OF wf] cap by (simp add: rs_len_def)
  show "rs_contains s x \<longleftrightarrow> x \<in> rs_nums s" by (rule rs_contains_iff [OF wf])
  assume b: "b < u64_mod"
  show "rs_inv (rs_insert s (a, b))"
    using rs_insert_wf [OF wf, of "(a, b)"] b cap by (simp add: rs_inv_def del: rs_insert.simps)
  show "rs_nums (rs_insert s (a, b)) = rs_nums s \<union> {a..<b}"
    using rs_insert_elems [OF wf b, of a] len by (simp add: rs_room_def del: rs_insert.simps)
  show "rs_inv (rs_remove s (a, b))" "rs_nums (rs_remove s (a, b)) = rs_nums s - {a..<b}"
    using rs_remove_spec [OF wf b, of a] cap by (simp_all add: rs_inv_def del: rs_remove.simps)
qed

end
