(* ===== verification/RangeProps.thy ===== *)
theory RangeProps
  imports Ranges
begin

text \<open>
  What \<open>RangeSet\<close> of \<open>src/ranges.rs\<close> promises its clients: with unbounded capacity it
  is a set of numbers under any sequence of operations; with a bounded capacity it forgets its
  lowest range first; its iterators enumerate it in order.
\<close>

datatype rs_op =
    Insert u64 u64
  | Remove u64 u64
  | AddElem u64
  | RemoveElem u64
  | RemoveUntil u64
  | PopMin
  | Clear

fun rs_step :: "range_set \<Rightarrow> rs_op \<Rightarrow> range_set" where
  "rs_step rs (Insert a b) = rs_insert rs (a, b)"
| "rs_step rs (Remove a b) = rs_remove rs (a, b)"
| "rs_step rs (AddElem x) = rs_add_elem rs x"
| "rs_step rs (RemoveElem x) = rs_remove_elem rs x"
| "rs_step rs (RemoveUntil x) = rs_remove_until rs x"
| "rs_step rs PopMin = snd (rs_pop_min rs)"
| "rs_step rs Clear = rs_clear rs"

text \<open>Numbers below \<open>2 ^ 64 - 1\<close>: the largest one has no successor to end its range with.\<close>

fun rs_op_ok :: "range_set \<Rightarrow> rs_op \<Rightarrow> bool" where
  "rs_op_ok rs (Insert a b) \<longleftrightarrow> b < u64_mod"
| "rs_op_ok rs (Remove a b) \<longleftrightarrow> b < u64_mod"
| "rs_op_ok rs (AddElem x) \<longleftrightarrow> x + 1 < u64_mod"
| "rs_op_ok rs (RemoveElem x) \<longleftrightarrow> x + 1 < u64_mod"
| "rs_op_ok rs (RemoveUntil x) \<longleftrightarrow> x + 1 < u64_mod"
| "rs_op_ok rs _ \<longleftrightarrow> True"

text \<open>The specification: operations on sets of numbers.\<close>

definition lowest_run :: "nat set \<Rightarrow> nat set" where
  "lowest_run A = {x. Min A \<le> x \<and> {Min A..x} \<subseteq> A}"

fun set_step :: "nat set \<Rightarrow> rs_op \<Rightarrow> nat set" where
  "set_step A (Insert a b) = A \<union> {a..<b}"
| "set_step A (Remove a b) = A - {a..<b}"
| "set_step A (AddElem x) = insert x A"
| "set_step A (RemoveElem x) = A - {x}"
| "set_step A (RemoveUntil x) = A - {..x}"
| "set_step A PopMin = A - lowest_run A"
| "set_step A Clear = {}"

lemma rs_pop_min_lowest:
  assumes "rs_wf (rs_set rs)" "rs_pop_min rs = (Some r, rs')"
  shows "rs_nums rs' = rs_nums rs - lowest_run (rs_nums rs)"
proof -
  note p = rs_pop_min_spec [OF assms]
  have "lowest_run (rs_nums rs) = {fst r..<snd r}"
  proof (rule set_eqI)
    fix x
    have "snd r \<notin> rs_nums rs" using p(4,5) by auto
    then have "x < snd r" if "{fst r..x} \<subseteq> rs_nums rs" "fst r \<le> x"
      using that p(2) by (auto simp: subset_iff) (meson le_less not_less)
    with p(3,4) show "x \<in> lowest_run (rs_nums rs) \<longleftrightarrow> x \<in> {fst r..<snd r}"
      by (auto simp: lowest_run_def subset_iff)
  qed
  with p(2,4,5) show ?thesis by auto
qed

lemma rs_capacity_remove_until: "rs_capacity (rs_remove_until rs e) = rs_capacity rs"
proof -
  have "rs_capacity (remove_until_step e r t) = rs_capacity t" for r t
    by (cases r) (simp add: Let_def del: rs_insert.simps)
  then have "rs_capacity (fold (remove_until_step e) rl t) = rs_capacity t" for rl t
    by (induction rl arbitrary: t) simp_all
  then show ?thesis by (simp add: rs_remove_until_def)
qed

lemma rs_step_refines:
  assumes inv: "rs_inv rs" and ok: "rs_op_ok rs x"
  shows "rs_inv (rs_step rs x) \<and> rs_nums (rs_step rs x) = set_step (rs_nums rs) x"
proof -
  have wf: "rs_wf (rs_set rs)" and cap: "rs_capacity rs = u64_max" using inv by (simp_all add: rs_inv_def)
  have len: "rs_len rs \<le> rs_capacity rs" using rs_wf_length_bound [OF wf] cap by (simp add: rs_len_def)
  have one: "{y..<add64 y 1} = {y}" if "y + 1 < u64_mod" for y using that by (simp add: add64_nowrap atLeastLessThan_singleton)
  show ?thesis
  proof (cases x)
    case (RemoveUntil e)
    have "rs_capacity (rs_remove_until rs e) = rs_capacity rs"
      by (rule rs_capacity_remove_until)
    with RemoveUntil rs_remove_until_spec [OF wf len, of e] ok cap show ?thesis by (simp add: rs_inv_def)
  next
    case PopMin
    show ?thesis
    proof (cases "rs_pop_min rs")
      case (Pair res rs')
      show ?thesis
      proof (cases res)
        case None
        then have "rs_set rs = []" "rs' = rs" using Pair by (auto simp: rs_pop_min_def rs_peek_min_def split: option.splits)
        then show ?thesis using PopMin Pair inv by (simp add: rs_elems_def)
      next
        case (Some r)
        then have pop: "rs_pop_min rs = (Some r, rs')" using Pair by simp
        note p = rs_pop_min_spec(1,6) [OF wf pop] rs_pop_min_lowest [OF wf pop]
        with PopMin pop cap show ?thesis by (simp add: rs_inv_def)
      qed
    qed
  next
    case Clear
    then show ?thesis using cap by (simp add: rs_clear_def rs_inv_def rs_elems_def)
  qed (use inv ok one in \<open>simp_all add: urs.laws rs_add_elem_def rs_remove_elem_def add64_bound del: rs_insert.simps rs_remove.simps\<close>)
qed

interpretation rsm: inv_machine rs_step rs_op_ok rs_inv
  by unfold_locales (simp add: rs_step_refines)

lemma rs_run_refines:
  "rs_inv rs \<Longrightarrow> ok_run rs_step rs_op_ok rs ops \<Longrightarrow>
   rs_nums (foldl rs_step rs ops) = foldl set_step (rs_nums rs) ops"
proof (induction ops arbitrary: rs)
  case (Cons x ops)
  then show ?case using rs_step_refines [of rs x] by simp
qed simp

subsection \<open>Properties\<close>

text \<open>
  C33.  With the default capacity a range set is a set of numbers: after any sequence of
  insertions, removals, truncations and pops its ranges are well formed (sorted, non-empty,
  separated), they denote the set that the same operations give on sets, and \<open>contains\<close>,
  \<open>min\<close> and \<open>max\<close> answer for that set.
\<close>

theorem range_set_refines:
  assumes "ok_run rs_step rs_op_ok rs_default ops" "rs = foldl rs_step rs_default ops"
    and "A = foldl set_step {} ops"
  shows "rs_wf (rs_set rs) \<and> rs_nums rs = A \<and> (\<forall>x. rs_contains rs x \<longleftrightarrow> x \<in> A)
    \<and> rs_min rs = (if A = {} then None else Some (Min A))
    \<and> rs_max rs = (if A = {} then None else Some (Max A))"
proof -
  have inv: "rs_inv rs" using rsm.run_inv [OF rs_inv_default(1) assms(1)] assms(2) by simp
  then have wf: "rs_wf (rs_set rs)" by (simp add: rs_inv_def)
  have "rs_nums rs = A" using rs_run_refines [OF rs_inv_default(1) assms(1)] assms(2,3) by simp
  with wf inv show ?thesis by (simp add: urs.mem_iff rs_min_spec rs_max_spec)
qed

theorem range_set_refines_witness:
  "rs_contains (foldl rs_step rs_default [Insert 3 8, AddElem 9, RemoveElem 5, RemoveUntil 3]) 6
   \<and> \<not> rs_contains (foldl rs_step rs_default [Insert 3 8, AddElem 9, RemoveElem 5, RemoveUntil 3]) 5"
  using range_set_refines [of "[Insert 3 8, AddElem 9, RemoveElem 5, RemoveUntil 3]"]
  by (simp add: u64_mod_def)

subsubsection \<open>Bounded capacity\<close>

text \<open>
  The set of packet numbers to be acknowledged is bounded; it is only inserted into, truncated from below
  and popped.  Removing a range from the middle is another matter: it splits a range and does not look at the
  capacity.
\<close>

fun keeps_capacity :: "rs_op \<Rightarrow> bool" where
  "keeps_capacity (Remove a b) \<longleftrightarrow> False"
| "keeps_capacity (RemoveElem x) \<longleftrightarrow> False"
| "keeps_capacity _ \<longleftrightarrow> True"

definition rs_bounded :: "usize \<Rightarrow> range_set \<Rightarrow> bool" where
  "rs_bounded cap rs \<longleftrightarrow> rs_wf (rs_set rs) \<and> rs_len rs \<le> cap \<and> rs_capacity rs = cap \<and> 0 < cap"

lemma rs_bounded_insert: "rs_bounded cap rs \<Longrightarrow> snd rg < u64_mod \<Longrightarrow> rs_bounded cap (rs_insert rs rg)"
  using rs_insert_wf [of rs rg] rs_insert_len [of rs rg]
  by (auto simp: rs_bounded_def rs_capacity_insert simp del: rs_insert.simps)

lemma rs_bounded_sub: "rs_bounded cap rs \<Longrightarrow> rs_bounded cap (rs\<lparr>rs_set := bt_remove k (rs_set rs)\<rparr>)"
  by (auto simp: rs_bounded_def rs_len_def rs_wf_remove bt_remove_def intro: le_trans [OF length_filter_le] dest: rs_wf_remove [of _ k])

lemma rs_bounded_remove_until:
  assumes "rs_bounded cap rs"
  shows "rs_bounded cap (rs_remove_until rs elem)"
proof -
  have step: "rs_bounded cap (remove_until_step elem r t)" if "rs_bounded cap t" "snd r < u64_mod" for r t
    using rs_bounded_sub [OF that(1)] rs_bounded_insert [OF rs_bounded_sub [OF that(1)]] that(2)
    by (cases r) (simp add: Let_def del: rs_insert.simps)
  have "rs_bounded cap (fold (remove_until_step elem) rl t)" if "rs_bounded cap t" "\<forall>r \<in> set rl. snd r < u64_mod" for rl t
    using that by (induction rl arbitrary: t) (simp_all add: step del: remove_until_step.simps)
  moreover have "\<forall>r \<in> set (bt_range_upto elem (rs_set rs)). snd r < u64_mod"
    using assms by (auto simp: rs_bounded_def bt_range_upto_def dest: rs_wfD)
  ultimately show ?thesis using assms by (simp add: rs_remove_until_def)
qed

lemma rs_bounded_step:
  assumes "rs_bounded cap rs" "rs_op_ok rs x" "keeps_capacity x"
  shows "rs_bounded cap (rs_step rs x)"
proof (cases x)
  case PopMin
  have "snd (rs_pop_min rs) = rs \<or> (\<exists>k. snd (rs_pop_min rs) = rs\<lparr>rs_set := bt_remove k (rs_set rs)\<rparr>)"
    by (auto simp: rs_pop_min_def split: option.split)
  with PopMin rs_bounded_sub [OF assms(1)] assms(1) show ?thesis by auto
next
  case Clear
  with assms(1) show ?thesis by (simp add: rs_bounded_def rs_clear_def rs_len_def)
qed (use assms rs_bounded_insert rs_bounded_remove_until in \<open>simp_all add: rs_add_elem_def del: rs_insert.simps\<close>)

interpretation rsb: inv_machine rs_step "\<lambda>rs x. rs_op_ok rs x \<and> keeps_capacity x" "rs_bounded cap" for cap
  by unfold_locales (simp add: rs_bounded_step)

lemma rs_bounded_new: "0 < cap \<Longrightarrow> rs_bounded cap (rs_new cap)"
  by (simp add: rs_bounded_def rs_new_def rs_len_def)

text \<open>
  C34.  A set with a bounded capacity, such as that of the packet numbers to be acknowledged, never holds
  more ranges than its capacity under any sequence of insertions, truncations from below, pops and
  clearings (removing a range from the middle is excluded: it can exceed the capacity by splitting a
  range).  And an insertion adds all its numbers: it forgets nothing when there is room or when it touches a
  stored range, and otherwise exactly the lowest stored range.
\<close>

theorem range_set_bounded:
  assumes "0 < cap" and "ok_run rs_step (\<lambda>rs x. rs_op_ok rs x \<and> keeps_capacity x) (rs_new cap) ops"
    and "rs = foldl rs_step (rs_new cap) ops" and "a < b" "b < u64_mod"
  shows "rs_wf (rs_set rs) \<and> rs_len rs \<le> cap
    \<and> rs_len (rs_insert rs (a, b)) \<le> cap
    \<and> rs_nums (rs_insert rs (a, b)) =
        (if rs_len rs < cap \<or> rs_touches (rs_set rs) (a, b) then rs_nums rs \<union> {a..<b}
         else rs_elems (tl (rs_set rs)) \<union> {a..<b})"
proof -
  have inv: "rs_bounded cap rs" using rsb.run_inv [OF rs_bounded_new [OF assms(1)] assms(2)] assms(3) by simp
  then have i: "rs_wf (rs_set rs)" "rs_len rs \<le> rs_capacity rs" "rs_capacity rs = cap" by (simp_all add: rs_bounded_def)
  have "rs_bounded cap (rs_insert rs (a, b))" using rs_bounded_insert [OF inv, of "(a, b)"] assms(5) by simp
  then have len: "rs_len (rs_insert rs (a, b)) \<le> cap" by (simp add: rs_bounded_def del: rs_insert.simps)
  have "rs_nums (rs_insert rs (a, b)) =
      (if rs_len rs < cap \<or> rs_touches (rs_set rs) (a, b) then rs_nums rs \<union> {a..<b}
       else rs_elems (tl (rs_set rs)) \<union> {a..<b})"
  proof (cases "rs_room rs (a, b)")
    case True
    with rs_insert_elems [OF i(1) assms(5) True i(2)] i(3) show ?thesis by (simp add: rs_room_def del: rs_insert.simps)
  next
    case False
    then have "rs_len rs = rs_capacity rs" "\<not> rs_touches (rs_set rs) (a, b)" using i(2) by (auto simp: rs_room_def)
    with rs_insert_full [OF i(1) assms(5,4) this] i(3) show ?thesis by (simp del: rs_insert.simps)
  qed
  with i len show ?thesis by blast
qed

theorem range_set_bounded_witness:
  "rs_len (foldl rs_step (rs_new 2) [Insert 1 3, AddElem 5, Insert 8 9, RemoveUntil 5]) \<le> 2"
  using range_set_bounded [of 2 "[Insert 1 3, AddElem 5, Insert 8 9, RemoveUntil 5]" _ 10 12]
  by (simp add: u64_mod_def del: rs_step.simps)

text \<open>Removing from the middle of the only range of a set of capacity one leaves two ranges.\<close>

lemma remove_exceeds_capacity:
  "rs_len (rs_remove (rs_insert (rs_new 1) (0, 10)) (3, 5)) = 2"
  by (simp add: rs_new_def rs_len_def rs_is_empty_def prev_to_def next_to_def next_after_def remove_prev_def insert_merged_def
      merge_following.simps remove_following.simps bt_range_upto_def bt_range_after_def bt_range_from_def last_entry_def
      first_entry_def bt_remove_def Let_def)

text \<open>
  \<open>filter\<close> returns the first stretch of the given range that is not in the set: what
  lies before it is in the set, nothing of it is, and it ends at the end of the range or at a
  member; it returns nothing only when the whole range is in the set.
\<close>

theorem rs_filter_first_gap:
  assumes "rs_wf (rs_set rs)" "start < stop"
  shows "case rs_filter rs (start, stop) of
      None \<Rightarrow> {start..<stop} \<subseteq> rs_nums rs
    | Some (a, b) \<Rightarrow> start \<le> a \<and> a < b \<and> b \<le> stop \<and> {start..<a} \<subseteq> rs_nums rs
        \<and> rs_nums rs \<inter> {a..<b} = {} \<and> (b = stop \<or> b \<in> rs_nums rs)"
  using rs_filter_spec [OF assms] unfolding rs_filter_ok_def fst_conv snd_conv .

theorem rs_filter_first_gap_witness:
  "case rs_filter \<lparr>rs_set = [(1, 3), (5, 6)], rs_capacity = 9\<rparr> (2, 8) of
     None \<Rightarrow> False | Some (a, b) \<Rightarrow> 2 \<le> a \<and> a < b \<and> b \<le> 8"
  using rs_filter_first_gap [of "\<lparr>rs_set = [(1, 3), (5, 6)], rs_capacity = 9\<rparr>" 2 8]
  by (simp add: rs_wf_Cons u64_mod_def rs_elems_def rs_is_empty_def next_after_def next_to_def prev_to_def
      bt_range_upto_def bt_range_after_def bt_range_from_def last_entry_def)

text \<open>
  The flattening iterator yields the members of the set in increasing order, and reversed
  in decreasing order.
\<close>

theorem flatten_enumerates:
  assumes "rs_wf (rs_set rs)" "card (rs_nums rs) \<le> n"
  shows "flatten_take n (rs_flatten rs) = sorted_list_of_set (rs_nums rs)
    \<and> flatten_take_back n (rs_flatten rs) = rev (sorted_list_of_set (rs_nums rs))"
proof -
  have inv: "fl_inv (rs_flatten rs)" using assms(1) by (simp add: fl_inv_def rs_flatten_def u64_mod_def)
  have "length (range_list (rs_set rs)) = card (rs_nums rs)"
    using sorted_range_list [OF assms(1)] by simp
  with flatten_take_spec [OF inv, of n] flatten_take_back_spec [OF inv, of n] assms(2)
    sorted_range_list [OF assms(1)]
  show ?thesis by (simp add: rs_flatten_def)
qed

theorem flatten_enumerates_witness:
  "flatten_take 3 (rs_flatten \<lparr>rs_set = [(1, 3), (5, 6)], rs_capacity = 9\<rparr>) = [1, 2, 5]"
proof -
  have eq: "rs_elems [(1, 3), (5, 6)] = {1, 2, 5}" by (auto simp: rs_elems_def)
  then show ?thesis
    using flatten_enumerates [of "\<lparr>rs_set = [(1, 3), (5, 6)], rs_capacity = 9\<rparr>" 3]
    by (simp add: rs_wf_Cons u64_mod_def)
qed

text \<open>
  Mixing both directions of the flattening iterator goes wrong: on \<open>{0, 1, 5, 6}\<close>,
  a step from the front followed by a step from the back yields 1 instead of 6.
\<close>

theorem flatten_mixed_wrong:
  "\<exists>it it'. flatten_next (rs_flatten \<lparr>rs_set = [(0, 2), (5, 7)], rs_capacity = 9\<rparr>) = Some (0, it)
     \<and> flatten_next_back it = Some (1, it')"
  by (simp add: flatten_next_def flatten_next_back_def rs_flatten_def flatten_emit_def flatten_emit_back_def
      add64_def sub64_def u64_mod_def)

text \<open>
  The largest 64-bit number cannot be a member: adding it wraps its exclusive end to 0 and
  leaves the set unchanged.
\<close>

theorem add_elem_max_lost: "rs_add_elem rs u64_max = rs"
  by (simp add: rs_add_elem_def add64_def u64_max_def u64_mod_def)

end
