(* ===== verification/Codec.thy ===== *)
theory Codec
  imports Prelude Errors
begin

text \<open>
  \<open>src/codec.rs\<close>: big-endian integers, QUIC variable-length integers and byte strings.  A reader
  takes the bytes left and returns the value with the bytes left after it.  A writer appends to a
  buffer that records what has been written and how much room is left.  The accesses of the
  \<open>bytes\<close> crate (\<open>put_u16\<close>, \<open>get_u16\<close> and so on) are big-endian, as it documents.
\<close>

unbundle bit_operations_syntax

definition rbind :: "'a result \<Rightarrow> ('a \<Rightarrow> 'b result) \<Rightarrow> 'b result" where
  "rbind r f = (case r of Inl e \<Rightarrow> Inl e | Inr x \<Rightarrow> f x)"

lemma rbind_simps [simp]: "rbind (Inl e) f = Inl e" "rbind (Inr x) f = f x"
  by (simp_all add: rbind_def)

lemma rbind_Inr_iff: "rbind r f = Inr y \<longleftrightarrow> (\<exists>x. r = Inr x \<and> f x = Inr y)"
  by (cases r) auto

lemma rbind_Inl_iff: "rbind r f = Inl e \<longleftrightarrow> r = Inl e \<or> (\<exists>x. r = Inr x \<and> f x = Inl e)"
  by (cases r) auto

definition VINT_MAX :: u64 where
  "VINT_MAX = 4611686018427387903"

subsection \<open>Big-endian integers\<close>

definition be_bytes :: "nat \<Rightarrow> nat \<Rightarrow> byte list" where
  "be_bytes k n = map (\<lambda>i. word_of_nat (n div 256 ^ i)) (rev [0..<k])"

definition be_nat :: "byte list \<Rightarrow> nat" where
  "be_nat bs = foldl (\<lambda>a b. a * 256 + unat b) 0 bs"

subsection \<open>Writing\<close>

record wbuf =
  wb_out :: "byte list"
  wb_room :: usize

definition wb_new :: "usize \<Rightarrow> wbuf" where
  "wb_new room = \<lparr>wb_out = [], wb_room = room\<rparr>"

definition emit :: "byte list \<Rightarrow> wbuf \<Rightarrow> wbuf result" where
  "emit bs b =
     (if wb_room b < length bs then Inl (Err BufferTooShort)
      else Inr (b\<lparr>wb_out := wb_out b @ bs, wb_room := wb_room b - length bs\<rparr>))"

definition write_u8 :: "byte \<Rightarrow> wbuf \<Rightarrow> wbuf result" where
  "write_u8 n = emit [n]"

definition write_u16 :: "16 word \<Rightarrow> wbuf \<Rightarrow> wbuf result" where
  "write_u16 n = emit (be_bytes 2 (unat n))"

definition write_u24 :: "32 word \<Rightarrow> wbuf \<Rightarrow> wbuf result" where
  "write_u24 n = emit (word_of_nat (unat (drop_bit 16 (n AND 0x00FF0000)))
                       # be_bytes 2 (unat (ucast (n AND 0xFFFF) :: 16 word)))"

definition write_u32 :: "32 word \<Rightarrow> wbuf \<Rightarrow> wbuf result" where
  "write_u32 n = emit (be_bytes 4 (unat n))"

definition write_u64 :: "64 word \<Rightarrow> wbuf \<Rightarrow> wbuf result" where
  "write_u64 n = emit (be_bytes 8 (unat n))"

definition write_bytes :: "byte list \<Rightarrow> wbuf \<Rightarrow> wbuf result" where
  "write_bytes src = emit src"

text \<open>The length a value is encoded in; \<^const>\<open>None\<close> is the \<open>unreachable!\<close> branch.\<close>

definition encode_varint_len :: "u64 \<Rightarrow> usize option" where
  "encode_varint_len n =
     (if n \<le> 63 then Some 1
      else if n \<le> 16383 then Some 2
      else if n \<le> 1073741823 then Some 4
      else if n \<le> 4611686018427387903 then Some 8
      else None)"

definition write_varint_with_len :: "u64 \<Rightarrow> usize \<Rightarrow> wbuf \<Rightarrow> wbuf result" where
  "write_varint_with_len n len b =
     (if wb_room b < len then Inl (Err BufferTooShort)
      else if len = 1 then emit [word_of_nat n] b
      else if len = 2 then emit (be_bytes 2 (unat ((word_of_nat n :: 16 word) OR 0x4000))) b
      else if len = 4 then emit (be_bytes 4 (unat ((word_of_nat n :: 32 word) OR 0x80000000))) b
      else if len = 8 then emit (be_bytes 8 (unat ((word_of_nat n :: 64 word) OR 0xc000000000000000))) b
      else Inl Panic)"

definition write_varint :: "u64 \<Rightarrow> wbuf \<Rightarrow> wbuf result" where
  "write_varint n b =
     (case encode_varint_len n of
        None \<Rightarrow> Inl Panic
      | Some len \<Rightarrow> write_varint_with_len n len b)"

subsection \<open>Reading\<close>

type_synonym 'a reader = "byte list \<Rightarrow> ('a \<times> byte list) result"

text \<open>Splitting off the first bytes of a slice or of a buffer of the \<open>bytes\<close> library, which panics when there are fewer.\<close>

definition cut_bytes :: "nat \<Rightarrow> byte list reader" where
  "cut_bytes n b = (if length b < n then Inl Panic else Inr (take n b, drop n b))"

definition take_bytes :: "nat \<Rightarrow> byte list reader" where
  "take_bytes n b = (if length b < n then Inl (Err BufferTooShort) else cut_bytes n b)"

lemma take_bytes_eq: "take_bytes n b = (if length b < n then Inl (Err BufferTooShort) else Inr (take n b, drop n b))"
  by (simp add: take_bytes_def cut_bytes_def)

definition read_u8 :: "byte reader" where
  "read_u8 b = (case b of [] \<Rightarrow> Inl (Err BufferTooShort) | x # r \<Rightarrow> Inr (x, r))"

definition read_u16 :: "16 word reader" where
  "read_u16 b = rbind (take_bytes 2 b) (\<lambda>(bs, r). Inr (word_of_nat (be_nat bs), r))"

definition read_u24 :: "32 word reader" where
  "read_u24 b = rbind (take_bytes 3 b)
     (\<lambda>(bs, r). Inr (push_bit 8 (word_of_nat (be_nat (take 2 bs))) + ucast (bs ! 2), r))"

definition read_u32 :: "32 word reader" where
  "read_u32 b = rbind (take_bytes 4 b) (\<lambda>(bs, r). Inr (word_of_nat (be_nat bs), r))"

definition read_u64 :: "64 word reader" where
  "read_u64 b = rbind (take_bytes 8 b) (\<lambda>(bs, r). Inr (word_of_nat (be_nat bs), r))"

definition decode_varint_len :: "byte \<Rightarrow> usize option" where
  "decode_varint_len first =
     (let t = drop_bit 6 first
      in if t = 0 then Some 1 else if t = 1 then Some 2 else if t = 2 then Some 4
         else if t = 3 then Some 8 else None)"

definition read_varint :: "u64 reader" where
  "read_varint b =
     (case b of
        [] \<Rightarrow> Inl (Err BufferTooShort)
      | first # _ \<Rightarrow>
          (case decode_varint_len first of
             None \<Rightarrow> Inl Panic
           | Some len \<Rightarrow>
               if length b < len then Inl (Err BufferTooShort)
               else if len = 1 then rbind (read_u8 b) (\<lambda>(v, r). Inr (unat v, r))
               else if len = 2 then rbind (read_u16 b) (\<lambda>(v, r). Inr (unat (v AND 0x3fff), r))
               else if len = 4 then rbind (read_u32 b) (\<lambda>(v, r). Inr (unat (v AND 0x3fffffff), r))
               else if len = 8 then rbind (read_u64 b) (\<lambda>(v, r). Inr (unat (v AND 0x3fffffffffffffff), r))
               else Inl Panic))"

definition read_bytes :: "usize \<Rightarrow> byte list reader" where
  "read_bytes len = take_bytes len"

definition read_with_varint_length :: "byte list reader" where
  "read_with_varint_length b = rbind (read_varint b) (\<lambda>(len, r). read_bytes len r)"

definition read_with_u8_length :: "byte list reader" where
  "read_with_u8_length b = rbind (read_u8 b) (\<lambda>(len, r). read_bytes (unat len) r)"

definition skip_bytes :: "usize \<Rightarrow> byte list \<Rightarrow> byte list result" where
  "skip_bytes len b = (if length b < len then Inl (Err BufferTooShort) else rbind (cut_bytes len b) (\<lambda>(_, r). Inr r))"

lemma skip_bytes_eq: "skip_bytes len b = (if length b < len then Inl (Err BufferTooShort) else Inr (drop len b))"
  by (simp add: skip_bytes_def cut_bytes_def)

text \<open>Addresses are their octets.\<close>

definition write_ipv4_addr :: "byte list \<Rightarrow> wbuf \<Rightarrow> wbuf result" where
  "write_ipv4_addr octets = emit octets"

definition write_ipv6_addr :: "byte list \<Rightarrow> wbuf \<Rightarrow> wbuf result" where
  "write_ipv6_addr octets = emit octets"

definition read_ipv4_addr :: "byte list reader" where
  "read_ipv4_addr = take_bytes 4"

definition read_ipv6_addr :: "byte list reader" where
  "read_ipv6_addr = take_bytes 16"

subsection \<open>Big-endian round trip\<close>

lemma be_bytes_Suc: "be_bytes (Suc k) n = be_bytes k (n div 256) @ [word_of_nat n]"
proof -
  have "rev [0..<Suc k] = map Suc (rev [0..<k]) @ [0]"
    by (simp only: upt_conv_Cons zero_less_Suc map_Suc_upt [symmetric] rev.simps rev_map One_nat_def)
  then show ?thesis by (simp add: be_bytes_def div_mult2_eq [symmetric] comp_def del: upt_Suc)
qed

lemma be_bytes_0 [simp]: "be_bytes 0 n = []"
  by (simp add: be_bytes_def)

lemma length_be_bytes [simp]: "length (be_bytes k n) = k"
  by (simp add: be_bytes_def)

lemma be_nat_snoc: "be_nat (bs @ [b]) = be_nat bs * 256 + unat b"
  by (simp add: be_nat_def)

lemma be_nat_Nil [simp]: "be_nat [] = 0"
  by (simp add: be_nat_def)

lemma be_nat_be_bytes: "be_nat (be_bytes k n) = n mod 256 ^ k"
proof (induction k arbitrary: n)
  case (Suc k)
  have "unat (word_of_nat n :: byte) = n mod 256" by (simp add: unat_of_nat)
  with Suc show ?case
    by (simp add: be_bytes_Suc be_nat_snoc mod_mult2_eq [of n 256 "256 ^ k"] mult.commute)
qed simp

lemma be_bytes_hd: "be_bytes (Suc k) n = word_of_nat (n div 256 ^ k) # tl (be_bytes (Suc k) n)"
  by (simp add: be_bytes_def)

subsection \<open>Variable-length integers\<close>

definition varint_bytes :: "u64 \<Rightarrow> byte list" where
  "varint_bytes n =
     (if n \<le> 63 then [word_of_nat n]
      else if n \<le> 16383 then be_bytes 2 (n + 0x4000)
      else if n \<le> 1073741823 then be_bytes 4 (n + 0x80000000)
      else be_bytes 8 (n + 0xc000000000000000))"

definition vlen :: "u64 \<Rightarrow> nat" where
  "vlen n = length (varint_bytes n)"

lemma unat_take_bit: "unat (take_bit k w) = unat w mod 2 ^ k"
  by (simp only: unsigned_take_bit_eq take_bit_nat_def)

lemma and_zero_high:
  fixes w m :: "'a::len word"
  assumes "unat w < 2 ^ k" "take_bit k m = 0"
  shows "w AND m = 0"
proof (rule bit_word_eqI)
  fix i assume "i < LENGTH('a)"
  have "take_bit k w = w"
    using assms(1) by (intro word_unat_eq_iff [THEN iffD2]) (simp add: unat_take_bit)
  then have "bit w i \<Longrightarrow> i < k" by (metis bit_take_bit_iff)
  moreover have "i < k \<Longrightarrow> \<not> bit m i" using assms(2) by (metis bit_take_bit_iff bit_0_eq bot_apply bot_bool_def)
  ultimately show "bit (w AND m) i \<longleftrightarrow> bit (0 :: 'a word) i" by (auto simp: bit_and_iff)
qed

lemma or_high:
  fixes w m :: "'a::len word"
  assumes "unat w < 2 ^ k" "take_bit k m = 0" "unat w + unat m < 2 ^ LENGTH('a)"
  shows "unat (w OR m) = unat w + unat m"
proof -
  have "w OR m = w + m"
    using word_plus_and_or [of w m] and_zero_high [OF assms(1,2)] by simp
  then show ?thesis using assms(3) by (simp add: unat_word_ariths)
qed

lemma unat_and_mask: "unat (w AND mask k) = unat w mod 2 ^ k"
  by (simp only: take_bit_eq_mask [symmetric] unat_take_bit)

lemma varint_words:
  "n < 2 ^ 14 \<Longrightarrow> unat ((word_of_nat n :: 16 word) OR 0x4000) = n + 0x4000"
  "n < 2 ^ 30 \<Longrightarrow> unat ((word_of_nat n :: 32 word) OR 0x80000000) = n + 0x80000000"
  "n < 2 ^ 62 \<Longrightarrow> unat ((word_of_nat n :: 64 word) OR 0xc000000000000000) = n + 0xc000000000000000"
proof -
  show "n < 2 ^ 14 \<Longrightarrow> unat ((word_of_nat n :: 16 word) OR 0x4000) = n + 0x4000"
    using or_high [of "word_of_nat n :: 16 word" 14 "0x4000"] by (simp add: unat_of_nat take_bit_eq_mod)
  show "n < 2 ^ 30 \<Longrightarrow> unat ((word_of_nat n :: 32 word) OR 0x80000000) = n + 0x80000000"
    using or_high [of "word_of_nat n :: 32 word" 30 "0x80000000"] by (simp add: unat_of_nat take_bit_eq_mod)
  show "n < 2 ^ 62 \<Longrightarrow> unat ((word_of_nat n :: 64 word) OR 0xc000000000000000) = n + 0xc000000000000000"
    using or_high [of "word_of_nat n :: 64 word" 62 "0xc000000000000000"] by (simp add: unat_of_nat take_bit_eq_mod)
qed

lemma encode_varint_len_eq: "n \<le> VINT_MAX \<Longrightarrow> encode_varint_len n = Some (vlen n)"
  by (simp add: encode_varint_len_def vlen_def varint_bytes_def VINT_MAX_def)

lemma write_varint_emit: "n \<le> VINT_MAX \<Longrightarrow> write_varint n = emit (varint_bytes n)"
proof (rule ext)
  fix b assume n: "n \<le> VINT_MAX"
  show "write_varint n b = emit (varint_bytes n) b"
    using n varint_words [of n]
    by (auto simp: write_varint_def write_varint_with_len_def encode_varint_len_def varint_bytes_def
        VINT_MAX_def emit_def)
qed

lemma vlen_cases: "vlen n = (if n \<le> 63 then 1 else if n \<le> 16383 then 2 else if n \<le> 1073741823 then 4 else 8)"
  by (simp add: vlen_def varint_bytes_def)

lemma varint_bytes_ne [simp]: "varint_bytes n \<noteq> []"
  using vlen_cases [of n] by (auto simp: vlen_def split: if_splits)

lemma take_bytes_append [simp]: "length bs = k \<Longrightarrow> take_bytes k (bs @ rest) = Inr (bs, rest)"
  by (simp add: take_bytes_eq)

lemma decode_varint_len_nat:
  "decode_varint_len b = (let t = unat b div 64 in if t = 0 then Some 1 else if t = 1 then Some 2
     else if t = 2 then Some 4 else Some 8)"
proof -
  have d: "unat (drop_bit 6 b) = unat b div 64" by (simp add: unat_drop_bit_eq drop_bit_nat_def)
  have "unat b < 256" using unsigned_less [of b] by simp
  then have "unat b div 64 < 4" by (simp add: less_mult_imp_div_less)
  moreover have "drop_bit 6 b = 0 \<longleftrightarrow> unat b div 64 = 0" "drop_bit 6 b = 1 \<longleftrightarrow> unat b div 64 = 1"
    "drop_bit 6 b = 2 \<longleftrightarrow> unat b div 64 = 2" "drop_bit 6 b = 3 \<longleftrightarrow> unat b div 64 = 3"
    by (simp_all only: word_unat_eq_iff d) simp_all
  ultimately show ?thesis unfolding decode_varint_len_def Let_def by auto
qed

lemma be_nat_bound: "be_nat bs < 256 ^ length bs"
proof (induction bs rule: rev_induct)
  case (snoc b bs)
  have "unat b < 256" using unsigned_less [of b] by simp
  with snoc have "be_nat bs * 256 + unat b < 256 ^ length bs * 256" by linarith
  then show ?case by (simp add: be_nat_snoc)
qed simp

lemma varint_masks:
  "x < 2 ^ 16 \<Longrightarrow> unat ((word_of_nat x :: 16 word) AND 0x3fff) = x mod 2 ^ 14"
  "x < 2 ^ 32 \<Longrightarrow> unat ((word_of_nat x :: 32 word) AND 0x3fffffff) = x mod 2 ^ 30"
  "x < 2 ^ 64 \<Longrightarrow> unat ((word_of_nat x :: 64 word) AND 0x3fffffffffffffff) = x mod 2 ^ 62"
  using unat_and_mask [of "word_of_nat x :: 16 word" 14] unat_and_mask [of "word_of_nat x :: 32 word" 30]
    unat_and_mask [of "word_of_nat x :: 64 word" 62]
  by (simp_all add: mask_eq_exp_minus_1 unat_of_nat)

text \<open>What a variable-length integer reads as, by the two most significant bits of its first byte.\<close>

lemma read_varint_eq:
  "read_varint b =
     (case b of
        [] \<Rightarrow> Inl (Err BufferTooShort)
      | x # _ \<Rightarrow>
          let l = (if unat x div 64 = 0 then 1 else if unat x div 64 = 1 then 2 else if unat x div 64 = 2 then 4 else 8)
          in if length b < l then Inl (Err BufferTooShort)
             else Inr (be_nat (take l b) mod 2 ^ (8 * l - 2), drop l b))"
proof (cases b)
  case (Cons x r)
  have bd: "be_nat (take k b) < 256 ^ k" if "k \<le> length b" for k
    using be_nat_bound [of "take k b"] that by simp
  have "unat x < 256" using unsigned_less [of x] by simp
  moreover have "unat x mod 64 = unat x" if "unat x div 64 = 0" using that by simp
  ultimately show ?thesis
    using bd [of 2] bd [of 4] bd [of 8] varint_masks Cons
    by (simp add: read_varint_def decode_varint_len_nat Let_def read_u8_def read_u16_def read_u32_def
        read_u64_def take_bytes_eq be_nat_def) (auto simp: Suc_le_eq)
qed (simp add: read_varint_def)

lemma read_varint_len:
  assumes "b = x # r" "(if unat x div 64 = 0 then 1 else if unat x div 64 = 1 then 2 else if unat x div 64 = 2 then 4 else 8) = l"
    and "l \<le> length b"
  shows "read_varint b = Inr (be_nat (take l b) mod 2 ^ (8 * l - 2), drop l b)"
  unfolding read_varint_eq Let_def assms(1) list.case assms(2) using assms(3) unfolding assms(1) by simp

lemma read_varint_bytes:
  assumes "k = 2 \<and> d = 1 \<or> k = 4 \<and> d = 2 \<or> k = 8 \<and> d = 3" "n < 2 ^ (8 * k - 2)"
  shows "read_varint (be_bytes k (n + d * 2 ^ (8 * k - 2)) @ rest) = Inr (n, rest)"
proof -
  let ?v = "n + d * 2 ^ (8 * k - 2)"
  obtain j where k: "k = Suc j" using assms(1) by (cases k) auto
  have bd: "?v < 256 ^ k" using assms by auto
  have "?v div 256 ^ j div 64 = d" using assms k by (auto simp: div_mult2_eq [symmetric])
  moreover have "?v div 256 ^ j < 256" using bd k by (simp add: less_mult_imp_div_less mult.commute)
  ultimately have first: "unat (word_of_nat (?v div 256 ^ j) :: byte) div 64 = d"
    by (simp add: unat_of_nat)
  have hd: "be_bytes k ?v @ rest = word_of_nat (?v div 256 ^ j) # (tl (be_bytes k ?v) @ rest)"
    using be_bytes_hd [of j ?v] k by (metis append_Cons)
  have "(if d = 0 then 1 else if d = 1 then 2 else if d = 2 then 4 else 8) = k"
    using assms(1) by auto
  from read_varint_len [OF hd, unfolded first, OF this] show ?thesis
    using bd assms(2) by (simp add: be_nat_be_bytes)
qed

lemma read_varint_roundtrip [simp]:
  assumes "n \<le> VINT_MAX"
  shows "read_varint (varint_bytes n @ rest) = Inr (n, rest)"
proof -
  consider "n \<le> 63" | "63 < n" "n \<le> 16383" | "16383 < n" "n \<le> 1073741823" | "1073741823 < n" by linarith
  then show ?thesis
  proof cases
    case 1
    then have "unat (word_of_nat n :: byte) = n" by (simp add: unat_of_nat)
    with 1 show ?thesis by (simp add: read_varint_eq varint_bytes_def be_nat_def)
  next
    case 2
    with read_varint_bytes [of 2 1 n rest] show ?thesis by (simp add: varint_bytes_def)
  next
    case 3
    with read_varint_bytes [of 4 2 n rest] show ?thesis by (simp add: varint_bytes_def)
  next
    case 4
    with read_varint_bytes [of 8 3 n rest] assms show ?thesis by (simp add: varint_bytes_def VINT_MAX_def)
  qed
qed

subsection \<open>The contract of a wire format\<close>

text \<open>
  What the frame and packet layers rely on: a value that was written is read back, whatever
  follows it, and a reader only consumes a prefix of its input.
\<close>

locale wire_codec =
  fixes enc :: "'a \<Rightarrow> byte list"
    and rd :: "'a reader"
    and valid :: "'a \<Rightarrow> bool"
  assumes roundtrip: "valid x \<Longrightarrow> rd (enc x @ rest) = Inr (x, rest)"
    and consumes: "rd b = Inr (x, r) \<Longrightarrow> \<exists>u. b = u @ r"
begin

lemma prefix_free:
  assumes "valid x" "valid y" "enc x @ r = enc y @ r'"
  shows "x = y \<and> r = r'"
proof -
  have "Inr (x, r) = (Inr (y, r') :: ('a \<times> byte list) result)"
    using roundtrip [OF assms(1), of r] roundtrip [OF assms(2), of r'] unfolding assms(3) by (rule trans [OF sym])
  then show ?thesis by simp
qed

lemma decode_whole: "valid x \<Longrightarrow> rd (enc x) = Inr (x, [])"
  using roundtrip [of x "[]"] by simp

lemma decode_length: "rd b = Inr (x, r) \<Longrightarrow> length r \<le> length b"
  by (drule consumes) auto

end

lemma take_bytes_consumes: "take_bytes n b = Inr (x, r) \<Longrightarrow> b = x @ r \<and> length x = n"
  by (auto simp: take_bytes_eq split: if_splits)

lemma read_varint_cases:
  obtains (short) "read_varint b = Inl (Err BufferTooShort)"
  | (ok) v r u where "read_varint b = Inr (v, r)" "b = u @ r" "u \<noteq> []" "v \<le> VINT_MAX"
proof (cases b)
  case Nil
  then have "read_varint b = Inl (Err BufferTooShort)" by (simp add: read_varint_def)
  then show thesis by (rule short)
next
  case (Cons x xs)
  define l :: nat where "l = (if unat x div 64 = 0 then 1 else if unat x div 64 = 1 then 2 else if unat x div 64 = 2 then 4 else 8)"
  have l: "l = 1 \<or> l = 2 \<or> l = 4 \<or> l = 8" by (simp add: l_def)
  show thesis
  proof (cases "length b < l")
    case True
    then have "read_varint b = Inl (Err BufferTooShort)"
      using read_varint_eq [of b] unfolding Cons list.case Let_def l_def [symmetric] by simp
    then show thesis by (rule short)
  next
    case False
    let ?v = "be_nat (take l b) mod 2 ^ (8 * l - 2)"
    have 1: "read_varint b = Inr (?v, drop l b)"
      using False by (intro read_varint_len [OF Cons]) (simp_all add: l_def)
    have "?v < 2 ^ (8 * l - 2)" by simp
    also have "(2::nat) ^ (8 * l - 2) \<le> 2 ^ 62" using l by (intro power_increasing) auto
    finally have 2: "?v \<le> VINT_MAX" by (simp add: VINT_MAX_def)
    have 3: "take l b \<noteq> []" using l Cons by auto
    show thesis by (rule ok [OF 1 _ 3 2]) simp
  qed
qed

lemma read_varintE:
  assumes "read_varint b = Inr (v, r)"
  obtains u where "b = u @ r" "u \<noteq> []" "v \<le> VINT_MAX"
  using assms by (cases rule: read_varint_cases [of b]) auto

interpretation vi: wire_codec varint_bytes read_varint "\<lambda>n. n \<le> VINT_MAX"
  by unfold_locales (auto elim: read_varintE)

definition len_bytes :: "byte list \<Rightarrow> byte list" where
  "len_bytes bs = varint_bytes (length bs) @ bs"

lemma read_with_varint_length_consumes:
  assumes "read_with_varint_length b = Inr (x, r)"
  shows "\<exists>u. b = u @ r \<and> u \<noteq> []"
proof -
  obtain n r' where "read_varint b = Inr (n, r')" "take_bytes n r' = Inr (x, r)"
    using assms by (auto simp: read_with_varint_length_def read_bytes_def rbind_Inr_iff)
  then show ?thesis using read_varintE [of b n r'] take_bytes_consumes [of n r' x r] by fastforce
qed

interpretation lb: wire_codec len_bytes read_with_varint_length "\<lambda>bs. length bs \<le> VINT_MAX"
proof unfold_locales
  fix b x r assume "read_with_varint_length b = Inr (x, r)"
  then show "\<exists>u. b = u @ r" using read_with_varint_length_consumes by blast
qed (simp add: len_bytes_def read_with_varint_length_def read_bytes_def)

definition len8_bytes :: "byte list \<Rightarrow> byte list" where
  "len8_bytes bs = word_of_nat (length bs) # bs"

lemma read_with_u8_length_consumes:
  assumes "read_with_u8_length b = Inr (x, r)"
  shows "\<exists>u. b = u @ r \<and> u \<noteq> []"
  using assms take_bytes_consumes
  by (fastforce simp: read_with_u8_length_def read_bytes_def read_u8_def rbind_Inr_iff split: list.splits)

interpretation l8: wire_codec len8_bytes read_with_u8_length "\<lambda>bs. length bs < 256"
proof unfold_locales
  fix b x r assume "read_with_u8_length b = Inr (x, r)"
  then show "\<exists>u. b = u @ r" using read_with_u8_length_consumes by blast
qed (simp add: len8_bytes_def read_with_u8_length_def read_bytes_def read_u8_def unat_of_nat)

lemma word_be_roundtrip:
  fixes n :: "'a::len word"
  assumes "2 ^ LENGTH('a) = (256 :: nat) ^ k"
  shows "word_of_nat (be_nat (be_bytes k (unat n))) = n"
proof -
  have "unat n < 2 ^ LENGTH('a)" by (rule unsigned_less)
  then have "unat n < 256 ^ k" unfolding assms .
  then show ?thesis by (simp add: be_nat_be_bytes)
qed

interpretation w16: wire_codec "\<lambda>n. be_bytes 2 (unat n)" read_u16 "\<lambda>_. True"
  using take_bytes_consumes
  by unfold_locales (fastforce simp: read_u16_def word_be_roundtrip rbind_Inr_iff)+

interpretation w32: wire_codec "\<lambda>n. be_bytes 4 (unat n)" read_u32 "\<lambda>_. True"
  using take_bytes_consumes
  by unfold_locales (fastforce simp: read_u32_def word_be_roundtrip rbind_Inr_iff)+

interpretation w64: wire_codec "\<lambda>n. be_bytes 8 (unat n)" read_u64 "\<lambda>_. True"
  using take_bytes_consumes
  by unfold_locales (fastforce simp: read_u64_def word_be_roundtrip rbind_Inr_iff)+

subsection \<open>Properties\<close>

text \<open>
  C32.  Variable-length integers round-trip: a number up to \<open>VINT_MAX\<close> is written in the length
  \<open>encode_varint_len\<close> announces when there is room, reading it back yields the number and leaves
  what follows, and without room the write fails with \<open>BufferTooShort\<close>.
\<close>

theorem varint_roundtrip:
  assumes "n \<le> VINT_MAX"
  shows "\<exists>bs. encode_varint_len n = Some (length bs) \<and> length bs \<in> {1, 2, 4, 8}
    \<and> (\<forall>rest. read_varint (bs @ rest) = Inr (n, rest))
    \<and> (\<forall>b. write_varint n b =
          (if wb_room b < length bs then Inl (Err BufferTooShort)
           else Inr (b\<lparr>wb_out := wb_out b @ bs, wb_room := wb_room b - length bs\<rparr>)))"
  using assms
  by (intro exI [of _ "varint_bytes n"])
     (simp add: encode_varint_len_eq write_varint_emit emit_def vlen_def [symmetric] vlen_cases)

theorem varint_roundtrip_witness:
  "\<exists>bs. encode_varint_len 16384 = Some (length bs) \<and> read_varint (bs @ [7]) = Inr (16384, [7])"
  using varint_roundtrip [of 16384] by (auto simp: VINT_MAX_def)

text \<open>
  Reading a variable-length integer is safe on every input: it never panics, fails only with
  \<open>BufferTooShort\<close>, and otherwise consumes at least one byte and returns a number up to \<open>VINT_MAX\<close>.
\<close>

theorem read_varint_safe:
  "read_varint b = Inl (Err BufferTooShort)
   \<or> (\<exists>v u r. read_varint b = Inr (v, r) \<and> b = u @ r \<and> u \<noteq> [] \<and> v \<le> VINT_MAX)"
  by (cases rule: read_varint_cases [of b]) auto

text \<open>
  Writing a number above \<open>VINT_MAX\<close> as a variable-length integer panics.
\<close>

theorem write_varint_panics: "write_varint n b = Inl Panic \<longleftrightarrow> VINT_MAX < n"
proof (cases "n \<le> VINT_MAX")
  case True
  then show ?thesis by (simp add: write_varint_emit emit_def)
qed (simp add: write_varint_def encode_varint_len_def VINT_MAX_def)

end
