(* ===== verification/Frame.thy ===== *)
theory Frame
  imports Codec Ranges
begin

text \<open>
  \<open>src/frame.rs\<close>: QUIC frames, their encoding, decoding and encoded length, and their
  classification.  A connection identifier (\<open>ConnectionId\<close> of \<open>src/lib.rs\<close>) is the list of its
  octets, a reset token its 16 octets.
\<close>

definition MAX_CID_LEN :: nat where
  "MAX_CID_LEN = 20"

definition MAX_STREAM_SIZE :: u64 where
  "MAX_STREAM_SIZE = 2 ^ 62"

definition cid_new :: "byte list \<Rightarrow> byte list" where
  "cid_new bytes = take (min (length bytes) MAX_CID_LEN) bytes"

datatype packet_type = VersionNegotiation | Initial | ZeroRTT | Handshake | Retry | OneRTT

record ecn_counts =
  ect0_count :: u64
  ect1_count :: u64
  ecn_ce_count :: u64

text \<open>The arguments are in the order of the source's fields.\<close>

datatype frame =
    Paddings usize
  | Ping "(usize \<times> usize) option"
  | Ack u64 range_set "ecn_counts option"
  | ResetStream u64 u64 u64
  | StopSending u64 u64
  | Crypto u64 usize "byte list"
  | NewToken "byte list"
  | Stream u64 u64 usize bool "byte list"
  | MaxData u64
  | MaxStreamData u64 u64
  | MaxStreams bool u64
  | DataBlocked u64
  | StreamDataBlocked u64 u64
  | StreamsBlocked bool u64
  | NewConnectionId u64 u64 "byte list" "byte list"
  | RetireConnectionId u64
  | PathChallenge "byte list"
  | PathResponse "byte list"
  | ConnectionClose u64 u64 "byte list"
  | ApplicationClose u64 "byte list"
  | HandshakeDone
  | PathAbandon u64 u64 "byte list"
  | PathStatus u64 u64 u64

subsection \<open>Decoding\<close>

fun skip_zeros :: "nat \<Rightarrow> byte list \<Rightarrow> nat \<times> byte list" where
  "skip_zeros n [] = (n, [])"
| "skip_zeros n (x # b) = (if x = 0 then skip_zeros (n + 1) b else (n, x # b))"

fun ack_loop :: "nat \<Rightarrow> u64 \<Rightarrow> range_set \<Rightarrow> byte list \<Rightarrow> (range_set \<times> byte list) result" where
  "ack_loop 0 smallest_ack ack_ranges b = Inr (ack_ranges, b)"
| "ack_loop (Suc n) smallest_ack ack_ranges b =
     rbind (read_varint b) (\<lambda>(gap, b).
       if smallest_ack < add64 2 gap then Inl (Err FrameEncodingError)
       else
         let largest_ack = sub64 (sub64 smallest_ack gap) 2
         in rbind (read_varint b) (\<lambda>(ack_range_len, b).
              if largest_ack < ack_range_len then Inl (Err FrameEncodingError)
              else
                let smallest = sub64 largest_ack ack_range_len
                in ack_loop n smallest (rs_insert ack_ranges (smallest, add64 largest_ack 1)) b))"

definition read_ecn :: "ecn_counts reader" where
  "read_ecn b =
     rbind (read_varint b) (\<lambda>(c0, b).
     rbind (read_varint b) (\<lambda>(c1, b).
     rbind (read_varint b) (\<lambda>(ce, b).
       Inr (\<lparr>ect0_count = c0, ect1_count = c1, ecn_ce_count = ce\<rparr>, b))))"

definition parse_ack_frame :: "u64 \<Rightarrow> frame reader" where
  "parse_ack_frame frame_type b =
     rbind (read_varint b) (\<lambda>(largest_ack, b).
     rbind (read_varint b) (\<lambda>(ack_delay, b).
     rbind (read_varint b) (\<lambda>(range_count, b).
     rbind (read_varint b) (\<lambda>(ack_range_len, b).
       if largest_ack < ack_range_len then Inl (Err FrameEncodingError)
       else
         let smallest_ack = sub64 largest_ack ack_range_len;
             ack_ranges = rs_insert rs_default (smallest_ack, add64 largest_ack 1)
         in rbind (ack_loop range_count smallest_ack ack_ranges b) (\<lambda>(ack_ranges, b).
              if (word_of_nat frame_type :: byte) AND 0x01 \<noteq> 0
              then rbind (read_ecn b) (\<lambda>(ecn, b). Inr (Ack ack_delay ack_ranges (Some ecn), b))
              else Inr (Ack ack_delay ack_ranges None, b))))))"

text \<open>
  The data of a frame is a slice of the whole buffer from where the rest \<open>b\<close> begins, that is, the first bytes
  of the rest; a slice beyond the end panics.
\<close>

definition parse_crypto :: "frame reader" where
  "parse_crypto b =
     rbind (read_varint b) (\<lambda>(offset, b).
     rbind (read_varint b) (\<lambda>(length', b).
       if length' > length b then Inl (Err BufferTooShort)
       else rbind (cut_bytes length' b) (\<lambda>(data, _).
            rbind (skip_bytes length' b) (\<lambda>b'. Inr (Crypto offset length' data, b')))))"

definition parse_stream :: "u64 \<Rightarrow> frame reader" where
  "parse_stream frame_type b =
     (let first = (word_of_nat frame_type :: byte)
      in rbind (read_varint b) (\<lambda>(stream_id, b).
         rbind (if first AND 0x04 \<noteq> 0 then read_varint b else Inr (0, b)) (\<lambda>(offset, b).
         rbind (if first AND 0x02 \<noteq> 0 then read_varint b else Inr (length b, b)) (\<lambda>(length', b).
           if add64 offset length' \<ge> MAX_STREAM_SIZE then Inl (Err FrameEncodingError)
           else if length' > length b then Inl (Err BufferTooShort)
           else rbind (cut_bytes length' b) (\<lambda>(data, _).
                rbind (skip_bytes length' b) (\<lambda>b'.
                  Inr (Stream stream_id offset length' (first AND 0x01 \<noteq> 0) data, b')))))))"

definition read2 :: "(u64 \<Rightarrow> u64 \<Rightarrow> 'a) \<Rightarrow> 'a reader" where
  "read2 f b = rbind (read_varint b) (\<lambda>(x, b). rbind (read_varint b) (\<lambda>(y, b). Inr (f x y, b)))"

definition read3 :: "(u64 \<Rightarrow> u64 \<Rightarrow> u64 \<Rightarrow> 'a) \<Rightarrow> 'a reader" where
  "read3 f b = rbind (read_varint b) (\<lambda>(x, b). read2 (f x) b)"

definition read1 :: "(u64 \<Rightarrow> 'a) \<Rightarrow> 'a reader" where
  "read1 f b = rbind (read_varint b) (\<lambda>(x, b). Inr (f x, b))"

definition rmap :: "('a \<Rightarrow> 'b) \<Rightarrow> 'a reader \<Rightarrow> 'b reader" where
  "rmap f p b = rbind (p b) (\<lambda>(x, b). Inr (f x, b))"

definition parse_new_cid :: "frame reader" where
  "parse_new_cid b =
     rbind (read_varint b) (\<lambda>(seq_num, b).
     rbind (read_varint b) (\<lambda>(retire_prior_to, b).
     rbind (read_with_u8_length b) (\<lambda>(cid, b).
     rbind (read_bytes 16 b) (\<lambda>(token, b).
       Inr (NewConnectionId seq_num retire_prior_to (cid_new cid) token, b)))))"

definition parse_close :: "frame reader" where
  "parse_close b =
     rbind (read_varint b) (\<lambda>(error_code, b).
     rbind (read_varint b) (\<lambda>(frame_type, b).
     rbind (read_with_varint_length b) (\<lambda>(reason, b).
       Inr (ConnectionClose error_code frame_type reason, b))))"

definition parse_app_close :: "frame reader" where
  "parse_app_close b =
     rbind (read_varint b) (\<lambda>(error_code, b).
     rbind (read_with_varint_length b) (\<lambda>(reason, b).
       Inr (ApplicationClose error_code reason, b)))"

definition parse_path_abandon :: "frame reader" where
  "parse_path_abandon b =
     rbind (read_varint b) (\<lambda>(dcid_seq_num, b).
     rbind (read_varint b) (\<lambda>(error_code, b).
     rbind (read_with_varint_length b) (\<lambda>(reason, b).
       Inr (PathAbandon dcid_seq_num error_code reason, b))))"

definition parse_body :: "u64 \<Rightarrow> frame reader" where
  "parse_body frame_type b =
     (if frame_type = 0x00 then (let (len, b') = skip_zeros 1 b in Inr (Paddings len, b'))
      else if frame_type = 0x01 then Inr (Ping None, b)
      else if frame_type \<in> {0x02..0x03} then parse_ack_frame frame_type b
      else if frame_type = 0x04 then read3 ResetStream b
      else if frame_type = 0x05 then read2 StopSending b
      else if frame_type = 0x06 then parse_crypto b
      else if frame_type = 0x07 then rmap NewToken read_with_varint_length b
      else if frame_type \<in> {0x08..0x0f} then parse_stream frame_type b
      else if frame_type = 0x10 then read1 MaxData b
      else if frame_type = 0x11 then read2 MaxStreamData b
      else if frame_type = 0x12 then read1 (MaxStreams True) b
      else if frame_type = 0x13 then read1 (MaxStreams False) b
      else if frame_type = 0x14 then read1 DataBlocked b
      else if frame_type = 0x15 then read2 StreamDataBlocked b
      else if frame_type = 0x16 then read1 (StreamsBlocked True) b
      else if frame_type = 0x17 then read1 (StreamsBlocked False) b
      else if frame_type = 0x18 then parse_new_cid b
      else if frame_type = 0x19 then read1 RetireConnectionId b
      else if frame_type = 0x1a then rmap PathChallenge (read_bytes 8) b
      else if frame_type = 0x1b then rmap PathResponse (read_bytes 8) b
      else if frame_type = 0x1c then parse_close b
      else if frame_type = 0x1d then parse_app_close b
      else if frame_type = 0x1e then Inr (HandshakeDone, b)
      else if frame_type = 0x15228c05 then parse_path_abandon b
      else if frame_type = 0x15228c06 then read3 PathStatus b
      else Inl (Err FrameEncodingError))"

definition validate_frame :: "packet_type \<Rightarrow> frame \<Rightarrow> bool" where
  "validate_frame pkt_type frame =
     (case frame of
        Paddings _ \<Rightarrow> True
      | Ping _ \<Rightarrow> True
      | Ack _ _ _ \<Rightarrow> pkt_type \<noteq> ZeroRTT
      | Crypto _ _ _ \<Rightarrow> pkt_type \<noteq> ZeroRTT
      | ConnectionClose _ _ _ \<Rightarrow> pkt_type \<noteq> ZeroRTT
      | HandshakeDone \<Rightarrow> pkt_type = OneRTT
      | NewToken _ \<Rightarrow> pkt_type = OneRTT
      | PathResponse _ \<Rightarrow> pkt_type = OneRTT
      | RetireConnectionId _ \<Rightarrow> pkt_type = OneRTT
      | _ \<Rightarrow> pkt_type = OneRTT \<or> pkt_type = ZeroRTT)"

definition from_bytes :: "byte list \<Rightarrow> packet_type \<Rightarrow> (frame \<times> usize) result" where
  "from_bytes buf pkt =
     rbind (read_varint buf) (\<lambda>(frame_type, b).
     rbind (parse_body frame_type b) (\<lambda>(frame, b).
       if validate_frame pkt frame then Inr (frame, length buf - length b)
       else Inl (Err InvalidPacket)))"

subsection \<open>Encoding\<close>

fun seqw :: "(wbuf \<Rightarrow> wbuf result) list \<Rightarrow> wbuf \<Rightarrow> wbuf result" where
  "seqw [] b = Inr b"
| "seqw (w # ws) b = rbind (w b) (seqw ws)"

definition encode_crypto_header :: "u64 \<Rightarrow> u64 \<Rightarrow> wbuf \<Rightarrow> wbuf result" where
  "encode_crypto_header offset length' =
     seqw [write_varint 0x06, write_varint offset, write_varint_with_len length' 2]"

definition encode_stream_header :: "u64 \<Rightarrow> u64 \<Rightarrow> u64 \<Rightarrow> bool \<Rightarrow> wbuf \<Rightarrow> wbuf result" where
  "encode_stream_header stream_id offset length' fin =
     (let frame_type = (if fin then (0x0e :: byte) OR 0x01 else 0x0e)
      in seqw [write_varint (unat frame_type), write_varint stream_id, write_varint offset,
               write_varint_with_len length' 2])"

fun ack_range_writes :: "u64 \<Rightarrow> range list \<Rightarrow> (wbuf \<Rightarrow> wbuf result) list" where
  "ack_range_writes smallest_ack [] = []"
| "ack_range_writes smallest_ack ((start, stop) # it) =
     write_varint (sub64 (sub64 smallest_ack stop) 1) # write_varint (sub64 (sub64 stop 1) start)
       # ack_range_writes start it"

definition ecn_writes :: "ecn_counts option \<Rightarrow> (wbuf \<Rightarrow> wbuf result) list" where
  "ecn_writes ecn_counts =
     (case ecn_counts of
        None \<Rightarrow> []
      | Some ecn \<Rightarrow> [write_varint (ect0_count ecn), write_varint (ect1_count ecn), write_varint (ecn_ce_count ecn)])"

definition write_ack :: "u64 \<Rightarrow> range_set \<Rightarrow> ecn_counts option \<Rightarrow> wbuf \<Rightarrow> wbuf result" where
  "write_ack ack_delay ack_ranges ecn_counts b =
     rbind (write_varint (if ecn_counts = None then 0x02 else 0x03) b) (\<lambda>b.
       case rev (rs_set ack_ranges) of
         [] \<Rightarrow> Inl Panic
       | (start, stop) # it \<Rightarrow>
           seqw ([write_varint (sub64 stop 1), write_varint ack_delay, write_varint (length it),
                  write_varint (sub64 (sub64 stop 1) start)]
                 @ ack_range_writes start it @ ecn_writes ecn_counts) b)"

fun write_frame :: "frame \<Rightarrow> wbuf \<Rightarrow> wbuf result" where
  "write_frame (Paddings len) = seqw (replicate len (write_varint 0x00))"
| "write_frame (Ping _) = write_varint 0x01"
| "write_frame (Ack ack_delay ack_ranges ecn_counts) = write_ack ack_delay ack_ranges ecn_counts"
| "write_frame (ResetStream stream_id error_code final_size) =
     seqw [write_varint 0x04, write_varint stream_id, write_varint error_code, write_varint final_size]"
| "write_frame (StopSending stream_id error_code) =
     seqw [write_varint 0x05, write_varint stream_id, write_varint error_code]"
| "write_frame (Crypto offset length' data) = seqw [encode_crypto_header offset length', write_bytes data]"
| "write_frame (NewToken token) = seqw [write_varint 0x07, write_varint (length token), write_bytes token]"
| "write_frame (Stream stream_id offset length' fin data) =
     seqw [encode_stream_header stream_id offset length' fin, write_bytes data]"
| "write_frame (MaxData limit) = seqw [write_varint 0x10, write_varint limit]"
| "write_frame (MaxStreamData stream_id limit) = seqw [write_varint 0x11, write_varint stream_id, write_varint limit]"
| "write_frame (MaxStreams bidi limit) = seqw [write_varint (if bidi then 0x12 else 0x13), write_varint limit]"
| "write_frame (DataBlocked limit) = seqw [write_varint 0x14, write_varint limit]"
| "write_frame (StreamDataBlocked stream_id limit) = seqw [write_varint 0x15, write_varint stream_id, write_varint limit]"
| "write_frame (StreamsBlocked bidi limit) = seqw [write_varint (if bidi then 0x16 else 0x17), write_varint limit]"
| "write_frame (NewConnectionId seq_num retire_prior_to conn_id reset_token) =
     seqw [write_varint 0x18, write_varint seq_num, write_varint retire_prior_to,
           write_u8 (word_of_nat (length conn_id)), write_bytes conn_id, write_bytes reset_token]"
| "write_frame (RetireConnectionId seq_num) = seqw [write_varint 0x19, write_varint seq_num]"
| "write_frame (PathChallenge data) = seqw [write_varint 0x1a, write_bytes data]"
| "write_frame (PathResponse data) = seqw [write_varint 0x1b, write_bytes data]"
| "write_frame (ConnectionClose error_code frame_type reason) =
     seqw [write_varint 0x1c, write_varint error_code, write_varint frame_type,
           write_varint (length reason), write_bytes reason]"
| "write_frame (ApplicationClose error_code reason) =
     seqw [write_varint 0x1d, write_varint error_code, write_varint (length reason), write_bytes reason]"
| "write_frame HandshakeDone = write_varint 0x1e"
| "write_frame (PathAbandon dcid_seq_num error_code reason) =
     seqw [write_varint 0x15228c05, write_varint dcid_seq_num, write_varint error_code,
           write_varint (length reason), write_bytes reason]"
| "write_frame (PathStatus dcid_seq_num seq_num status) =
     seqw [write_varint 0x15228c06, write_varint dcid_seq_num, write_varint seq_num, write_varint status]"

definition to_bytes :: "frame \<Rightarrow> usize \<Rightarrow> (byte list \<times> usize) result" where
  "to_bytes frame room = rbind (write_frame frame (wb_new room)) (\<lambda>b. Inr (wb_out b, room - wb_room b))"

subsection \<open>Encoded length and classification\<close>

text \<open>\<open>vsum k ns\<close> adds the encoded lengths of \<open>ns\<close> to \<open>k\<close>; \<^const>\<open>None\<close> is the panic of \<open>encode_varint_len\<close>.\<close>

fun vsum :: "usize \<Rightarrow> u64 list \<Rightarrow> usize option" where
  "vsum k [] = Some k"
| "vsum k (n # ns) = (case encode_varint_len n of None \<Rightarrow> None | Some l \<Rightarrow> vsum (k + l) ns)"

fun ack_range_nums :: "u64 \<Rightarrow> range list \<Rightarrow> u64 list" where
  "ack_range_nums smallest_ack [] = []"
| "ack_range_nums smallest_ack ((start, stop) # it) =
     sub64 (sub64 smallest_ack stop) 1 # sub64 (sub64 stop 1) start # ack_range_nums start it"

definition ecn_nums :: "ecn_counts option \<Rightarrow> u64 list" where
  "ecn_nums e = (case e of None \<Rightarrow> [] | Some ecn \<Rightarrow> [ect0_count ecn, ect1_count ecn, ecn_ce_count ecn])"

definition ack_wire_len :: "u64 \<Rightarrow> range_set \<Rightarrow> ecn_counts option \<Rightarrow> usize option" where
  "ack_wire_len ack_delay ack_ranges ecn_counts =
     (case rev (rs_set ack_ranges) of
        [] \<Rightarrow> None
      | (start, stop) # it \<Rightarrow>
          vsum 1 ([sub64 stop 1, ack_delay, length it, sub64 (sub64 stop 1) start]
                  @ ack_range_nums start it @ ecn_nums ecn_counts))"

fun wire_len :: "frame \<Rightarrow> usize option" where
  "wire_len (Paddings len) = Some len"
| "wire_len (Ping _) = Some 1"
| "wire_len (Ack ack_delay ack_ranges ecn_counts) = ack_wire_len ack_delay ack_ranges ecn_counts"
| "wire_len (ResetStream stream_id error_code final_size) = vsum 1 [stream_id, error_code, final_size]"
| "wire_len (StopSending stream_id error_code) = vsum 1 [stream_id, error_code]"
| "wire_len (Crypto offset _ data) = vsum (1 + 2 + length data) [offset]"
| "wire_len (NewToken token) = vsum (1 + length token) [length token]"
| "wire_len (Stream stream_id offset _ _ data) = vsum (1 + 2 + length data) [stream_id, offset]"
| "wire_len (MaxData limit) = vsum 1 [limit]"
| "wire_len (MaxStreamData stream_id limit) = vsum 1 [stream_id, limit]"
| "wire_len (MaxStreams _ limit) = vsum 1 [limit]"
| "wire_len (DataBlocked limit) = vsum 1 [limit]"
| "wire_len (StreamDataBlocked stream_id limit) = vsum 1 [stream_id, limit]"
| "wire_len (StreamsBlocked _ limit) = vsum 1 [limit]"
| "wire_len (NewConnectionId seq_num retire_prior_to conn_id reset_token) =
     vsum (1 + 1 + length conn_id + length reset_token) [seq_num, retire_prior_to]"
| "wire_len (RetireConnectionId seq_num) = vsum 1 [seq_num]"
| "wire_len (PathChallenge _) = Some (1 + 8)"
| "wire_len (PathResponse _) = Some (1 + 8)"
| "wire_len (ConnectionClose error_code frame_type reason) =
     vsum (1 + length reason) [error_code, frame_type, length reason]"
| "wire_len (ApplicationClose error_code reason) = vsum (1 + length reason) [error_code, length reason]"
| "wire_len HandshakeDone = Some 1"
| "wire_len (PathAbandon dcid_seq_num error_code reason) =
     vsum (4 + length reason) [dcid_seq_num, error_code, length reason]"
| "wire_len (PathStatus dcid_seq_num seq_num status) = vsum 4 [dcid_seq_num, seq_num, status]"

definition crypto_header_wire_len :: "u64 \<Rightarrow> usize option" where
  "crypto_header_wire_len offset = vsum (1 + 2) [offset]"

definition stream_header_wire_len :: "u64 \<Rightarrow> u64 \<Rightarrow> usize option" where
  "stream_header_wire_len stream_id offset = vsum (1 + 2) [stream_id, offset]"

fun ack_eliciting :: "frame \<Rightarrow> bool" where
  "ack_eliciting (Paddings _) = False"
| "ack_eliciting (Ack _ _ _) = False"
| "ack_eliciting (ApplicationClose _ _) = False"
| "ack_eliciting (ConnectionClose _ _ _) = False"
| "ack_eliciting _ = True"

fun probing :: "frame \<Rightarrow> bool" where
  "probing (Paddings _) = True"
| "probing (NewConnectionId _ _ _ _) = True"
| "probing (PathChallenge _) = True"
| "probing (PathResponse _) = True"
| "probing _ = False"

end
