(* ===== verification/FrameWire.thy ===== *)
theory FrameWire
  imports Frame
begin

text \<open>
  Properties of the frame layer (\<open>src/frame.rs\<close>): encoding and decoding are inverse, the announced
  encoded length is the real one, and decoding is safe on arbitrary input.
\<close>

subsection \<open>Sequences of writes\<close>

lemma rbind_emit: "(\<lambda>b. rbind (emit x b) (emit y)) = emit (x @ y)"
  by (auto simp: emit_def fun_eq_iff)

lemma seqw_Nil: "seqw [] = emit []"
  by (auto simp: emit_def fun_eq_iff)

lemma seqw_emit: "w = emit x \<Longrightarrow> seqw ws = emit y \<Longrightarrow> seqw (w # ws) = emit (x @ y)"
proof -
  assume "w = emit x" "seqw ws = emit y"
  then have "seqw (w # ws) = (\<lambda>b. rbind (emit x b) (emit y))" by (intro ext) simp
  then show ?thesis by (simp only: rbind_emit)
qed

lemma seqw_then: "seqw (xs @ ys) = (\<lambda>b. rbind (seqw xs b) (seqw ys))"
proof (induction xs)
  case (Cons w ws)
  show ?case by (rule ext) (simp add: Cons rbind_def split: sum.split)
qed simp

lemma seqw_append: "seqw xs = emit x \<Longrightarrow> seqw ys = emit y \<Longrightarrow> seqw (xs @ ys) = emit (x @ y)"
  by (simp only: seqw_then rbind_emit)

definition nums_bytes :: "u64 list \<Rightarrow> byte list" where
  "nums_bytes ns = concat (map varint_bytes ns)"

lemma nums_bytes_simps [simp]:
  "nums_bytes [] = []" "nums_bytes (n # ns) = varint_bytes n @ nums_bytes ns"
  by (simp_all add: nums_bytes_def)

lemma seqw_nums: "\<forall>n \<in> set ns. n \<le> VINT_MAX \<Longrightarrow> seqw (map write_varint ns) = emit (nums_bytes ns)"
  by (induction ns) (simp_all add: seqw_Nil seqw_emit write_varint_emit del: seqw.simps)

lemma seqw_write_varint:
  assumes "n \<le> VINT_MAX" "seqw ws = emit y"
  shows "seqw (write_varint n # ws) = emit (varint_bytes n @ y)"
  using assms by (intro seqw_emit) (simp_all add: write_varint_emit)

lemma seqw_write_bytes:
  "seqw ws = emit y \<Longrightarrow> seqw (write_bytes bs # ws) = emit (bs @ y)"
  "seqw ws = emit y \<Longrightarrow> seqw (write_u8 c # ws) = emit ([c] @ y)"
  unfolding write_bytes_def write_u8_def by (rule seqw_emit [OF refl], assumption)+

lemma vsum_nums: "\<forall>n \<in> set ns. n \<le> VINT_MAX \<Longrightarrow> vsum k ns = Some (k + length (nums_bytes ns))"
  by (induction ns arbitrary: k) (auto simp: encode_varint_len_eq vlen_def)

subsection \<open>The bytes of a frame\<close>

definition type_bytes :: "u64 \<Rightarrow> byte list" where
  "type_bytes t = varint_bytes t"

text \<open>A length field of two bytes, as the headers of CRYPTO and STREAM frames use it.\<close>

definition len2_bytes :: "nat \<Rightarrow> byte list" where
  "len2_bytes n = be_bytes 2 (n + 0x4000)"

definition ack_nums :: "u64 \<Rightarrow> range_set \<Rightarrow> u64 list" where
  "ack_nums delay rs =
     (case rev (rs_set rs) of
        [] \<Rightarrow> []
      | (start, stop) # it \<Rightarrow> [sub64 stop 1, delay, length it, sub64 (sub64 stop 1) start] @ ack_range_nums start it)"

fun frame_bytes :: "frame \<Rightarrow> byte list" where
  "frame_bytes (Paddings len) = replicate len 0"
| "frame_bytes (Ping _) = type_bytes 0x01"
| "frame_bytes (Ack d rs e) = type_bytes (if e = None then 2 else 3) @ nums_bytes (ack_nums d rs @ ecn_nums e)"
| "frame_bytes (ResetStream a b c) = type_bytes 0x04 @ nums_bytes [a, b, c]"
| "frame_bytes (StopSending a b) = type_bytes 0x05 @ nums_bytes [a, b]"
| "frame_bytes (Crypto off _ data) = type_bytes 0x06 @ varint_bytes off @ len2_bytes (length data) @ data"
| "frame_bytes (NewToken t) = type_bytes 0x07 @ len_bytes t"
| "frame_bytes (Stream sid off _ fin data) =
     type_bytes (if fin then 0x0f else 0x0e) @ nums_bytes [sid, off] @ len2_bytes (length data) @ data"
| "frame_bytes (MaxData m) = type_bytes 0x10 @ nums_bytes [m]"
| "frame_bytes (MaxStreamData s m) = type_bytes 0x11 @ nums_bytes [s, m]"
| "frame_bytes (MaxStreams bidi m) = type_bytes (if bidi then 0x12 else 0x13) @ nums_bytes [m]"
| "frame_bytes (DataBlocked m) = type_bytes 0x14 @ nums_bytes [m]"
| "frame_bytes (StreamDataBlocked s m) = type_bytes 0x15 @ nums_bytes [s, m]"
| "frame_bytes (StreamsBlocked bidi m) = type_bytes (if bidi then 0x16 else 0x17) @ nums_bytes [m]"
| "frame_bytes (NewConnectionId s r cid tok) = type_bytes 0x18 @ nums_bytes [s, r] @ len8_bytes cid @ tok"
| "frame_bytes (RetireConnectionId s) = type_bytes 0x19 @ nums_bytes [s]"
| "frame_bytes (PathChallenge data) = type_bytes 0x1a @ data"
| "frame_bytes (PathResponse data) = type_bytes 0x1b @ data"
| "frame_bytes (ConnectionClose e t r) = type_bytes 0x1c @ nums_bytes [e, t] @ len_bytes r"
| "frame_bytes (ApplicationClose e r) = type_bytes 0x1d @ nums_bytes [e] @ len_bytes r"
| "frame_bytes HandshakeDone = type_bytes 0x1e"
| "frame_bytes (PathAbandon s e r) = type_bytes 0x15228c05 @ nums_bytes [s, e] @ len_bytes r"
| "frame_bytes (PathStatus s n t) = type_bytes 0x15228c06 @ nums_bytes [s, n, t]"

text \<open>The frames that can be sent: every number fits its field.\<close>

definition ack_ok :: "u64 \<Rightarrow> range_set \<Rightarrow> ecn_counts option \<Rightarrow> bool" where
  "ack_ok d rs e \<longleftrightarrow> d \<le> VINT_MAX \<and> rs_inv rs \<and> rs_set rs \<noteq> [] \<and> (\<forall>r \<in> set (rs_set rs). snd r \<le> VINT_MAX)
     \<and> (\<forall>n \<in> set (ecn_nums e). n \<le> VINT_MAX)"

fun frame_ok :: "frame \<Rightarrow> bool" where
  "frame_ok (Paddings len) \<longleftrightarrow> 0 < len"
| "frame_ok (Ping probe) \<longleftrightarrow> probe = None"
| "frame_ok (Ack d rs e) \<longleftrightarrow> ack_ok d rs e"
| "frame_ok (ResetStream a b c) \<longleftrightarrow> a \<le> VINT_MAX \<and> b \<le> VINT_MAX \<and> c \<le> VINT_MAX"
| "frame_ok (StopSending a b) \<longleftrightarrow> a \<le> VINT_MAX \<and> b \<le> VINT_MAX"
| "frame_ok (Crypto off l data) \<longleftrightarrow> off \<le> VINT_MAX \<and> l = length data \<and> l < 2 ^ 14"
| "frame_ok (NewToken t) \<longleftrightarrow> length t \<le> VINT_MAX"
| "frame_ok (Stream sid off l _ data) \<longleftrightarrow>
     sid \<le> VINT_MAX \<and> l = length data \<and> l < 2 ^ 14 \<and> off + l < MAX_STREAM_SIZE"
| "frame_ok (MaxData m) \<longleftrightarrow> m \<le> VINT_MAX"
| "frame_ok (MaxStreamData s m) \<longleftrightarrow> s \<le> VINT_MAX \<and> m \<le> VINT_MAX"
| "frame_ok (MaxStreams _ m) \<longleftrightarrow> m \<le> VINT_MAX"
| "frame_ok (DataBlocked m) \<longleftrightarrow> m \<le> VINT_MAX"
| "frame_ok (StreamDataBlocked s m) \<longleftrightarrow> s \<le> VINT_MAX \<and> m \<le> VINT_MAX"
| "frame_ok (StreamsBlocked _ m) \<longleftrightarrow> m \<le> VINT_MAX"
| "frame_ok (NewConnectionId s r cid tok) \<longleftrightarrow>
     s \<le> VINT_MAX \<and> r \<le> VINT_MAX \<and> length cid \<le> MAX_CID_LEN \<and> length tok = 16"
| "frame_ok (RetireConnectionId s) \<longleftrightarrow> s \<le> VINT_MAX"
| "frame_ok (PathChallenge data) \<longleftrightarrow> length data = 8"
| "frame_ok (PathResponse data) \<longleftrightarrow> length data = 8"
| "frame_ok (ConnectionClose e t r) \<longleftrightarrow> e \<le> VINT_MAX \<and> t \<le> VINT_MAX \<and> length r \<le> VINT_MAX"
| "frame_ok (ApplicationClose e r) \<longleftrightarrow> e \<le> VINT_MAX \<and> length r \<le> VINT_MAX"
| "frame_ok HandshakeDone \<longleftrightarrow> True"
| "frame_ok (PathAbandon s e r) \<longleftrightarrow> s \<le> VINT_MAX \<and> e \<le> VINT_MAX \<and> length r \<le> VINT_MAX"
| "frame_ok (PathStatus s n t) \<longleftrightarrow> s \<le> VINT_MAX \<and> n \<le> VINT_MAX \<and> t \<le> VINT_MAX"

lemma write_len2: "n < 2 ^ 14 \<Longrightarrow> write_varint_with_len n 2 = emit (len2_bytes n)"
  using varint_words(1) [of n] by (auto simp: write_varint_with_len_def len2_bytes_def emit_def fun_eq_iff)

lemma read_len2: "n < 2 ^ 14 \<Longrightarrow> read_varint (len2_bytes n @ rest) = Inr (n, rest)"
  using read_varint_bytes [of 2 1 n rest] by (simp add: len2_bytes_def)

lemma length_len2 [simp]: "length (len2_bytes n) = 2"
  by (simp add: len2_bytes_def)

lemma type_bytes_len: "length (type_bytes t) = vlen t"
  by (simp add: type_bytes_def vlen_def)

subsection \<open>Encoding emits the bytes of the frame\<close>

lemmas frame_writes = seqw_write_varint seqw_write_bytes seqw_Nil

lemma small_types [simp]:
  "(0x15228c05 :: nat) \<le> VINT_MAX" "(0x15228c06 :: nat) \<le> VINT_MAX" "n \<le> 63 \<Longrightarrow> n \<le> VINT_MAX"
  by (simp_all add: VINT_MAX_def)

lemma ack_writes_nums:
  "ack_range_writes s it = map write_varint (ack_range_nums s it)"
  "ecn_writes e = map write_varint (ecn_nums e)"
  by (induction s it rule: ack_range_writes.induct) (simp_all add: ecn_writes_def ecn_nums_def split: option.split)

lemma ack_range_nums_bound:
  assumes "sorted_wrt (\<lambda>a b. snd b < fst a) it" "\<forall>r \<in> set it. fst r < snd r \<and> snd r < s \<and> snd r \<le> VINT_MAX" "s \<le> VINT_MAX"
  shows "\<forall>n \<in> set (ack_range_nums s it). n \<le> VINT_MAX"
  using assms
proof (induction s it rule: ack_range_nums.induct)
  case (2 s start stop it)
  have "\<forall>n \<in> set (ack_range_nums start it). n \<le> VINT_MAX"
    using "2.prems" by (intro "2.IH") auto
  moreover have "start < stop" "stop < s" "s \<le> VINT_MAX" using "2.prems" by auto
  ultimately show ?case by (auto simp: sub64_nowrap intro: le_trans [OF diff_le_self])
qed simp

lemma rs_wf_sorted_wrt: "rs_wf m \<Longrightarrow> sorted_wrt (\<lambda>a b. snd a < fst b) m"
  by (induction m) (auto simp: rs_wf_Cons)

lemma ack_ok_split:
  assumes "ack_ok d rs e"
  obtains start stop it where "rev (rs_set rs) = (start, stop) # it" "start < stop" "stop \<le> VINT_MAX"
    "sorted_wrt (\<lambda>a b. snd b < fst a) ((start, stop) # it)" "\<forall>r \<in> set it. fst r < snd r \<and> snd r \<le> VINT_MAX"
proof -
  have ok: "rs_wf (rs_set rs)" "rs_set rs \<noteq> []" "\<forall>r \<in> set (rs_set rs). snd r \<le> VINT_MAX"
    using assms by (simp_all add: ack_ok_def rs_inv_def)
  obtain start stop it where rev: "rev (rs_set rs) = (start, stop) # it"
    using ok(2) by (metis list.exhaust prod.exhaust rev_is_Nil_conv)
  have mem: "r \<in> set ((start, stop) # it) \<longleftrightarrow> r \<in> set (rs_set rs)" for r
    by (metis rev set_rev)
  from rs_wf_sorted_wrt [OF ok(1)] have "sorted_wrt (\<lambda>a b. snd b < fst a) (rev (rs_set rs))" by (simp add: sorted_wrt_rev)
  then have "sorted_wrt (\<lambda>a b. snd b < fst a) ((start, stop) # it)" by (simp only: rev)
  moreover have "\<forall>r \<in> set ((start, stop) # it). fst r < snd r \<and> snd r \<le> VINT_MAX"
    using ok(3) rs_wfD(2) [OF ok(1)] mem by auto
  ultimately show thesis using that [OF rev] by simp
qed

lemma ack_nums_ok:
  assumes "ack_ok d rs e"
  shows "\<forall>n \<in> set (ack_nums d rs @ ecn_nums e). n \<le> VINT_MAX" "ack_nums d rs \<noteq> []"
proof -
  obtain start stop it where r: "rev (rs_set rs) = (start, stop) # it" "start < stop" "stop \<le> VINT_MAX"
    "sorted_wrt (\<lambda>a b. snd b < fst a) ((start, stop) # it)" "\<forall>r \<in> set it. fst r < snd r \<and> snd r \<le> VINT_MAX"
    using assms by (rule ack_ok_split)
  have "\<forall>n \<in> set (ack_range_nums start it). n \<le> VINT_MAX"
    using r by (intro ack_range_nums_bound) auto
  moreover have "length it \<le> VINT_MAX"
  proof -
    have wf: "rs_wf (rs_set rs)" using assms by (simp add: ack_ok_def rs_inv_def)
    have "finite {..<VINT_MAX}" "fst ` set (rs_set rs) \<subseteq> {..<VINT_MAX}"
      using assms rs_wfD(2) [OF wf] by (fastforce simp: ack_ok_def intro: less_le_trans)+
    then have "card (fst ` set (rs_set rs)) \<le> VINT_MAX" by (metis card_lessThan card_mono)
    moreover have "card (fst ` set (rs_set rs)) = length (rs_set rs)"
      using rs_wfD(1) [OF wf] by (metis bt_sorted_def distinct_card length_map list.set_map strict_sorted_iff)
    moreover have "length (rs_set rs) = Suc (length it)" using r(1) by (metis length_Cons length_rev)
    ultimately show ?thesis by simp
  qed
  ultimately show "\<forall>n \<in> set (ack_nums d rs @ ecn_nums e). n \<le> VINT_MAX" "ack_nums d rs \<noteq> []"
    using r assms by (auto simp: ack_nums_def ack_ok_def sub64_nowrap intro: le_trans [OF diff_le_self])
qed

lemma write_ack_emit:
  assumes "ack_ok d rs e"
  shows "write_ack d rs e = emit (type_bytes (if e = None then 2 else 3) @ nums_bytes (ack_nums d rs @ ecn_nums e))"
proof -
  obtain start stop it where r: "rev (rs_set rs) = (start, stop) # it" using assms by (rule ack_ok_split)
  have seq: "seqw ([write_varint (sub64 stop 1), write_varint d, write_varint (length it),
                  write_varint (sub64 (sub64 stop 1) start)] @ ack_range_writes start it @ ecn_writes e)
      = emit (nums_bytes (ack_nums d rs @ ecn_nums e))"
    using seqw_nums [OF ack_nums_ok(1) [OF assms]] by (simp add: ack_nums_def r ack_writes_nums del: seqw.simps)
  show ?thesis
    unfolding write_ack_def r list.case prod.case seq
    by (simp add: write_varint_emit type_bytes_def fun_eq_iff rbind_emit [symmetric, unfolded fun_eq_iff])
qed

lemma nums_bytes_append [simp]: "nums_bytes (xs @ ys) = nums_bytes xs @ nums_bytes ys"
  by (simp add: nums_bytes_def)

lemma varint_small: "n \<le> 63 \<Longrightarrow> varint_bytes n = [word_of_nat n]"
  by (simp add: varint_bytes_def)

lemma write_headers_emit:
  "off \<le> VINT_MAX \<Longrightarrow> l < 2 ^ 14 \<Longrightarrow> encode_crypto_header off l = emit (type_bytes 6 @ varint_bytes off @ len2_bytes l)"
  "sid \<le> VINT_MAX \<Longrightarrow> off \<le> VINT_MAX \<Longrightarrow> l < 2 ^ 14 \<Longrightarrow>
     encode_stream_header sid off l fin = emit (type_bytes (if fin then 0x0f else 0x0e) @ nums_bytes [sid, off] @ len2_bytes l)"
proof -
  have last: "l < 2 ^ 14 \<Longrightarrow> seqw [write_varint_with_len l 2] = emit (len2_bytes l)"
    using seqw_emit [OF write_len2 seqw_Nil] by simp
  show "off \<le> VINT_MAX \<Longrightarrow> l < 2 ^ 14 \<Longrightarrow> encode_crypto_header off l = emit (type_bytes 6 @ varint_bytes off @ len2_bytes l)"
    unfolding encode_crypto_header_def type_bytes_def using last
    by (intro seqw_write_varint) simp_all
  have "unat (if fin then (0x0e :: byte) OR 0x01 else 0x0e) = (if fin then 0x0f else 0x0e)" by simp
  then show "sid \<le> VINT_MAX \<Longrightarrow> off \<le> VINT_MAX \<Longrightarrow> l < 2 ^ 14 \<Longrightarrow>
     encode_stream_header sid off l fin = emit (type_bytes (if fin then 0x0f else 0x0e) @ nums_bytes [sid, off] @ len2_bytes l)"
    unfolding encode_stream_header_def type_bytes_def Let_def using last
    by (simp del: seqw.simps) (intro conjI impI seqw_write_varint; simp del: seqw.simps)
qed

lemma seqw_step: "seqw (emit x # ws) = (\<lambda>b. rbind (emit x b) (seqw ws))"
  by (rule ext) simp

lemmas seq_emits = seqw_step seqw_Nil rbind_emit write_varint_emit write_bytes_def write_u8_def

lemma write_frame_emit:
  assumes "frame_ok f"
  shows "write_frame f = emit (frame_bytes f)"
proof (cases f)
  case (Paddings len)
  have "seqw (replicate len (write_varint 0)) = emit (replicate len 0)"
    using seqw_nums [of "replicate len 0"] by (simp add: nums_bytes_def varint_small map_replicate_const)
  with Paddings show ?thesis by simp
next
  case (Crypto off l data)
  with assms write_headers_emit(1) [of off l] show ?thesis
    using seqw_emit [OF _ seqw_write_bytes(1) [OF seqw_Nil, of data], of "encode_crypto_header off l"]
    by (simp del: seqw.simps)
next
  case (Stream sid off l fin data)
  then have "off \<le> VINT_MAX" using assms by (simp add: MAX_STREAM_SIZE_def VINT_MAX_def)
  with Stream assms write_headers_emit(2) [of sid off l fin] show ?thesis
    using seqw_emit [OF _ seqw_write_bytes(1) [OF seqw_Nil, of data], of "encode_stream_header sid off l fin"]
    by (simp del: seqw.simps)
next
  case (Ack d rs e)
  with assms write_ack_emit show ?thesis by simp
next
  case (NewConnectionId s r cid tok)
  then have "seqw [write_varint 0x18, write_varint s, write_varint r,
           write_u8 (word_of_nat (length cid)), write_bytes cid, write_bytes tok]
      = emit (varint_bytes 0x18 @ varint_bytes s @ varint_bytes r @ [word_of_nat (length cid)] @ cid @ tok @ [])"
    using assms by (intro frame_writes) simp_all
  with NewConnectionId show ?thesis by (simp add: type_bytes_def len8_bytes_def)
next
  case (MaxStreams bidi m)
  then have "seqw [write_varint (if bidi then 0x12 else 0x13), write_varint m]
      = emit (varint_bytes (if bidi then 0x12 else 0x13) @ varint_bytes m @ [])"
    using assms by (intro frame_writes) simp_all
  with MaxStreams show ?thesis by (simp add: type_bytes_def)
next
  case (StreamsBlocked bidi m)
  then have "seqw [write_varint (if bidi then 0x16 else 0x17), write_varint m]
      = emit (varint_bytes (if bidi then 0x16 else 0x17) @ varint_bytes m @ [])"
    using assms by (intro frame_writes) simp_all
  with StreamsBlocked show ?thesis by (simp add: type_bytes_def)
qed (use assms in \<open>simp_all add: seq_emits type_bytes_def len_bytes_def del: seqw.simps\<close>)

lemma vlen_small [simp]: "n \<le> 63 \<Longrightarrow> vlen n = 1" "vlen 0x15228c05 = 4" "vlen 0x15228c06 = 4"
  by (simp_all add: vlen_cases)

lemma wire_len_bytes:
  assumes "frame_ok f"
  shows "wire_len f = Some (length (frame_bytes f))"
proof (cases f)
  case (Ack d rs e)
  then have ok: "ack_ok d rs e" using assms by simp
  obtain start stop it where r: "rev (rs_set rs) = (start, stop) # it" using ok by (rule ack_ok_split)
  from vsum_nums [OF ack_nums_ok(1) [OF ok], of 1] show ?thesis
    unfolding Ack wire_len.simps ack_wire_len_def r list.case prod.case
    by (simp add: ack_nums_def r type_bytes_len)
next
  case (Stream sid off l fin data)
  then have "off \<le> VINT_MAX" using assms by (simp add: MAX_STREAM_SIZE_def VINT_MAX_def)
  with Stream assms show ?thesis by (simp add: encode_varint_len_eq type_bytes_len vlen_def [symmetric])
qed (use assms in \<open>simp_all add: encode_varint_len_eq type_bytes_len vlen_def [symmetric] len_bytes_def len8_bytes_def\<close>)

subsection \<open>Decoding\<close>

lemma skip_zeros_replicate:
  "(rest = [] \<or> hd rest \<noteq> 0) \<Longrightarrow> skip_zeros n (replicate k 0 @ rest) = (n + k, rest)"
  by (induction k arbitrary: n) (cases rest; simp)+

lemma read2_ok [simp]:
  "x \<le> VINT_MAX \<Longrightarrow> y \<le> VINT_MAX \<Longrightarrow> read2 f (varint_bytes x @ varint_bytes y @ rest) = Inr (f x y, rest)"
  by (simp add: read2_def)

lemma read3_ok [simp]:
  "x \<le> VINT_MAX \<Longrightarrow> y \<le> VINT_MAX \<Longrightarrow> z \<le> VINT_MAX \<Longrightarrow>
   read3 f (varint_bytes x @ varint_bytes y @ varint_bytes z @ rest) = Inr (f x y z, rest)"
  by (simp add: read3_def)

lemma read1_ok [simp]: "x \<le> VINT_MAX \<Longrightarrow> read1 f (varint_bytes x @ rest) = Inr (f x, rest)"
  by (simp add: read1_def)

lemma read_bytes_ok [simp]: "length bs = n \<Longrightarrow> read_bytes n (bs @ rest) = Inr (bs, rest)"
  by (simp add: read_bytes_def)

lemma cut_bytes_ok [simp]: "length bs = n \<Longrightarrow> cut_bytes n (bs @ rest) = Inr (bs, rest)"
  by (simp add: cut_bytes_def)

lemma skip_bytes_ok [simp]: "length bs = n \<Longrightarrow> skip_bytes n (bs @ rest) = Inr rest"
  by (simp add: skip_bytes_eq)

text \<open>Well-formed range lists with the same numbers are equal.\<close>

lemma rs_wf_unique: "rs_wf m \<Longrightarrow> rs_wf m' \<Longrightarrow> rs_elems m = rs_elems m' \<Longrightarrow> m = m'"
proof (induction m arbitrary: m')
  case Nil
  then show ?case by (cases m') (auto simp: rs_wf_Cons rs_elems_Cons)
next
  case (Cons r m)
  from Cons.prems obtain r' n where m': "m' = r' # n"
    by (cases m') (auto simp: rs_wf_Cons rs_elems_Cons)
  have wf: "fst r < snd r" "\<forall>a \<in> set m. snd r < fst a" "rs_wf m" "fst r' < snd r'" "\<forall>a \<in> set n. snd r' < fst a" "rs_wf n"
    using Cons.prems m' by (auto simp: rs_wf_Cons)
  have eq: "{fst r..<snd r} \<union> rs_elems m = {fst r'..<snd r'} \<union> rs_elems n"
    using Cons.prems(3) m' by (simp add: rs_elems_Cons)
  have above: "x \<in> rs_elems m \<Longrightarrow> snd r < x" "x \<in> rs_elems n \<Longrightarrow> snd r' < x" for x
    using wf(2,5) by (fastforce simp: rs_elems_def)+
  have "fst r \<in> {fst r'..<snd r'} \<union> rs_elems n" "fst r' \<in> {fst r..<snd r} \<union> rs_elems m"
    using wf(1,4) eq by auto
  then have "fst r = fst r'" using above(1) [of "fst r'"] above(2) [of "fst r"] wf(1,4) by auto
  moreover have "snd r = snd r'"
  proof (rule ccontr)
    assume "snd r \<noteq> snd r'"
    then consider "snd r < snd r'" | "snd r' < snd r" by linarith
    then show False
    proof cases
      case 1
      then have "snd r \<in> {fst r'..<snd r'}" using wf(1) calculation by simp
      then have "snd r \<in> {fst r..<snd r} \<union> rs_elems m" using eq by blast
      with above(1) show False by auto
    next
      case 2
      then have "snd r' \<in> {fst r..<snd r}" using wf(4) calculation by simp
      then have "snd r' \<in> {fst r'..<snd r'} \<union> rs_elems n" using eq by blast
      with above(2) show False by auto
    qed
  qed
  ultimately have r: "r = r'" by (simp add: prod_eq_iff)
  have "rs_elems m = {x \<in> {fst r..<snd r} \<union> rs_elems m. snd r < x}" using above(1) by auto
  also have "\<dots> = {x \<in> {fst r'..<snd r'} \<union> rs_elems n. snd r' < x}" unfolding eq unfolding r by (rule refl)
  also have "\<dots> = rs_elems n" using above(2) by auto
  finally have "m = n" by (rule Cons.IH [OF wf(3,6)])
  with r m' show ?case by simp
qed

lemma ack_loop_ok:
  assumes "sorted_wrt (\<lambda>a b. snd b < fst a) it" "\<forall>r \<in> set it. fst r < snd r \<and> snd r < s \<and> snd r \<le> VINT_MAX"
    and "s \<le> VINT_MAX" "rs_inv acc"
  shows "\<exists>acc'. ack_loop (length it) s acc (nums_bytes (ack_range_nums s it) @ rest) = Inr (acc', rest)
           \<and> rs_inv acc' \<and> rs_nums acc' = rs_nums acc \<union> rs_elems it"
  using assms
proof (induction s it arbitrary: acc rule: ack_range_nums.induct)
  case (1 s)
  then show ?case by (simp add: rs_elems_def)
next
  case (2 s start stop it)
  have b: "start < stop" "stop < s" "s \<le> VINT_MAX" using "2.prems" by auto
  have small: "VINT_MAX < u64_mod" by (simp add: VINT_MAX_def u64_mod_def)
  let ?acc = "rs_insert acc (start, stop)"
  have acc: "rs_inv ?acc" "rs_nums ?acc = rs_nums acc \<union> {start..<stop}"
    using "2.prems"(4) b small by (simp_all add: urs.laws del: rs_insert.simps)
  obtain acc' where acc': "ack_loop (length it) start ?acc (nums_bytes (ack_range_nums start it) @ rest) = Inr (acc', rest)"
    "rs_inv acc'" "rs_nums acc' = rs_nums ?acc \<union> rs_elems it"
    using "2.IH" [of ?acc] "2.prems" b acc(1) by (auto simp del: rs_insert.simps)
  have ar: "sub64 (sub64 s stop) (Suc 0) = s - stop - 1" "sub64 (sub64 stop (Suc 0)) start = stop - 1 - start"
    using b by (simp_all add: sub64_nowrap)
  have "s - stop - 1 \<le> VINT_MAX" "stop - 1 - start \<le> VINT_MAX" "\<not> stop - 1 < stop - 1 - start" "\<not> s < s - stop + 1"
    using b by linarith+
  moreover have "add64 2 (s - stop - 1) = s - stop + 1" using b small by (subst add64_nowrap) auto
  moreover have "sub64 (sub64 s (s - stop - 1)) 2 = stop - 1" using b by (simp add: sub64_nowrap)
  moreover have "sub64 (stop - 1) (stop - 1 - start) = start" "add64 (stop - 1) 1 = stop"
    using b small by (simp_all add: sub64_nowrap add64_nowrap)
  ultimately have "ack_loop (length ((start, stop) # it)) s acc (nums_bytes (ack_range_nums s ((start, stop) # it)) @ rest)
      = Inr (acc', rest)"
    using b acc'(1) by (simp add: ar Let_def del: rs_insert.simps)
  with acc' acc show ?case by (auto simp: rs_elems_def)
qed

lemma parse_ack_ok:
  assumes "ack_ok d rs e"
  shows "parse_ack_frame (if e = None then 2 else 3) (nums_bytes (ack_nums d rs @ ecn_nums e) @ rest)
       = Inr (Ack d rs e, rest)"
proof -
  obtain start stop it where r: "rev (rs_set rs) = (start, stop) # it" "start < stop" "stop \<le> VINT_MAX"
    "sorted_wrt (\<lambda>a b. snd b < fst a) ((start, stop) # it)" "\<forall>r \<in> set it. fst r < snd r \<and> snd r \<le> VINT_MAX"
    using assms by (rule ack_ok_split)
  have small: "VINT_MAX < u64_mod" by (simp add: VINT_MAX_def u64_mod_def)
  let ?acc = "rs_insert rs_default (start, stop)"
  have acc: "rs_inv ?acc" "rs_nums ?acc = {start..<stop}"
    using r(3) small by (simp_all add: urs.laws del: rs_insert.simps)
  have "\<exists>acc'. ack_loop (length it) start ?acc (nums_bytes (ack_range_nums start it) @ nums_bytes (ecn_nums e) @ rest)
        = Inr (acc', nums_bytes (ecn_nums e) @ rest) \<and> rs_inv acc' \<and> rs_nums acc' = rs_nums ?acc \<union> rs_elems it"
    using r acc(1) by (intro ack_loop_ok) auto
  then obtain acc' where acc': "ack_loop (length it) start ?acc
      (nums_bytes (ack_range_nums start it) @ nums_bytes (ecn_nums e) @ rest) = Inr (acc', nums_bytes (ecn_nums e) @ rest)"
    "rs_inv acc'" "rs_nums acc' = rs_nums ?acc \<union> rs_elems it" by blast
  have "rs_elems (rev (rs_set rs)) = rs_nums rs" by (simp add: rs_elems_def)
  then have "rs_nums acc' = rs_nums rs" using acc'(3) acc(2) by (simp add: r(1) rs_elems_Cons)
  then have eq: "acc' = rs"
    using rs_wf_unique acc'(2) assms by (cases acc', cases rs) (simp add: ack_ok_def rs_inv_def)
  have ns: "\<forall>n \<in> set (ack_nums d rs @ ecn_nums e). n \<le> VINT_MAX" using ack_nums_ok(1) [OF assms] .
  then have bd: "sub64 stop 1 \<le> VINT_MAX" "d \<le> VINT_MAX" "length it \<le> VINT_MAX" "sub64 (sub64 stop 1) start \<le> VINT_MAX"
    by (simp_all add: ack_nums_def r(1))
  have ar: "\<not> sub64 stop 1 < sub64 (sub64 stop 1) start" "sub64 (sub64 stop 1) (sub64 (sub64 stop 1) start) = start"
    "add64 (sub64 stop 1) 1 = stop"
    using r(2,3) small by (simp_all add: sub64_nowrap add64_nowrap)
  have "\<forall>n \<in> set (ecn_nums e). n \<le> VINT_MAX" using ns by simp
  then show ?thesis
    using bd ar acc'(1) eq
    by (cases e) (simp_all add: parse_ack_frame_def ack_nums_def r(1) Let_def read_ecn_def ecn_nums_def del: rs_insert.simps)
qed

lemma stream_bits:
  "(word_of_nat (if fin then 0x0f else 0x0e) :: byte) AND 0x04 \<noteq> 0"
  "(word_of_nat (if fin then 0x0f else 0x0e) :: byte) AND 0x02 \<noteq> 0"
  "(word_of_nat (if fin then 0x0f else 0x0e) :: byte) AND 0x01 \<noteq> 0 \<longleftrightarrow> fin"
  by (cases fin; simp)+

lemma parse_stream_ok:
  assumes "sid \<le> VINT_MAX" "length data < 2 ^ 14" "off + length data < MAX_STREAM_SIZE"
  shows "parse_stream (if fin then 0x0f else 0x0e) (varint_bytes sid @ varint_bytes off @ len2_bytes (length data) @ data @ rest)
       = Inr (Stream sid off (length data) fin data, rest)"
proof -
  have "off \<le> VINT_MAX" using assms(3) by (simp add: MAX_STREAM_SIZE_def VINT_MAX_def)
  moreover have "add64 off (length data) = off + length data"
    using assms(3) by (intro add64_nowrap) (simp add: MAX_STREAM_SIZE_def u64_mod_def)
  ultimately show ?thesis
    using assms by (simp add: parse_stream_def stream_bits Let_def read_len2 del: word_of_nat_eq_0_iff)
qed

lemma parse_body_ok:
  assumes "frame_ok f" "\<And>n. f \<noteq> Paddings n"
  shows "\<exists>t b. read_varint (frame_bytes f @ rest) = Inr (t, b) \<and> parse_body t b = Inr (f, rest)"
proof (cases f)
  case (Ack d rs e)
  with assms(1) parse_ack_ok [of d rs e rest] show ?thesis
    by (cases e) (simp_all add: type_bytes_def parse_body_def)
next
  case (Stream sid off l fin data)
  with assms(1) parse_stream_ok [of sid data off fin rest] show ?thesis
    by (cases fin) (simp_all add: type_bytes_def parse_body_def)
next
  case (Crypto off l data)
  with assms(1) show ?thesis
    by (simp add: type_bytes_def parse_body_def parse_crypto_def read_len2)
next
  case (NewConnectionId s r cid tok)
  with assms(1) l8.roundtrip [of cid "tok @ rest"] show ?thesis
    by (simp add: type_bytes_def parse_body_def parse_new_cid_def cid_new_def MAX_CID_LEN_def min_def)
next
  case (MaxStreams bidi m)
  with assms(1) show ?thesis by (cases bidi) (simp_all add: type_bytes_def parse_body_def)
next
  case (StreamsBlocked bidi m)
  with assms(1) show ?thesis by (cases bidi) (simp_all add: type_bytes_def parse_body_def)
qed (use assms in \<open>simp_all add: type_bytes_def parse_body_def parse_close_def parse_app_close_def
       parse_path_abandon_def rmap_def lb.roundtrip\<close>)

lemma parse_paddings_ok:
  assumes "0 < n" "rest = [] \<or> hd rest \<noteq> 0"
  shows "\<exists>t b. read_varint (frame_bytes (Paddings n) @ rest) = Inr (t, b) \<and> parse_body t b = Inr (Paddings n, rest)"
proof -
  obtain k where n: "n = Suc k" using assms(1) by (cases n) auto
  have "frame_bytes (Paddings n) @ rest = varint_bytes 0 @ replicate k 0 @ rest" by (simp add: n varint_small)
  then have "read_varint (frame_bytes (Paddings n) @ rest) = Inr (0, replicate k 0 @ rest)" by simp
  moreover have "parse_body 0 (replicate k 0 @ rest) = Inr (Paddings n, rest)"
    using skip_zeros_replicate [OF assms(2), of 1 k] by (simp add: parse_body_def n)
  ultimately show ?thesis by blast
qed

subsection \<open>Properties\<close>

text \<open>
  C28.  Frames round-trip: encoding a sendable frame into a buffer with enough room writes some
  bytes, \<open>wire_len\<close> announces exactly their number, and decoding them in a packet type that
  allows the frame returns the frame and that number, whatever follows (for a run of PADDING,
  whatever follows that is not padding).
\<close>

theorem frame_roundtrip:
  assumes "frame_ok f" "validate_frame pkt f"
  shows "\<exists>bs. wire_len f = Some (length bs)
    \<and> (\<forall>room \<ge> length bs. to_bytes f room = Inr (bs, length bs))
    \<and> (\<forall>rest. rest = [] \<or> hd rest \<noteq> 0 \<or> (\<forall>n. f \<noteq> Paddings n) \<longrightarrow>
          from_bytes (bs @ rest) pkt = Inr (f, length bs))"
proof (intro exI [of _ "frame_bytes f"] conjI allI impI)
  show "wire_len f = Some (length (frame_bytes f))" by (rule wire_len_bytes [OF assms(1)])
  fix room assume "length (frame_bytes f) \<le> room"
  then show "to_bytes f room = Inr (frame_bytes f, length (frame_bytes f))"
    by (simp add: to_bytes_def write_frame_emit [OF assms(1)] emit_def wb_new_def)
next
  fix rest :: "byte list" assume rest: "rest = [] \<or> hd rest \<noteq> 0 \<or> (\<forall>n. f \<noteq> Paddings n)"
  have "\<exists>t b. read_varint (frame_bytes f @ rest) = Inr (t, b) \<and> parse_body t b = Inr (f, rest)"
  proof (cases "\<exists>n. f = Paddings n")
    case True
    then obtain n where "f = Paddings n" by blast
    with assms(1) rest parse_paddings_ok [of n rest] show ?thesis by auto
  next
    case False
    with assms(1) parse_body_ok [of f rest] show ?thesis by blast
  qed
  with assms(2) show "from_bytes (frame_bytes f @ rest) pkt = Inr (f, length (frame_bytes f))"
    by (auto simp: from_bytes_def)
qed

definition demo_ack :: frame where
  "demo_ack = Ack 25 \<lparr>rs_set = [(3, 5), (9, 12)], rs_capacity = u64_max\<rparr> None"

theorem frame_roundtrip_witness:
  "\<exists>bs. wire_len demo_ack = Some (length bs) \<and> from_bytes (bs @ [1]) Initial = Inr (demo_ack, length bs)"
proof -
  have "frame_ok demo_ack" "validate_frame Initial demo_ack"
    by (simp_all add: demo_ack_def ack_ok_def rs_inv_def rs_wf_Cons rs_wf_def VINT_MAX_def u64_mod_def ecn_nums_def validate_frame_def)
  from frame_roundtrip [OF this] show ?thesis by (auto simp: demo_ack_def)
qed

text \<open>
  Encoding fails cleanly: into a buffer shorter than its encoded length, a sendable frame is
  refused with \<open>BufferTooShort\<close>, without a panic.
\<close>

theorem frame_encode_short:
  assumes "frame_ok f" "wire_len f = Some n" "room < n"
  shows "to_bytes f room = Inl (Err BufferTooShort)"
  using assms wire_len_bytes [OF assms(1)] by (simp add: to_bytes_def write_frame_emit emit_def wb_new_def)

theorem frame_encode_short_witness:
  "to_bytes (MaxData 70) 2 = Inl (Err BufferTooShort)"
  using frame_encode_short [of "MaxData 70" 3 2] by (simp add: VINT_MAX_def encode_varint_len_def)

subsection \<open>Decoding arbitrary input\<close>

text \<open>
  A reader is well behaved when it never panics, fails only with the errors of the decoder, and
  leaves a suffix of its input.
\<close>

definition decode_errs :: "fault set" where
  "decode_errs = {Err BufferTooShort, Err FrameEncodingError}"

definition well_behaved :: "'a reader \<Rightarrow> bool" where
  "well_behaved p \<longleftrightarrow> (\<forall>b. case p b of Inl e \<Rightarrow> e \<in> decode_errs | Inr (x, r) \<Rightarrow> \<exists>u. b = u @ r)"

lemma wb_read_varint: "well_behaved read_varint"
  unfolding well_behaved_def
proof
  fix b show "case read_varint b of Inl e \<Rightarrow> e \<in> decode_errs | Inr (x, r) \<Rightarrow> \<exists>u. b = u @ r"
    by (cases rule: read_varint_cases [of b]) (auto simp: decode_errs_def)
qed

lemma wb_take: "well_behaved (take_bytes n)" "well_behaved (read_bytes n)"
proof -
  show "well_behaved (take_bytes n)"
    unfolding well_behaved_def take_bytes_eq
    by (auto simp: decode_errs_def intro: exI [of _ "take n b" for b] simp del: append_take_drop_id)
      (metis append_take_drop_id)
  then show "well_behaved (read_bytes n)" by (simp add: read_bytes_def [abs_def])
qed

lemma wb_bind:
  assumes "well_behaved p" "\<And>x. well_behaved (f x)"
  shows "well_behaved (\<lambda>b. rbind (p b) (\<lambda>(x, b). f x b))"
  unfolding well_behaved_def
proof
  fix b
  show "case rbind (p b) (\<lambda>(x, b). f x b) of Inl e \<Rightarrow> e \<in> decode_errs | Inr (x, r) \<Rightarrow> \<exists>u. b = u @ r"
  proof (cases "p b")
    case (Inl e)
    then show ?thesis using assms(1) by (auto simp: well_behaved_def dest: spec [of _ b])
  next
    case (Inr xr)
    obtain x r where xr: "xr = (x, r)" by (cases xr)
    have "case p b of Inl e \<Rightarrow> e \<in> decode_errs | Inr (x, r) \<Rightarrow> \<exists>u. b = u @ r"
      using assms(1) by (simp add: well_behaved_def)
    then obtain u where u: "b = u @ r" using Inr xr by auto
    have "case f x r of Inl e \<Rightarrow> e \<in> decode_errs | Inr (x, r') \<Rightarrow> \<exists>v. r = v @ r'"
      using assms(2) [of x] by (simp add: well_behaved_def)
    then show ?thesis using Inr xr u by (auto split: sum.splits)
  qed
qed

lemma wb_const:
  "well_behaved (\<lambda>b. Inr (x, b))" "e \<in> decode_errs \<Longrightarrow> well_behaved (\<lambda>b. Inl e)"
  by (simp_all add: well_behaved_def)

lemma wb_if: "well_behaved p \<Longrightarrow> well_behaved q \<Longrightarrow> well_behaved (\<lambda>b. if P b then p b else q b)"
  by (simp add: well_behaved_def)

lemma decode_errs_mem [simp]: "Err BufferTooShort \<in> decode_errs" "Err FrameEncodingError \<in> decode_errs"
  by (simp_all add: decode_errs_def)

lemmas wb_rules = wb_bind wb_const wb_read_varint wb_take wb_if

lemma wb_read_u8: "well_behaved read_u8"
  by (auto simp: well_behaved_def read_u8_def split: list.split)

lemma wb_combinators:
  "well_behaved (read1 f)" "well_behaved (read2 g)" "well_behaved (read3 h)" "well_behaved read_with_varint_length"
  "well_behaved read_with_u8_length" "well_behaved p \<Longrightarrow> well_behaved (rmap k p)" "well_behaved read_ecn"
  unfolding read1_def [abs_def] read2_def [abs_def] read3_def [abs_def] read_with_varint_length_def [abs_def]
    read_with_u8_length_def [abs_def] rmap_def [abs_def] read_ecn_def [abs_def]
  by (intro wb_rules wb_read_u8; simp)+

lemma wb_ack_loop: "well_behaved (ack_loop n s acc)"
proof (induction n arbitrary: s acc)
  case 0
  then show ?case by (simp add: well_behaved_def)
next
  case (Suc n)
  show ?case unfolding ack_loop.simps [abs_def] Let_def by (intro wb_rules Suc) simp_all
qed

lemma wb_skip: "well_behaved (\<lambda>b. if n > length b then Inl (Err BufferTooShort)
    else rbind (cut_bytes n b) (\<lambda>(data, _). rbind (skip_bytes n b) (\<lambda>b'. Inr (f data, b'))))"
  unfolding well_behaved_def skip_bytes_eq cut_bytes_def
  by auto (metis append_take_drop_id)

lemma skip_zeros_suffix: "skip_zeros n b = (k, r) \<Longrightarrow> \<exists>u. b = u @ r"
  by (induction n b rule: skip_zeros.induct) (auto split: if_splits intro: exI [of _ "0 # u" for u])

lemma wb_parse:
  "well_behaved (parse_ack_frame t)" "well_behaved parse_crypto" "well_behaved (parse_stream t)"
  "well_behaved parse_new_cid" "well_behaved parse_close" "well_behaved parse_app_close"
  "well_behaved parse_path_abandon"
proof -
  show "well_behaved (parse_ack_frame t)"
    unfolding parse_ack_frame_def [abs_def] Let_def by (intro wb_rules wb_ack_loop wb_combinators) simp_all
  show "well_behaved parse_crypto"
    unfolding parse_crypto_def [abs_def] by (intro wb_bind wb_read_varint wb_skip)
  show "well_behaved (parse_stream t)"
    unfolding parse_stream_def [abs_def] Let_def
    by (intro wb_bind wb_read_varint wb_if wb_skip wb_const) (simp_all add: well_behaved_def)
  show "well_behaved parse_new_cid" "well_behaved parse_close" "well_behaved parse_app_close" "well_behaved parse_path_abandon"
    unfolding parse_new_cid_def [abs_def] parse_close_def [abs_def] parse_app_close_def [abs_def] parse_path_abandon_def [abs_def]
    by (intro wb_rules wb_combinators)+
qed

lemma wb_parse_body: "well_behaved (parse_body t)"
proof -
  have "well_behaved (\<lambda>b. let (len, b') = skip_zeros 1 b in Inr (Paddings len, b'))"
    unfolding well_behaved_def by (auto split: prod.split dest: skip_zeros_suffix)
  then show ?thesis
    unfolding parse_body_def [abs_def] by (intro wb_if wb_parse wb_combinators wb_take wb_const) simp_all
qed

lemma from_bytes_cases:
  assumes "from_bytes buf pkt = Inr (f, n)"
  obtains t u r v r' where "read_varint buf = Inr (t, r)" "buf = u @ r" "u \<noteq> []"
    "parse_body t r = Inr (f, r')" "r = v @ r'" "n = length u + length v" "validate_frame pkt f"
proof -
  from assms obtain t r r' where p: "read_varint buf = Inr (t, r)" "parse_body t r = Inr (f, r')"
    "validate_frame pkt f" "n = length buf - length r'"
    by (auto simp: from_bytes_def rbind_Inr_iff split: if_splits)
  obtain u where u: "buf = u @ r" "u \<noteq> []" using p(1) by (rule read_varintE)
  have "case parse_body t r of Inl e \<Rightarrow> e \<in> decode_errs | Inr (x, r') \<Rightarrow> \<exists>v. r = v @ r'"
    using wb_parse_body [of t] by (simp add: well_behaved_def)
  then obtain v where "r = v @ r'" using p(2) by auto
  with p u that show thesis by auto
qed

text \<open>
  C31.  Decoding is safe on every input: it never panics, so the lengths are checked before data is sliced
  off; it fails only with \<open>BufferTooShort\<close>,
  \<open>FrameEncodingError\<close> or \<open>InvalidPacket\<close>; on success it has consumed at least one byte and no more
  than there were, so that decoding a packet frame by frame ends, and the packet type admits the frame.
\<close>

theorem frame_decode_safe:
  "case from_bytes buf pkt of
     Inl e \<Rightarrow> e \<in> {Err BufferTooShort, Err FrameEncodingError, Err InvalidPacket}
   | Inr (f, n) \<Rightarrow> 0 < n \<and> n \<le> length buf \<and> validate_frame pkt f"
proof (cases "from_bytes buf pkt")
  case (Inr fn)
  obtain f n where fn: "fn = (f, n)" by (cases fn)
  have "from_bytes buf pkt = Inr (f, n)" using Inr fn by simp
  then have "0 < n \<and> n \<le> length buf \<and> validate_frame pkt f" by (rule from_bytes_cases) auto
  with Inr fn show ?thesis by simp
next
  case (Inl e)
  show ?thesis
  proof (cases "read_varint buf")
    case (Inl e')
    with \<open>from_bytes buf pkt = Inl e\<close> show ?thesis
      by (cases rule: read_varint_cases [of buf]) (auto simp: from_bytes_def)
  next
    case (Inr tr)
    obtain t r where tr: "tr = (t, r)" by (cases tr)
    have "case parse_body t r of Inl e \<Rightarrow> e \<in> decode_errs | Inr (x, r') \<Rightarrow> \<exists>v. r = v @ r'"
      using wb_parse_body [of t] by (simp add: well_behaved_def)
    with Inr tr \<open>from_bytes buf pkt = Inl e\<close> show ?thesis
      by (auto simp: from_bytes_def decode_errs_def split: sum.splits if_splits)
  qed
qed

text \<open>
  A NEW_CONNECTION_ID frame whose connection identifier is longer than 20 bytes is not
  rejected: the decoder accepts it and keeps only the first 20 bytes of the identifier.
\<close>

theorem long_cid_truncated:
  assumes "20 < length cid" "length cid < 256" "length tok = 16" "s \<le> VINT_MAX" "r \<le> VINT_MAX"
  shows "\<exists>n. from_bytes (varint_bytes 0x18 @ varint_bytes s @ varint_bytes r @ len8_bytes cid @ tok) OneRTT
           = Inr (NewConnectionId s r (take 20 cid) tok, n)"
  using assms l8.roundtrip [of cid tok] read_bytes_ok [of tok 16 "[]"]
  by (simp add: from_bytes_def parse_body_def parse_new_cid_def cid_new_def MAX_CID_LEN_def validate_frame_def)

theorem long_cid_truncated_witness:
  "\<exists>n. from_bytes (varint_bytes 0x18 @ varint_bytes 1 @ varint_bytes 0 @ len8_bytes (replicate 21 7) @ replicate 16 9) OneRTT
     = Inr (NewConnectionId 1 0 (take 20 (replicate 21 7)) (replicate 16 9), n)"
  using long_cid_truncated [of "replicate 21 7" "replicate 16 9" 1 0] by (simp add: VINT_MAX_def)

end
