(* ===== verification/SeqNumWindow.thy ===== *)
theory SeqNumWindow
  imports Prelude
begin

text \<open>
  \<open>src/window.rs\<close>: the sliding window of 128 sequence numbers that detects duplicate packets.
\<close>

unbundle bit_operations_syntax

definition SEQ_NUM_WINDOW_SIZE :: u64 where
  "SEQ_NUM_WINDOW_SIZE = 128"

record seq_num_window =
  sw_lower :: u64
  sw_window :: "128 word"

definition sw_default :: seq_num_window where
  "sw_default = \<lparr>sw_lower = 0, sw_window = 0\<rparr>"

definition sw_upper :: "seq_num_window \<Rightarrow> u64" where
  "sw_upper w = sub64 (sat_add64 (sw_lower w) SEQ_NUM_WINDOW_SIZE) 1"

text \<open>\<open>checked_shl\<close> with the shift amount cut to 32 bits; \<open>unwrap_or(0)\<close>.\<close>

definition shl_u32 :: "128 word \<Rightarrow> u64 \<Rightarrow> 128 word" where
  "shl_u32 x n = (let s = n mod 2 ^ 32 in if s < 128 then push_bit s x else 0)"

definition sw_mask :: "seq_num_window \<Rightarrow> u64 \<Rightarrow> 128 word" where
  "sw_mask w seq = push_bit (sub64 (sw_upper w) seq) 1"

definition sw_insert :: "u64 \<Rightarrow> seq_num_window \<Rightarrow> seq_num_window" where
  "sw_insert seq w =
     (if seq < sw_lower w then w
      else
        let w1 = (if seq > sw_upper w then
                    let diff = sub64 seq (sw_upper w)
                    in w\<lparr>sw_lower := add64 (sw_lower w) diff, sw_window := shl_u32 (sw_window w) diff\<rparr>
                  else w)
        in w1\<lparr>sw_window := sw_window w1 OR sw_mask w1 seq\<rparr>)"

definition sw_contains :: "u64 \<Rightarrow> seq_num_window \<Rightarrow> bool" where
  "sw_contains seq w =
     (if seq > sw_upper w then False
      else if seq < sw_lower w then True
      else sw_window w AND sw_mask w seq \<noteq> 0)"

subsection \<open>Invariant\<close>

definition sw_inv :: "seq_num_window \<Rightarrow> nat set \<Rightarrow> bool" where
  "sw_inv w S \<longleftrightarrow> sw_lower w < 2 ^ 62 \<and> (\<forall>s \<in> S. s \<le> sw_lower w + 127)
     \<and> (\<forall>s. sw_lower w \<le> s \<and> s \<le> sw_lower w + 127 \<longrightarrow> bit (sw_window w) (sw_lower w + 127 - s) = (s \<in> S))"

lemma sw_upper_eq:
  assumes "sw_lower w < 2 ^ 62"
  shows "sw_upper w = sw_lower w + 127"
proof -
  have "sw_lower w + 128 < u64_mod" using assms by (simp add: u64_mod_def)
  then show ?thesis by (simp add: sw_upper_def SEQ_NUM_WINDOW_SIZE_def sat_add64_nowrap sub64_nowrap)
qed

lemma bit_mask_iff: "bit (2 ^ k :: 128 word) i \<longleftrightarrow> i = k \<and> k < 128"
  by (auto simp: bit_exp_iff)

lemma and_mask_iff: "k < 128 \<Longrightarrow> (x :: 128 word) AND 2 ^ k \<noteq> 0 \<longleftrightarrow> bit x k"
proof -
  assume k: "k < 128"
  have "x AND 2 ^ k = 0 \<longleftrightarrow> \<not> bit x k"
  proof
    assume "x AND 2 ^ k = 0"
    then have "\<not> bit (x AND 2 ^ k) k" by simp
    then show "\<not> bit x k" using k by (simp add: bit_and_iff bit_mask_iff)
  next
    assume "\<not> bit x k"
    then show "x AND 2 ^ k = 0" by (intro bit_word_eqI) (auto simp: bit_and_iff bit_mask_iff)
  qed
  then show ?thesis by blast
qed

lemma sw_contains_iff:
  assumes "sw_inv w S"
  shows "sw_contains s w \<longleftrightarrow> s < sw_lower w \<or> s \<in> S"
proof -
  have lo: "sw_lower w < 2 ^ 62" using assms by (simp add: sw_inv_def)
  note up = sw_upper_eq [OF lo]
  show ?thesis
  proof (cases "s > sw_lower w + 127 \<or> s < sw_lower w")
    case True
    then show ?thesis using assms up by (auto simp: sw_contains_def sw_inv_def)
  next
    case False
    then have "sub64 (sw_upper w) s = sw_lower w + 127 - s" "sw_lower w + 127 - s < 128"
      using up by (auto simp: sub64_nowrap)
    with False up assms show ?thesis
      by (auto simp: sw_contains_def sw_mask_def and_mask_iff sw_inv_def)
  qed
qed

lemma bit_shl_u32:
  assumes "n < 2 ^ 32"
  shows "bit (shl_u32 x n) i \<longleftrightarrow> n \<le> i \<and> i < 128 \<and> bit x (i - n)"
proof (cases "n < 128")
  case True
  then show ?thesis using assms bit_imp_le_length [of x] by (auto simp: shl_u32_def Let_def bit_push_bit_iff)
next
  case False
  then show ?thesis using assms by (auto simp: shl_u32_def Let_def)
qed

lemma sw_insert_inv:
  assumes inv: "sw_inv w S" and seq: "seq < 2 ^ 62" "seq < sw_lower w + 127 + 2 ^ 32"
  shows "sw_inv (sw_insert seq w) (if seq < sw_lower w then S else insert seq S) \<and> sw_lower w \<le> sw_lower (sw_insert seq w)"
proof -
  have lo: "sw_lower w < 2 ^ 62" using inv by (simp add: sw_inv_def)
  note up = sw_upper_eq [OF lo]
  have mask: "sw_mask v seq = 2 ^ (sw_lower v + 127 - seq)"
    if "sw_lower v < 2 ^ 62" "seq \<le> sw_lower v + 127" for v
    using that by (simp add: sw_mask_def sw_upper_eq sub64_nowrap)
  consider "seq < sw_lower w" | (inside) "sw_lower w \<le> seq" "seq \<le> sw_lower w + 127" | (right) "sw_lower w + 127 < seq"
    by linarith
  then show ?thesis
  proof cases
    case 1
    with inv show ?thesis by (simp add: sw_insert_def)
  next
    case inside
    have "sw_insert seq w = w\<lparr>sw_window := sw_window w OR 2 ^ (sw_lower w + 127 - seq)\<rparr>"
      using inside up mask [OF lo] by (simp add: sw_insert_def Let_def)
    moreover have "bit (sw_window w OR 2 ^ (sw_lower w + 127 - seq)) (sw_lower w + 127 - s) = (s \<in> insert seq S)"
      if "sw_lower w \<le> s" "s \<le> sw_lower w + 127" for s
      using inv inside that by (auto simp: bit_or_iff bit_mask_iff sw_inv_def)
    ultimately show ?thesis using inv inside by (auto simp: sw_inv_def)
  next
    case right
    let ?d = "seq - (sw_lower w + 127)"
    let ?w1 = "w\<lparr>sw_lower := seq - 127, sw_window := shl_u32 (sw_window w) ?d\<rparr>"
    have "add64 (sw_lower w) ?d = seq - 127" using right seq by (subst add64_nowrap) (auto simp: u64_mod_def)
    then have eq: "sw_insert seq w = ?w1\<lparr>sw_window := sw_window ?w1 OR 1\<rparr>"
      using right up seq mask [of ?w1] by (simp add: sw_insert_def Let_def sub64_nowrap)
    have "bit (shl_u32 (sw_window w) ?d OR 1) (seq - s) = (s \<in> insert seq S)"
      if "seq - 127 \<le> s" "s \<le> seq" for s
    proof (cases "s = seq")
      case False
      have d: "?d < 2 ^ 32" using right seq by simp
      have "bit (shl_u32 (sw_window w) ?d) (seq - s) \<longleftrightarrow> s \<in> S"
      proof (cases "s \<le> sw_lower w + 127")
        case True
        have "seq - s - ?d = sw_lower w + 127 - s" "?d \<le> seq - s" "seq - s < 128" using True right that by auto
        moreover have "sw_lower w \<le> s" using that right by auto
        ultimately show ?thesis using bit_shl_u32 [OF d] inv True by (simp add: sw_inv_def)
      next
        case above: False
        then have "\<not> ?d \<le> seq - s" using that right by auto
        then show ?thesis using bit_shl_u32 [OF d] inv above by (auto simp: sw_inv_def)
      qed
      with False that show ?thesis by (auto simp: bit_or_iff bit_1_iff)
    qed (simp add: bit_or_iff)
    with right inv seq show ?thesis unfolding eq by (auto simp: sw_inv_def)
  qed
qed

subsection \<open>Properties\<close>

text \<open>The numbers recorded so far, and a run of insertions.\<close>

definition sw_step :: "seq_num_window \<times> nat set \<Rightarrow> u64 \<Rightarrow> seq_num_window \<times> nat set" where
  "sw_step st seq = (sw_insert seq (fst st), insert seq (snd st))"

definition sw_ok :: "seq_num_window \<times> nat set \<Rightarrow> u64 \<Rightarrow> bool" where
  "sw_ok st seq \<longleftrightarrow> seq < 2 ^ 62 \<and> seq < sw_lower (fst st) + 127 + 2 ^ 32"

definition sw_rel :: "seq_num_window \<times> nat set \<Rightarrow> bool" where
  "sw_rel st \<longleftrightarrow> sw_inv (fst st) {s \<in> snd st. sw_lower (fst st) \<le> s}"

lemma sw_inv_restrict:
  "sw_inv w S \<Longrightarrow> {s \<in> S. sw_lower w \<le> s} = {s \<in> T. sw_lower w \<le> s} \<Longrightarrow> sw_inv w {s \<in> T. sw_lower w \<le> s}"
  by (auto simp: sw_inv_def)

lemma sw_step_rel:
  assumes "sw_rel st" "sw_ok st seq"
  shows "sw_rel (sw_step st seq)"
proof -
  obtain w S where st: "st = (w, S)" by (cases st)
  let ?S = "{s \<in> S. sw_lower w \<le> s}"
  have p: "sw_inv (sw_insert seq w) (if seq < sw_lower w then ?S else insert seq ?S)" "sw_lower w \<le> sw_lower (sw_insert seq w)"
    using sw_insert_inv [of w ?S seq] assms by (simp_all add: sw_rel_def sw_ok_def st)
  show ?thesis
    unfolding sw_rel_def sw_step_def st fst_conv snd_conv
    by (rule sw_inv_restrict [OF p(1)]) (use p(2) in \<open>auto split: if_splits\<close>)
qed

interpretation swm: inv_machine sw_step sw_ok sw_rel
  by unfold_locales (rule sw_step_rel)

lemma sw_run_snd: "snd (foldl sw_step st seqs) = snd st \<union> set seqs"
  by (induction seqs arbitrary: st) (auto simp: sw_step_def)

text \<open>
  C37.  Duplicate detection is exact within the window: after any sequence of insertions that
  never jump ahead by \<open>2 ^ 32\<close> or more, a number is reported as seen exactly when it was inserted
  or lies below the window; hence no duplicate is ever accepted.
\<close>

theorem seq_window_exact:
  assumes "ok_run sw_step sw_ok (sw_default, {}) seqs" "w = fst (foldl sw_step (sw_default, {}) seqs)"
  shows "(sw_contains s w \<longleftrightarrow> s \<in> set seqs \<or> s < sw_lower w) \<and> (\<forall>x \<in> set seqs. sw_contains x w)"
proof -
  have init: "sw_rel (sw_default, {})" by (simp add: sw_rel_def sw_inv_def sw_default_def)
  have "sw_inv w {s \<in> set seqs. sw_lower w \<le> s}"
    using swm.run_inv [OF init assms(1)] sw_run_snd [of "(sw_default, {})" seqs] assms(2) by (simp add: sw_rel_def)
  then have "sw_contains x w \<longleftrightarrow> x < sw_lower w \<or> x \<in> {s \<in> set seqs. sw_lower w \<le> s}" for x
    by (rule sw_contains_iff)
  then have "sw_contains x w \<longleftrightarrow> x \<in> set seqs \<or> x < sw_lower w" for x
    by (cases "x < sw_lower w") simp_all
  then show ?thesis by (simp only:) simp
qed

theorem seq_window_exact_witness:
  "sw_contains 5 (fst (foldl sw_step (sw_default, {}) [5, 3]))
   \<and> \<not> sw_contains 4 (fst (foldl sw_step (sw_default, {}) [5, 3]))"
proof -
  have "ok_run sw_step sw_ok (sw_default, {}) [5, 3]" by (simp add: sw_ok_def sw_default_def)
  moreover have "sw_lower (fst (foldl sw_step (sw_default, {}) [5, 3])) = 0"
    by (simp add: sw_step_def sw_insert_def sw_default_def sw_upper_def SEQ_NUM_WINDOW_SIZE_def Let_def
        sat_add64_def u64_max_def u64_mod_def sub64_def)
  ultimately show ?thesis
    using seq_window_exact [of "[5, 3]" _ 5] seq_window_exact [of "[5, 3]" _ 4] by simp
qed

text \<open>
  A jump ahead by exactly \<open>2 ^ 32\<close> does not move the recorded bits, because the shift amount
  is cut to 32 bits: numbers that were never inserted are then reported as seen.
\<close>

theorem seq_window_jump_wrong:
  "sw_contains (2 ^ 32 + 3) (sw_insert (2 ^ 32 + 127) (sw_insert 3 sw_default))"
proof -
  have w1: "sw_insert 3 sw_default = \<lparr>sw_lower = 0, sw_window = 2 ^ 124\<rparr>"
    by (simp add: sw_insert_def sw_default_def sw_upper_def sw_mask_def SEQ_NUM_WINDOW_SIZE_def Let_def
        sat_add64_def u64_max_def u64_mod_def sub64_def)
  have w2: "sw_insert (2 ^ 32 + 127) \<lparr>sw_lower = 0, sw_window = 2 ^ 124\<rparr>
      = \<lparr>sw_lower = 2 ^ 32, sw_window = 2 ^ 124 OR 1\<rparr>"
    by (simp add: sw_insert_def sw_upper_def sw_mask_def SEQ_NUM_WINDOW_SIZE_def Let_def shl_u32_def
        sat_add64_def u64_max_def u64_mod_def sub64_def add64_def)
  show ?thesis unfolding w1 w2
    by (simp add: sw_contains_def sw_upper_def sw_mask_def SEQ_NUM_WINDOW_SIZE_def
        sat_add64_def u64_max_def u64_mod_def sub64_def)
qed

end
