(* ===== verification/SendBuf.thy ===== *)
theory SendBuf
  imports RangeBuf Ranges Errors
begin

text \<open>
  The send buffer of \<open>src/connection/stream.rs\<close>: data written by the application, kept until it is
  acknowledged, with the ranges that are acknowledged and those that are to be retransmitted.
\<close>

definition SEND_BUFFER_SIZE :: usize where
  "SEND_BUFFER_SIZE = 4096"

record send_buf =
  sb_data :: "range_buf list"
  sb_pos :: usize
  sb_write_off :: u64
  sb_unsent_off :: u64
  sb_unacked_len :: usize
  sb_max_data :: u64
  sb_blocked_at :: "u64 option"
  sb_fin_off :: "u64 option"
  sb_shut :: bool
  sb_acked :: range_set
  sb_retransmits :: range_set
  sb_error :: "u64 option"

definition sb_new :: "u64 \<Rightarrow> send_buf" where
  "sb_new max_data =
     \<lparr>sb_data = [], sb_pos = 0, sb_write_off = 0, sb_unsent_off = 0, sb_unacked_len = 0,
      sb_max_data = max_data, sb_blocked_at = None, sb_fin_off = None, sb_shut = False,
      sb_acked = rs_default, sb_retransmits = rs_default, sb_error = None\<rparr>"

text \<open>The minimum exists exactly when there is something to retransmit.\<close>

definition sb_send_off :: "send_buf \<Rightarrow> u64" where
  "sb_send_off sb = (case rs_min (sb_retransmits sb) of Some m \<Rightarrow> m | None \<Rightarrow> sb_unsent_off sb)"

definition sb_capacity :: "send_buf \<Rightarrow> usize result" where
  "sb_capacity sb =
     (case sb_error sb of
        Some e \<Rightarrow> Inl (Err (StreamStopped e))
      | None \<Rightarrow> Inr (sub64 (sb_max_data sb) (sb_write_off sb)))"

definition sb_ready :: "send_buf \<Rightarrow> bool" where
  "sb_ready sb \<longleftrightarrow> sb_data sb \<noteq> [] \<and> sb_send_off sb < sb_write_off sb"

definition sb_update_max_data :: "u64 \<Rightarrow> send_buf \<Rightarrow> send_buf" where
  "sb_update_max_data max_data sb = sb\<lparr>sb_max_data := max (sb_max_data sb) max_data\<rparr>"

definition sb_update_blocked_at :: "u64 option \<Rightarrow> send_buf \<Rightarrow> send_buf" where
  "sb_update_blocked_at blocked_at sb = sb\<lparr>sb_blocked_at := blocked_at\<rparr>"

definition sb_ack_off :: "send_buf \<Rightarrow> u64" where
  "sb_ack_off sb =
     (case rs_set (sb_acked sb) of
        (start, stop) # _ \<Rightarrow> if start = 0 then stop else 0
      | [] \<Rightarrow> 0)"

definition sb_is_fin :: "send_buf \<Rightarrow> bool" where
  "sb_is_fin sb \<longleftrightarrow> sb_fin_off sb = Some (sb_write_off sb)"

definition sb_is_complete :: "send_buf \<Rightarrow> bool" where
  "sb_is_complete sb =
     (case sb_fin_off sb of
        Some fin_off \<Rightarrow> fin_off = 0 \<or> rs_eq_range (sb_acked sb) (0, fin_off)
      | None \<Rightarrow> False)"

definition sb_is_stopped :: "send_buf \<Rightarrow> bool" where
  "sb_is_stopped sb \<longleftrightarrow> sb_error sb \<noteq> None"

subsection \<open>Writing\<close>

definition push_chunk :: "byte list \<Rightarrow> bool \<Rightarrow> send_buf \<Rightarrow> send_buf" where
  "push_chunk chunk fin sb =
     (let buf = rb_new chunk (sb_write_off sb) fin
      in sb\<lparr>sb_write_off := add64 (sb_write_off sb) (rb_len buf), sb_data := sb_data sb @ [buf]\<rparr>)"

text \<open>Full chunks first, then what is left; \<open>len\<close> counts the bytes split off so far.\<close>

function push_chunks :: "byte list \<Rightarrow> bool \<Rightarrow> usize \<Rightarrow> usize \<Rightarrow> send_buf \<Rightarrow> send_buf" where
  "push_chunks data fin len data_len sb =
     (if length data > SEND_BUFFER_SIZE then
        let chunk = take SEND_BUFFER_SIZE data;
            len1 = len + length chunk
        in push_chunks (drop SEND_BUFFER_SIZE data) fin len1 data_len (push_chunk chunk (len1 = data_len \<and> fin) sb)
      else if data \<noteq> [] then push_chunk data fin sb
      else sb)"
  by pat_completeness auto
termination
  by (relation "measure (\<lambda>(data, _). length data)") (auto simp: SEND_BUFFER_SIZE_def)

declare push_chunks.simps [simp del]

definition sb_write :: "byte list \<Rightarrow> bool \<Rightarrow> send_buf \<Rightarrow> send_buf \<times> usize result" where
  "sb_write data0 fin0 sb =
     (let max_off = add64 (sb_write_off sb) (length data0)
      in case sb_capacity sb of
           Inl e \<Rightarrow> (sb, Inl e)
         | Inr capacity \<Rightarrow>
             let data = (if length data0 > capacity then take capacity data0 else data0);
                 fin = (if length data0 > capacity then False else fin0)
             in if (case sb_fin_off sb of
                      Some fin_off \<Rightarrow> max_off > fin_off \<or> (max_off = fin_off \<and> \<not> fin)
                    | None \<Rightarrow> False) then (sb, Inl (Err FinalSizeError))
                else
                  let sb1 = (if fin then sb\<lparr>sb_fin_off := Some max_off\<rparr> else sb)
                  in if data = [] then (sb1, Inr 0)
                     else
                       let sb2 = push_chunks data fin 0 (length data) sb1
                       in (sb2\<lparr>sb_unacked_len := add64 (sb_unacked_len sb2) (length data)\<rparr>, Inr (length data)))"

subsection \<open>Reading what is to be sent\<close>

definition poll_transmit :: "usize \<Rightarrow> send_buf \<Rightarrow> range \<times> send_buf" where
  "poll_transmit max_len sb =
     (case rs_pop_min (sb_retransmits sb) of
        (Some (start, stop), rtx) \<Rightarrow>
          let e = min stop (sat_add64 start max_len)
          in ((start, e), sb\<lparr>sb_retransmits := (if e \<noteq> stop then rs_insert rtx (e, stop) else rtx)\<rparr>)
      | (None, _) \<Rightarrow>
          let e = min (sb_write_off sb) (sat_add64 (sb_unsent_off sb) max_len)
          in ((sb_unsent_off sb, e), sb\<lparr>sb_unsent_off := e\<rparr>))"

text \<open>
  The segments from \<open>pos\<close> on, and the position after the search; \<^const>\<open>None\<close> is the panic of a slice out
  of range.
\<close>

fun read_segments :: "range \<Rightarrow> range_buf list \<Rightarrow> usize \<Rightarrow> (byte list \<times> usize) option" where
  "read_segments rg [] pos = Some ([], pos)"
| "read_segments (start, stop) (seg # segs) pos =
     (if start \<ge> rb_off seg \<and> start < rb_max_off seg then
        let a = sub64 start (rb_off seg);
            e = min (sub64 stop (rb_off seg)) (rb_len seg)
        in (case slice a e (rb_data seg) of
              None \<Rightarrow> None
            | Some bs \<Rightarrow> Some (bs, if e = rb_len seg then pos + 1 else pos))
      else read_segments (start, stop) segs (pos + 1))"

definition read_range :: "range \<Rightarrow> send_buf \<Rightarrow> (byte list \<times> send_buf) option" where
  "read_range rg sb =
     (case read_segments rg (drop (sb_pos sb) (sb_data sb)) (sb_pos sb) of
        None \<Rightarrow> None
      | Some (bs, pos) \<Rightarrow> Some (bs, sb\<lparr>sb_pos := pos\<rparr>))"

text \<open>
  The inner loop of \<open>read\<close>, which copies to an output buffer of \<open>room\<close> bytes, of which \<open>out\<close> are written;
  \<^const>\<open>None\<close> is a panic, when the copy would exceed the buffer, or a loop that does not end.
\<close>

partial_function (option) copy_range ::
    "usize \<Rightarrow> u64 \<Rightarrow> u64 \<Rightarrow> byte list \<Rightarrow> send_buf \<Rightarrow> (byte list \<times> send_buf) option" where
  "copy_range room start stop out sb =
     (if start = stop then Some (out, sb)
      else
        (case read_range (start, stop) sb of
           None \<Rightarrow> None
         | Some (bs, sb1) \<Rightarrow>
             if length out + length bs > room then None
             else copy_range room (add64 start (length bs)) stop (out @ bs) sb1))"

partial_function (option) send_loop ::
    "usize \<Rightarrow> usize \<Rightarrow> u64 \<Rightarrow> byte list \<Rightarrow> send_buf \<Rightarrow> (usize \<times> u64 \<times> byte list \<times> send_buf) option" where
  "send_loop room cap next_off out sb =
     (if cap > 0 \<and> sb_ready sb \<and> sb_send_off sb = next_off \<and> sb_send_off sb < sb_max_data sb then
        let (rg, sb1) = poll_transmit cap sb;
            range_len = sub64 (snd rg) (fst rg)
        in (case copy_range room (fst rg) (snd rg) out sb1 of
              None \<Rightarrow> None
            | Some (out1, sb2) \<Rightarrow> send_loop room (sub64 cap range_len) (add64 next_off range_len) out1 sb2)
      else Some (cap, next_off, out, sb))"

text \<open>The bytes copied to the output buffer of length \<open>cap\<close>, their number and the fin flag.\<close>

definition sb_read :: "usize \<Rightarrow> send_buf \<Rightarrow> (send_buf \<times> byte list \<times> usize \<times> bool) option" where
  "sb_read cap sb =
     (case send_loop cap cap (sb_send_off sb) [] sb of
        None \<Rightarrow> None
      | Some (cap', next_off, out, sb') \<Rightarrow> Some (sb', out, sub64 cap cap', sb_fin_off sb' = Some next_off))"

subsection \<open>Acknowledgements and losses\<close>

definition sb_ack :: "u64 \<Rightarrow> usize \<Rightarrow> send_buf \<Rightarrow> send_buf" where
  "sb_ack off len sb = sb\<lparr>sb_acked := rs_insert (sb_acked sb) (off, add64 off len)\<rparr>"

fun drop_loop :: "usize \<Rightarrow> range_buf list \<Rightarrow> usize \<Rightarrow> (range_buf list \<times> usize) option" where
  "drop_loop to_advance [] drops = (if to_advance > 0 then None else Some ([], drops))"
| "drop_loop to_advance (front # data) drops =
     (if to_advance = 0 then Some (front # data, drops)
      else if rb_len front \<le> to_advance then drop_loop (to_advance - rb_len front) data (drops + 1)
      else (case rb_advance to_advance front of
              None \<Rightarrow> None
            | Some front' \<Rightarrow> Some (front' # data, drops)))"

text \<open>\<^const>\<open>None\<close> is the panic of \<open>front_mut().unwrap()\<close>.\<close>

definition sb_ack_and_drop :: "u64 \<Rightarrow> usize \<Rightarrow> send_buf \<Rightarrow> send_buf option" where
  "sb_ack_and_drop off len sb =
     (if sb_data sb = [] then Some (sb\<lparr>sb_retransmits := rs_clear (sb_retransmits sb)\<rparr>)
      else
        let sb1 = sb_ack off len sb;
            sb2 = sb1\<lparr>sb_retransmits := rs_remove (sb_retransmits sb1) (off, add64 off len)\<rparr>;
            ack_off = sb_ack_off sb2
        in if off > ack_off then Some sb2
           else
             let base_off = sub64 (sb_write_off sb2) (sb_unacked_len sb2);
                 to_advance = sub64 ack_off base_off;
                 sb3 = sb2\<lparr>sb_unacked_len := sub64 (sb_unacked_len sb2) to_advance\<rparr>
             in (case drop_loop to_advance (sb_data sb3) 0 of
                   None \<Rightarrow> None
                 | Some (data, drop_blocks) \<Rightarrow>
                     Some (sb3\<lparr>sb_data := data, sb_pos := sb_pos sb3 - drop_blocks\<rparr>)))"

text \<open>The search through the acknowledged ranges: what is left of the lost range, and the pieces queued.\<close>

fun lost_loop :: "range list \<Rightarrow> u64 \<Rightarrow> u64 \<Rightarrow> range_set \<Rightarrow> u64 \<times> u64 \<times> range_set" where
  "lost_loop [] start stop rtx = (start, stop, rtx)"
| "lost_loop ((rs, re) # acked) start stop rtx =
     (if stop \<le> rs then (start, stop, rtx)
      else if start \<ge> re then lost_loop acked start stop rtx
      else if start < rs then
        (if stop \<le> re then (start, rs, rtx)
         else lost_loop acked re stop (rs_insert rtx (start, rs)))
      else
        (if stop \<le> re then (start, start, rtx)
         else lost_loop acked re stop rtx))"

definition sb_retransmit :: "u64 \<Rightarrow> usize \<Rightarrow> send_buf \<Rightarrow> send_buf" where
  "sb_retransmit off len sb =
     (let stop = add64 off len;
          old_send_off = sb_send_off sb
      in if sb_data sb = [] then sb
         else if stop \<le> sb_ack_off sb then sb
         else
           let (start', stop', rtx) = lost_loop (rs_set (sb_acked sb)) off stop (sb_retransmits sb);
               sb1 = sb\<lparr>sb_retransmits := rs_insert rtx (start', stop')\<rparr>
           in if sb_send_off sb1 < old_send_off then sb1\<lparr>sb_pos := 0\<rparr> else sb1)"

definition sb_filter_acked :: "range \<Rightarrow> send_buf \<Rightarrow> range option" where
  "sb_filter_acked rg sb = rs_filter (sb_acked sb) rg"

subsection \<open>Reset, stop and shutdown\<close>

definition sb_reset :: "send_buf \<Rightarrow> send_buf \<times> u64 \<times> u64" where
  "sb_reset sb =
     (let unsent_len = sb_write_off sb - sb_unsent_off sb;
          sb1 = sb\<lparr>sb_fin_off := Some (sb_unsent_off sb), sb_data := []\<rparr>;
          sb2 = sb_ack 0 (sb_unsent_off sb1) sb1;
          sb3 = sb2\<lparr>sb_pos := 0, sb_write_off := sb_unsent_off sb2\<rparr>
      in (sb3, sb_unsent_off sb, unsent_len))"

definition sb_stop :: "u64 \<Rightarrow> send_buf \<Rightarrow> send_buf \<times> (u64 \<times> u64) result" where
  "sb_stop error_code sb =
     (if sb_error sb \<noteq> None then (sb, Inl (Err Done))
      else
        let (sb1, fin_off, unsent) = sb_reset sb
        in (sb1\<lparr>sb_error := Some error_code\<rparr>, Inr (fin_off, unsent)))"

definition sb_shutdown :: "send_buf \<Rightarrow> send_buf \<times> (u64 \<times> u64) result" where
  "sb_shutdown sb =
     (if sb_shut sb then (sb, Inl (Err Done))
      else
        let (sb1, fin_off, unsent) = sb_reset (sb\<lparr>sb_shut := True\<rparr>)
        in (sb1, Inr (fin_off, unsent)))"

end
