(* ===== verification/Streams.thy ===== *)
theory Streams
  imports RecvBuf SendBuf
begin

text \<open>
  \<open>Stream\<close> of \<open>src/connection/stream.rs\<close>: the two buffers of a stream with its flags.  The flags are
  a set; the context of the application and the trace identifier are left out.
\<close>

datatype stream_flag = WantRead | WantWrite | Closed

record stream =
  st_bidi :: bool
  st_local :: bool
  st_urgency :: nat
  st_incremental :: bool
  st_recv :: recv_buf
  st_send :: send_buf
  st_write_thresh :: usize
  st_flags :: "stream_flag set"

definition st_new :: "bool \<Rightarrow> bool \<Rightarrow> u64 \<Rightarrow> u64 \<Rightarrow> u64 \<Rightarrow> stream" where
  "st_new bidi loc max_tx_data max_rx_data max_window =
     \<lparr>st_bidi = bidi, st_local = loc, st_urgency = 127, st_incremental = True,
      st_recv = rv_new max_rx_data max_window, st_send = sb_new max_tx_data, st_write_thresh = 1,
      st_flags = (if bidi then {WantRead, WantWrite} else if loc then {WantWrite} else {WantRead})\<rparr>"

definition st_is_readable :: "stream \<Rightarrow> bool" where
  "st_is_readable st \<longleftrightarrow> rv_ready (st_recv st)"

definition st_is_writable :: "stream \<Rightarrow> bool" where
  "st_is_writable st \<longleftrightarrow> \<not> sb_is_fin (st_send st) \<and> \<not> sb_shut (st_send st)
     \<and> add64 (sb_write_off (st_send st)) (st_write_thresh st) \<le> sb_max_data (st_send st)"

definition st_is_sendable :: "stream \<Rightarrow> bool" where
  "st_is_sendable st \<longleftrightarrow> sb_ready (st_send st)"

text \<open>The receive side is complete when all data up to its final size has been read.\<close>

definition st_is_complete :: "stream \<Rightarrow> bool" where
  "st_is_complete st =
     (if st_bidi st then sb_is_complete (st_send st) \<and> rv_is_complete (st_recv st)
      else if st_local st then sb_is_complete (st_send st)
      else rv_is_complete (st_recv st))"

definition st_is_draining :: "stream \<Rightarrow> bool" where
  "st_is_draining st \<longleftrightarrow> rv_is_shutdown (st_recv st)"

definition st_mark_wantwrite :: "bool \<Rightarrow> stream \<Rightarrow> stream \<times> unit result" where
  "st_mark_wantwrite flag st =
     (if \<not> st_bidi st \<and> \<not> st_local st then (st, Inl (Err InternalError))
      else (st\<lparr>st_flags := (if flag then insert WantWrite (st_flags st) else st_flags st - {WantWrite})\<rparr>, Inr ()))"

definition st_mark_wantread :: "bool \<Rightarrow> stream \<Rightarrow> stream \<times> unit result" where
  "st_mark_wantread flag st =
     (if \<not> st_bidi st \<and> st_local st then (st, Inl (Err InternalError))
      else (st\<lparr>st_flags := (if flag then insert WantRead (st_flags st) else st_flags st - {WantRead})\<rparr>, Inr ()))"

definition st_mark_closed :: "stream \<Rightarrow> stream" where
  "st_mark_closed st = st\<lparr>st_flags := insert Closed (st_flags st)\<rparr>"

end
