(* ===== verification/Concurrency.thy ===== *)
theory Concurrency
  imports Ranges Errors
begin

text \<open>
  \<open>ConcurrencyControl\<close> and \<open>SendCapacity\<close> of \<open>src/connection/stream.rs\<close>: how many streams each side may
  open, which stream identifiers are still available, and the credit of the connection for sending.
\<close>

unbundle bit_operations_syntax

declare rs_insert.simps [simp del] rs_remove.simps [simp del]

definition is_local :: "u64 \<Rightarrow> bool \<Rightarrow> bool" where
  "is_local stream_id is_server \<longleftrightarrow> stream_id AND 1 = of_bool is_server"

definition is_bidi :: "u64 \<Rightarrow> bool" where
  "is_bidi stream_id \<longleftrightarrow> stream_id AND 2 = 0"

record concurrency_control =
  peer_max_streams_bidi :: u64
  peer_max_streams_uni :: u64
  peer_opened_streams_bidi :: u64
  peer_opened_streams_uni :: u64
  local_max_streams_bidi :: u64
  local_max_streams_bidi_next :: u64
  local_max_streams_uni :: u64
  local_max_streams_uni_next :: u64
  local_opened_streams_bidi :: u64
  local_opened_streams_uni :: u64
  streams_blocked_at_bidi :: "u64 option"
  streams_blocked_at_uni :: "u64 option"
  peer_bidi_avail_ids :: range_set
  peer_uni_avail_ids :: range_set
  local_bidi_avail_ids :: range_set
  local_uni_avail_ids :: range_set

definition cc_new :: "u64 \<Rightarrow> u64 \<Rightarrow> concurrency_control" where
  "cc_new max_bidi max_uni =
     \<lparr>peer_max_streams_bidi = 0, peer_max_streams_uni = 0,
      peer_opened_streams_bidi = 0, peer_opened_streams_uni = 0,
      local_max_streams_bidi = max_bidi, local_max_streams_bidi_next = max_bidi,
      local_max_streams_uni = max_uni, local_max_streams_uni_next = max_uni,
      local_opened_streams_bidi = 0, local_opened_streams_uni = 0,
      streams_blocked_at_bidi = None, streams_blocked_at_uni = None,
      peer_bidi_avail_ids = rs_insert rs_default (0, max_bidi),
      peer_uni_avail_ids = rs_insert rs_default (0, max_uni),
      local_bidi_avail_ids = rs_default, local_uni_avail_ids = rs_default\<rparr>"

definition insert_avail_id :: "range \<Rightarrow> bool \<Rightarrow> bool \<Rightarrow> concurrency_control \<Rightarrow> concurrency_control" where
  "insert_avail_id ids loc bidi cc =
     (if loc then
        if bidi then cc\<lparr>local_bidi_avail_ids := rs_insert (local_bidi_avail_ids cc) ids\<rparr>
        else cc\<lparr>local_uni_avail_ids := rs_insert (local_uni_avail_ids cc) ids\<rparr>
      else
        if bidi then cc\<lparr>peer_bidi_avail_ids := rs_insert (peer_bidi_avail_ids cc) ids\<rparr>
        else cc\<lparr>peer_uni_avail_ids := rs_insert (peer_uni_avail_ids cc) ids\<rparr>)"

text \<open>The order on options puts \<^const>\<open>None\<close> first.\<close>

definition above_blocked :: "u64 \<Rightarrow> u64 option \<Rightarrow> bool" where
  "above_blocked n blocked = (case blocked of None \<Rightarrow> True | Some m \<Rightarrow> n > m)"

definition update_peer_max_streams :: "bool \<Rightarrow> u64 \<Rightarrow> concurrency_control \<Rightarrow> concurrency_control" where
  "update_peer_max_streams bidi max_streams cc =
     (if bidi then
        let cc1 = (if peer_max_streams_bidi cc < max_streams then
                     (insert_avail_id (peer_max_streams_bidi cc, max_streams) True True cc)
                       \<lparr>peer_max_streams_bidi := max_streams\<rparr>
                   else cc)
        in if above_blocked (peer_max_streams_bidi cc1) (streams_blocked_at_bidi cc1)
           then cc1\<lparr>streams_blocked_at_bidi := None\<rparr> else cc1
      else
        let cc1 = (if peer_max_streams_uni cc < max_streams then
                     (insert_avail_id (peer_max_streams_uni cc, max_streams) True False cc)
                       \<lparr>peer_max_streams_uni := max_streams\<rparr>
                   else cc)
        in if above_blocked (peer_max_streams_uni cc1) (streams_blocked_at_uni cc1)
           then cc1\<lparr>streams_blocked_at_uni := None\<rparr> else cc1)"

definition update_local_max_streams :: "bool \<Rightarrow> concurrency_control \<Rightarrow> concurrency_control" where
  "update_local_max_streams bidi cc =
     (if bidi then
        (insert_avail_id (local_max_streams_bidi cc, local_max_streams_bidi_next cc) False True cc)
          \<lparr>local_max_streams_bidi := local_max_streams_bidi_next cc\<rparr>
      else
        (insert_avail_id (local_max_streams_uni cc, local_max_streams_uni_next cc) False False cc)
          \<lparr>local_max_streams_uni := local_max_streams_uni_next cc\<rparr>)"

definition peer_max_streams :: "bool \<Rightarrow> concurrency_control \<Rightarrow> u64" where
  "peer_max_streams bidi cc = (if bidi then peer_max_streams_bidi cc else peer_max_streams_uni cc)"

definition peer_streams_left :: "bool \<Rightarrow> concurrency_control \<Rightarrow> u64" where
  "peer_streams_left bidi cc =
     (if bidi then sub64 (peer_max_streams_bidi cc) (local_opened_streams_bidi cc)
      else sub64 (peer_max_streams_uni cc) (local_opened_streams_uni cc))"

definition should_update_local_max_streams :: "bool \<Rightarrow> concurrency_control \<Rightarrow> bool" where
  "should_update_local_max_streams bidi cc =
     (if bidi then
        local_max_streams_bidi_next cc \<noteq> local_max_streams_bidi cc
          \<and> sub64 (local_max_streams_bidi_next cc) (local_max_streams_bidi cc)
              > sub64 (local_max_streams_bidi cc) (peer_opened_streams_bidi cc)
      else
        local_max_streams_uni_next cc \<noteq> local_max_streams_uni cc
          \<and> sub64 (local_max_streams_uni_next cc) (local_max_streams_uni cc)
              > sub64 (local_max_streams_uni cc) (peer_opened_streams_uni cc))"

definition increase_max_streams_credits :: "bool \<Rightarrow> u64 \<Rightarrow> concurrency_control \<Rightarrow> concurrency_control" where
  "increase_max_streams_credits bidi delta cc =
     (if bidi then cc\<lparr>local_max_streams_bidi_next := sat_add64 (local_max_streams_bidi_next cc) delta\<rparr>
      else cc\<lparr>local_max_streams_uni_next := sat_add64 (local_max_streams_uni_next cc) delta\<rparr>)"

definition update_streams_blocked_at :: "bool \<Rightarrow> u64 option \<Rightarrow> concurrency_control \<Rightarrow> concurrency_control" where
  "update_streams_blocked_at bidi blocked_at cc =
     (if bidi then cc\<lparr>streams_blocked_at_bidi := blocked_at\<rparr> else cc\<lparr>streams_blocked_at_uni := blocked_at\<rparr>)"

definition check_concurrency_limits :: "u64 \<Rightarrow> bool \<Rightarrow> concurrency_control \<Rightarrow> concurrency_control \<times> unit result" where
  "check_concurrency_limits sid is_server cc =
     (let stream_sequence = add64 (drop_bit 2 sid) 1
      in if is_local sid is_server then
           if is_bidi sid then
             let n = max (local_opened_streams_bidi cc) stream_sequence
             in if n > peer_max_streams_bidi cc then
                  (update_streams_blocked_at True (Some (peer_max_streams_bidi cc)) cc, Inl (Err StreamLimitError))
                else (cc\<lparr>local_opened_streams_bidi := max (local_opened_streams_bidi cc) n\<rparr>, Inr ())
           else
             let n = max (local_opened_streams_uni cc) stream_sequence
             in if n > peer_max_streams_uni cc then
                  (update_streams_blocked_at False (Some (peer_max_streams_uni cc)) cc, Inl (Err StreamLimitError))
                else (cc\<lparr>local_opened_streams_uni := max (local_opened_streams_uni cc) n\<rparr>, Inr ())
         else
           if is_bidi sid then
             let n = max (peer_opened_streams_bidi cc) stream_sequence
             in if n > local_max_streams_bidi cc then (cc, Inl (Err StreamLimitError))
                else (cc\<lparr>peer_opened_streams_bidi := max (peer_opened_streams_bidi cc) n\<rparr>, Inr ())
           else
             let n = max (peer_opened_streams_uni cc) stream_sequence
             in if n > local_max_streams_uni cc then (cc, Inl (Err StreamLimitError))
                else (cc\<lparr>peer_opened_streams_uni := max (peer_opened_streams_uni cc) n\<rparr>, Inr ()))"

definition is_limited :: "u64 \<Rightarrow> bool \<Rightarrow> concurrency_control \<Rightarrow> bool" where
  "is_limited stream_id is_server cc =
     (let seq = add64 (drop_bit 2 stream_id) 1
      in if is_local stream_id is_server then
           if is_bidi stream_id then seq > peer_max_streams_bidi cc else seq > peer_max_streams_uni cc
         else
           if is_bidi stream_id then seq > local_max_streams_bidi cc else seq > local_max_streams_uni cc)"

definition is_available :: "u64 \<Rightarrow> bool \<Rightarrow> concurrency_control \<Rightarrow> bool" where
  "is_available stream_id is_server cc =
     (let i = drop_bit 2 stream_id
      in if is_local stream_id is_server then
           if is_bidi stream_id then rs_contains (local_bidi_avail_ids cc) i else rs_contains (local_uni_avail_ids cc) i
         else
           if is_bidi stream_id then rs_contains (peer_bidi_avail_ids cc) i else rs_contains (peer_uni_avail_ids cc) i)"

definition remove_avail_id :: "u64 \<Rightarrow> bool \<Rightarrow> concurrency_control \<Rightarrow> concurrency_control" where
  "remove_avail_id stream_id is_server cc =
     (let i = drop_bit 2 stream_id
      in if is_local stream_id is_server then
           if is_bidi stream_id then cc\<lparr>local_bidi_avail_ids := rs_remove_elem (local_bidi_avail_ids cc) i\<rparr>
           else cc\<lparr>local_uni_avail_ids := rs_remove_elem (local_uni_avail_ids cc) i\<rparr>
         else
           if is_bidi stream_id then cc\<lparr>peer_bidi_avail_ids := rs_remove_elem (peer_bidi_avail_ids cc) i\<rparr>
           else cc\<lparr>peer_uni_avail_ids := rs_remove_elem (peer_uni_avail_ids cc) i\<rparr>)"

subsection \<open>The credit of the connection\<close>

record send_capacity =
  sc_max_data :: u64
  sc_tx_data :: u64
  sc_capacity :: usize
  sc_blocked_at :: "u64 option"

definition sc_update_max_data :: "u64 \<Rightarrow> send_capacity \<Rightarrow> send_capacity" where
  "sc_update_max_data max_data sc = sc\<lparr>sc_max_data := max (sc_max_data sc) max_data\<rparr>"

definition sc_update_capacity :: "send_capacity \<Rightarrow> send_capacity" where
  "sc_update_capacity sc = sc\<lparr>sc_capacity := sub64 (sc_max_data sc) (sc_tx_data sc)\<rparr>"

definition sc_update_blocked_at :: "u64 option \<Rightarrow> send_capacity \<Rightarrow> send_capacity" where
  "sc_update_blocked_at blocked_at sc = sc\<lparr>sc_blocked_at := blocked_at\<rparr>"


subsection \<open>The four kinds of streams\<close>

text \<open>Limit, count and available numbers of the streams opened locally or by the peer.\<close>

definition cc_limit :: "bool \<Rightarrow> bool \<Rightarrow> concurrency_control \<Rightarrow> u64" where
  "cc_limit loc bidi cc =
     (if loc then if bidi then peer_max_streams_bidi cc else peer_max_streams_uni cc
      else if bidi then local_max_streams_bidi cc else local_max_streams_uni cc)"

definition cc_next :: "bool \<Rightarrow> concurrency_control \<Rightarrow> u64" where
  "cc_next bidi cc = (if bidi then local_max_streams_bidi_next cc else local_max_streams_uni_next cc)"

definition cc_opened :: "bool \<Rightarrow> bool \<Rightarrow> concurrency_control \<Rightarrow> u64" where
  "cc_opened loc bidi cc =
     (if loc then if bidi then local_opened_streams_bidi cc else local_opened_streams_uni cc
      else if bidi then peer_opened_streams_bidi cc else peer_opened_streams_uni cc)"

definition cc_avail :: "bool \<Rightarrow> bool \<Rightarrow> concurrency_control \<Rightarrow> range_set" where
  "cc_avail loc bidi cc =
     (if loc then if bidi then local_bidi_avail_ids cc else local_uni_avail_ids cc
      else if bidi then peer_bidi_avail_ids cc else peer_uni_avail_ids cc)"

lemmas cc_kind_defs = cc_limit_def cc_next_def cc_opened_def cc_avail_def

lemma update_peer_max_streams_kind:
  "cc_limit l b (update_peer_max_streams bidi n cc) = (if l \<and> b = bidi then max (cc_limit l b cc) n else cc_limit l b cc)"
  "cc_next b (update_peer_max_streams bidi n cc) = cc_next b cc"
  "cc_opened l b (update_peer_max_streams bidi n cc) = cc_opened l b cc"
  "cc_avail l b (update_peer_max_streams bidi n cc)
     = (if l \<and> b = bidi \<and> cc_limit l b cc < n then rs_insert (cc_avail l b cc) (cc_limit l b cc, n) else cc_avail l b cc)"
  by (cases l; cases b; cases bidi; simp add: update_peer_max_streams_def insert_avail_id_def cc_kind_defs Let_def)+

lemma update_local_max_streams_kind:
  "cc_limit l b (update_local_max_streams bidi cc) = (if \<not> l \<and> b = bidi then cc_next b cc else cc_limit l b cc)"
  "cc_next b (update_local_max_streams bidi cc) = cc_next b cc"
  "cc_opened l b (update_local_max_streams bidi cc) = cc_opened l b cc"
  "cc_avail l b (update_local_max_streams bidi cc)
     = (if \<not> l \<and> b = bidi then rs_insert (cc_avail l b cc) (cc_limit l b cc, cc_next b cc) else cc_avail l b cc)"
  by (cases l; cases b; cases bidi; simp add: update_local_max_streams_def insert_avail_id_def cc_kind_defs)+

lemma increase_credits_kind:
  "cc_limit l b (increase_max_streams_credits bidi d cc) = cc_limit l b cc"
  "cc_next b (increase_max_streams_credits bidi d cc) = (if b = bidi then sat_add64 (cc_next b cc) d else cc_next b cc)"
  "cc_opened l b (increase_max_streams_credits bidi d cc) = cc_opened l b cc"
  "cc_avail l b (increase_max_streams_credits bidi d cc) = cc_avail l b cc"
  by (cases l; cases b; cases bidi; simp add: increase_max_streams_credits_def cc_kind_defs)+

lemma remove_avail_id_kind:
  "cc_limit l b (remove_avail_id sid s cc) = cc_limit l b cc"
  "cc_next b (remove_avail_id sid s cc) = cc_next b cc"
  "cc_opened l b (remove_avail_id sid s cc) = cc_opened l b cc"
  "cc_avail l b (remove_avail_id sid s cc)
     = (if l = is_local sid s \<and> b = is_bidi sid then rs_remove_elem (cc_avail l b cc) (drop_bit 2 sid) else cc_avail l b cc)"
  by (cases l; cases b; cases "is_local sid s"; cases "is_bidi sid"; simp add: remove_avail_id_def cc_kind_defs Let_def)+

lemma is_available_kind: "is_available sid s cc = rs_contains (cc_avail (is_local sid s) (is_bidi sid) cc) (drop_bit 2 sid)"
  by (simp add: is_available_def cc_avail_def Let_def)

lemma is_limited_kind: "is_limited sid s cc \<longleftrightarrow> add64 (drop_bit 2 sid) 1 > cc_limit (is_local sid s) (is_bidi sid) cc"
  by (simp add: is_limited_def cc_limit_def Let_def)

lemma check_limits_kind:
  assumes "check_concurrency_limits sid s cc = (cc', res)"
  shows "cc_limit l b cc' = cc_limit l b cc" "cc_next b cc' = cc_next b cc" "cc_avail l b cc' = cc_avail l b cc"
    "res = (if max (cc_opened (is_local sid s) (is_bidi sid) cc) (add64 (drop_bit 2 sid) 1) > cc_limit (is_local sid s) (is_bidi sid) cc
            then Inl (Err StreamLimitError) else Inr ())"
    "cc_opened l b cc' = (if res = Inr () \<and> l = is_local sid s \<and> b = is_bidi sid
       then max (cc_opened l b cc) (add64 (drop_bit 2 sid) 1) else cc_opened l b cc)"
  using assms
  by (cases l; cases b; cases "is_local sid s"; cases "is_bidi sid";
      auto simp: check_concurrency_limits_def update_streams_blocked_at_def cc_kind_defs Let_def split: if_splits)+

subsection \<open>Runs\<close>

datatype cc_op =
    CcPeerMax bool u64
  | CcLocalMax bool
  | CcCredit bool u64
  | CcOpen u64

text \<open>The control block with the identifiers of the streams opened so far; opening a stream makes the
  two calls that \<open>StreamMap::get_or_create\<close> makes.\<close>

fun cc_step :: "bool \<Rightarrow> concurrency_control \<times> u64 list \<Rightarrow> cc_op \<Rightarrow> concurrency_control \<times> u64 list" where
  "cc_step s (cc, ids) (CcPeerMax bidi n) = (update_peer_max_streams bidi n cc, ids)"
| "cc_step s (cc, ids) (CcLocalMax bidi) = (update_local_max_streams bidi cc, ids)"
| "cc_step s (cc, ids) (CcCredit bidi d) = (increase_max_streams_credits bidi d cc, ids)"
| "cc_step s (cc, ids) (CcOpen i) =
     (case check_concurrency_limits i s cc of
        (cc', Inl _) \<Rightarrow> (cc', ids)
      | (cc', Inr _) \<Rightarrow> (remove_avail_id i s cc', i # ids))"

fun cc_ok :: "concurrency_control \<times> u64 list \<Rightarrow> cc_op \<Rightarrow> bool" where
  "cc_ok _ (CcPeerMax bidi n) \<longleftrightarrow> n < u64_mod"
| "cc_ok _ (CcOpen i) \<longleftrightarrow> i < 2 ^ 62"
| "cc_ok _ _ \<longleftrightarrow> True"

definition seqs :: "bool \<Rightarrow> bool \<Rightarrow> bool \<Rightarrow> u64 list \<Rightarrow> nat set" where
  "seqs s l b ids = drop_bit 2 ` {i \<in> set ids. is_local i s = l \<and> is_bidi i = b}"

lemma seqs_Cons: "seqs s l b (i # ids) = (if is_local i s = l \<and> is_bidi i = b then insert (drop_bit 2 i) (seqs s l b ids) else seqs s l b ids)"
  by (auto simp: seqs_def)

definition kind_inv :: "bool \<Rightarrow> concurrency_control \<Rightarrow> u64 list \<Rightarrow> bool \<Rightarrow> bool \<Rightarrow> bool" where
  "kind_inv s cc ids l b \<longleftrightarrow> rs_inv (cc_avail l b cc) \<and> cc_limit l b cc < u64_mod \<and> cc_next b cc < u64_mod
     \<and> cc_limit False b cc \<le> cc_next b cc \<and> cc_opened l b cc \<le> cc_limit l b cc
     \<and> seqs s l b ids \<subseteq> {..<cc_opened l b cc}
     \<and> rs_nums (cc_avail l b cc) = {..<cc_limit l b cc} - seqs s l b ids"

definition cc_inv :: "bool \<Rightarrow> concurrency_control \<times> u64 list \<Rightarrow> bool" where
  "cc_inv s st \<longleftrightarrow> (\<forall>l b. kind_inv s (fst st) (snd st) l b)"

lemma kind_invD:
  assumes "kind_inv s cc ids l b"
  shows "rs_inv (cc_avail l b cc)" "cc_limit l b cc < u64_mod" "cc_next b cc < u64_mod"
    "cc_limit False b cc \<le> cc_next b cc" "cc_opened l b cc \<le> cc_limit l b cc"
    "seqs s l b ids \<subseteq> {..<cc_opened l b cc}"
    "rs_nums (cc_avail l b cc) = {..<cc_limit l b cc} - seqs s l b ids"
  using assms unfolding kind_inv_def by blast+

lemma grow_avail:
  assumes "kind_inv s cc ids l b" "n < u64_mod" "cc_limit l b cc \<le> n"
  shows "rs_inv (rs_insert (cc_avail l b cc) (cc_limit l b cc, n))"
    "rs_nums (rs_insert (cc_avail l b cc) (cc_limit l b cc, n)) = {..<n} - seqs s l b ids"
proof -
  note k = kind_invD [OF assms(1)]
  show "rs_inv (rs_insert (cc_avail l b cc) (cc_limit l b cc, n))" using k(1) assms(2) by (rule urs.invar_ins)
  have "rs_nums (rs_insert (cc_avail l b cc) (cc_limit l b cc, n)) = ({..<cc_limit l b cc} - seqs s l b ids) \<union> {cc_limit l b cc..<n}"
    using urs.elems_ins [OF k(1) assms(2)] k(7) by simp
  also have "\<dots> = {..<n} - seqs s l b ids"
  proof -
    have "seqs s l b ids \<subseteq> {..<cc_limit l b cc}" using k(5,6) by (meson lessThan_subset_iff order_trans)
    then have "seqs s l b ids \<inter> {cc_limit l b cc..<n} = {}" by fastforce
    moreover have "{..<n} = {..<cc_limit l b cc} \<union> {cc_limit l b cc..<n}" using assms(3) by auto
    ultimately show ?thesis by blast
  qed
  finally show "rs_nums (rs_insert (cc_avail l b cc) (cc_limit l b cc, n)) = {..<n} - seqs s l b ids" .
qed


lemma cc_peer_max_inv:
  assumes "cc_inv s (cc, ids)" "n < u64_mod"
  shows "cc_inv s (update_peer_max_streams bidi n cc, ids)"
proof -
  have "kind_inv s (update_peer_max_streams bidi n cc) ids l b" for l b
  proof -
    have ki: "kind_inv s cc ids l b" using assms(1) by (simp add: cc_inv_def)
    note k = kind_invD [OF ki]
    show ?thesis
    proof (cases "l \<and> b = bidi \<and> cc_limit l b cc < n")
      case True
      then have lim: "cc_limit l b cc \<le> n" "l" "b = bidi" by auto
      from True grow_avail [OF ki assms(2) lim(1)] k assms(2) lim show ?thesis unfolding kind_inv_def
        by (simp add: update_peer_max_streams_kind max_def)
    next
      case False
      then have "(if l \<and> b = bidi then max (cc_limit l b cc) n else cc_limit l b cc) = cc_limit l b cc" by auto
      with False ki show ?thesis unfolding kind_inv_def update_peer_max_streams_kind by (simp only: if_False) simp
    qed
  qed
  then show ?thesis by (simp add: cc_inv_def)
qed

lemma cc_local_max_inv:
  assumes "cc_inv s (cc, ids)"
  shows "cc_inv s (update_local_max_streams bidi cc, ids)"
proof -
  have "kind_inv s (update_local_max_streams bidi cc) ids l b" for l b
  proof -
    have ki: "kind_inv s cc ids l b" using assms by (simp add: cc_inv_def)
    note k = kind_invD [OF ki]
    show ?thesis
    proof (cases "\<not> l \<and> b = bidi")
      case True
      then have lim: "cc_limit l b cc \<le> cc_next b cc" using k(4) by simp
      from True grow_avail [OF ki k(3) lim] k lim show ?thesis unfolding kind_inv_def
        by (simp add: update_local_max_streams_kind)
    next
      case False
      with ki show ?thesis by (cases l; cases "b = bidi") (simp_all add: kind_inv_def update_local_max_streams_kind)
    qed
  qed
  then show ?thesis by (simp add: cc_inv_def)
qed

lemma cc_credit_inv:
  assumes "cc_inv s (cc, ids)"
  shows "cc_inv s (increase_max_streams_credits bidi d cc, ids)"
proof -
  have "kind_inv s (increase_max_streams_credits bidi d cc) ids l b" for l b
  proof -
    have ki: "kind_inv s cc ids l b" using assms by (simp add: cc_inv_def)
    note k = kind_invD [OF ki]
    have "cc_limit False b cc \<le> sat_add64 (cc_next b cc) d" using k(4) sat_add64_ge [OF k(3), of d] by (rule order_trans)
    then show ?thesis using ki by (cases "b = bidi") (simp_all add: kind_inv_def increase_credits_kind)
  qed
  then show ?thesis by (simp add: cc_inv_def)
qed

lemma cc_open_inv:
  assumes inv: "cc_inv s (cc, ids)" and small: "i < 2 ^ 62"
  shows "cc_inv s (cc_step s (cc, ids) (CcOpen i))"
proof -
  obtain cc' res where ck: "check_concurrency_limits i s cc = (cc', res)" by (cases "check_concurrency_limits i s cc")
  note c = check_limits_kind [OF ck]
  let ?n = "drop_bit 2 i"
  have "?n \<le> i" by (simp add: drop_bit_eq_div)
  then have lt: "?n + 1 < u64_mod" using small by (simp add: u64_mod_def)
  then have ad: "add64 ?n 1 = ?n + 1" by (simp add: add64_nowrap)
  show ?thesis
  proof (cases "res = Inr ()")
    case False
    then obtain e where e: "res = Inl e" by (cases res) auto
    have "kind_inv s cc' ids l b" for l b
      using inv False unfolding cc_inv_def kind_inv_def fst_conv snd_conv c(1,2,3,5) by simp
    then show ?thesis using ck e by (simp add: cc_inv_def)
  next
    case True
    have "kind_inv s (remove_avail_id i s cc') (i # ids) l b" for l b
    proof -
      have ki: "kind_inv s cc ids l b" using inv by (simp add: cc_inv_def)
      note k = kind_invD [OF ki]
      show ?thesis
      proof (cases "l = is_local i s \<and> b = is_bidi i")
        case False
        then show ?thesis using ki unfolding kind_inv_def remove_avail_id_kind c(1,2,3,5) seqs_Cons by auto
      next
        case kind: True
        have lim: "max (cc_opened l b cc) (?n + 1) \<le> cc_limit l b cc"
          using True c(4) kind ad by (auto split: if_splits)
        have rem: "rs_inv (rs_remove_elem (cc_avail l b cc) ?n)"
          "rs_nums (rs_remove_elem (cc_avail l b cc) ?n) = ({..<cc_limit l b cc} - seqs s l b ids) - {?n}"
          using urs.del_elem [OF k(1) lt] urs.invar_del_elem [OF k(1) lt] k(7) by (simp_all add: rs_remove_elem_def)
        have sq: "seqs s l b (i # ids) = insert ?n (seqs s l b ids)" using kind by (simp add: seqs_Cons)
        have op: "cc_opened l b cc' = max (cc_opened l b cc) (?n + 1)" using True kind ad by (simp add: c(5))
        have "insert ?n (seqs s l b ids) \<subseteq> {..<max (cc_opened l b cc) (?n + 1)}" using k(6) by auto
        moreover have "{..<cc_limit l b cc} - seqs s l b ids - {?n} = {..<cc_limit l b cc} - insert ?n (seqs s l b ids)" by blast
        ultimately show ?thesis using k(2-4) lim rem kind
          unfolding kind_inv_def remove_avail_id_kind c(1,2,3) op sq by simp
      qed
    qed
    then show ?thesis using ck True by (simp add: cc_inv_def)
  qed
qed

lemma cc_step_inv: "cc_inv s st \<Longrightarrow> cc_ok st op \<Longrightarrow> cc_inv s (cc_step s st op)"
  by (cases st; cases op)
    (simp_all only: cc_peer_max_inv cc_local_max_inv cc_credit_inv cc_open_inv cc_step.simps(1-3) cc_ok.simps)

interpretation ccm: inv_machine "cc_step s" cc_ok "cc_inv s" for s
  by unfold_locales (rule cc_step_inv)

lemma cc_new_inv:
  assumes "mb < u64_mod" "mu < u64_mod"
  shows "cc_inv s (cc_new mb mu, [])"
proof -
  have "kind_inv s (cc_new mb mu) [] l b" for l b
    using assms urs.elems_ins [OF rs_inv_default(1) assms(1), of 0] urs.elems_ins [OF rs_inv_default(1) assms(2), of 0]
      urs.invar_ins [OF rs_inv_default(1) assms(1), of 0] urs.invar_ins [OF rs_inv_default(1) assms(2), of 0]
    by (cases l; cases b) (simp_all add: kind_inv_def cc_new_def cc_kind_defs seqs_def atLeast0LessThan)
  then show ?thesis by (simp add: cc_inv_def)
qed

text \<open>
  C36.  Stream limits are respected and stream numbers are used exactly: after any sequence of limit
  updates, credits and attempts to open streams, every stream that was opened is below the limit of
  its kind, and an identifier is available exactly when it is below the limit and was never opened.
\<close>

theorem stream_limits_exact:
  assumes "mb < u64_mod" "mu < u64_mod" "ok_run (cc_step s) cc_ok (cc_new mb mu, []) ops"
    and st: "(cc, ids) = foldl (cc_step s) (cc_new mb mu, []) ops" and "i < 2 ^ 62"
  shows "(i \<in> set ids \<longrightarrow> \<not> is_limited i s cc)
    \<and> (is_available i s cc \<longleftrightarrow> \<not> is_limited i s cc \<and> drop_bit 2 i \<notin> seqs s (is_local i s) (is_bidi i) ids)"
proof -
  have "cc_inv s (foldl (cc_step s) (cc_new mb mu, []) ops)"
    using ccm.run_inv [OF cc_new_inv [OF assms(1,2)] assms(3)] .
  then have inv: "cc_inv s (cc, ids)" unfolding st .
  let ?l = "is_local i s" and ?b = "is_bidi i"
  have "kind_inv s cc ids ?l ?b" using inv by (simp add: cc_inv_def)
  note k = kind_invD [OF this]
  have "drop_bit 2 i \<le> i" by (simp add: drop_bit_eq_div)
  then have "drop_bit 2 i + 1 < u64_mod" using assms(5) by (simp add: u64_mod_def)
  then have lim: "is_limited i s cc \<longleftrightarrow> cc_limit ?l ?b cc \<le> drop_bit 2 i"
    by (simp add: is_limited_kind add64_nowrap less_Suc_eq_le)
  have "is_available i s cc \<longleftrightarrow> drop_bit 2 i \<in> {..<cc_limit ?l ?b cc} - seqs s ?l ?b ids"
    using urs.mem_iff [OF k(1)] k(7) by (simp add: is_available_kind)
  moreover have "drop_bit 2 i < cc_opened ?l ?b cc" if "i \<in> set ids"
    using that k(6) by (auto simp: seqs_def)
  ultimately show ?thesis using lim k(5) by (auto simp: not_le)
qed


definition demo_streams :: "cc_op list" where
  "demo_streams = [CcPeerMax True 3, CcOpen 4, CcOpen 12, CcOpen 1]"

theorem stream_limits_exact_witness:
  "(\<lambda>(cc, ids). 4 \<in> set ids \<and> \<not> is_limited 4 False cc \<and> \<not> is_available 4 False cc)
     (foldl (cc_step False) (cc_new 2 2, []) demo_streams)"
proof -
  obtain cc ids where st: "(cc, ids) = foldl (cc_step False) (cc_new 2 2, []) demo_streams"
    by (cases "foldl (cc_step False) (cc_new 2 2, []) demo_streams") simp
  have b: "(2 :: nat) < u64_mod" by (simp add: u64_mod_def)
  have ok: "ok_run (cc_step False) cc_ok (cc_new 2 2, []) demo_streams"
    by (simp add: demo_streams_def u64_mod_def split: prod.split sum.split)
  have "snd (foldl (cc_step False) (cc_new 2 2, []) demo_streams) = [1, 4]"
    by (simp add: demo_streams_def check_concurrency_limits_def update_peer_max_streams_def cc_new_def insert_avail_id_def
        above_blocked_def is_local_def is_bidi_def remove_avail_id_def update_streams_blocked_at_def drop_bit_eq_div Let_def u64_eval)
  then have ids: "ids = [1, 4]" using st by (metis snd_conv)
  have "4 \<in> set ids" by (simp add: ids)
  moreover have "drop_bit 2 (4 :: nat) \<in> seqs False (is_local 4 False) (is_bidi 4) ids"
    unfolding seqs_def by (rule image_eqI [of _ _ 4]) (simp_all add: ids)
  ultimately show ?thesis using stream_limits_exact [OF b b ok st, of 4] by (simp add: st [symmetric])
qed

end
