(* ===== verification/Priority.thy ===== *)
theory Priority
  imports Btree "HOL-Library.Multiset"
begin

text \<open>
  The queue of streams that have data to send, of \<open>src/connection/stream.rs\<close>: \<open>StreamPriorityQueue\<close>
  and the methods \<open>push_sendable\<close>, \<open>peek_sendable\<close> and \<open>remove_sendable\<close> of \<open>StreamMap\<close>.
  A \<open>BinaryHeap\<close> of reversed stream identifiers yields the least one first: it is a sorted list.
\<close>

record priority_queue =
  pq_non_incremental :: "u64 list"
  pq_incremental :: "u64 list"

type_synonym sendable = "(nat, priority_queue) btree"

definition pq_default :: priority_queue where
  "pq_default = \<lparr>pq_non_incremental = [], pq_incremental = []\<rparr>"

definition push_sendable :: "u64 \<Rightarrow> nat \<Rightarrow> bool \<Rightarrow> sendable \<Rightarrow> sendable" where
  "push_sendable stream_id urgency incremental sendable =
     (let queue = (case map_of sendable urgency of None \<Rightarrow> pq_default | Some q \<Rightarrow> q)
      in bt_insert urgency
           (if \<not> incremental then queue\<lparr>pq_non_incremental := insort stream_id (pq_non_incremental queue)\<rparr>
            else queue\<lparr>pq_incremental := pq_incremental queue @ [stream_id]\<rparr>) sendable)"

definition peek_sendable :: "sendable \<Rightarrow> sendable \<times> u64 option" where
  "peek_sendable sendable =
     (case sendable of
        [] \<Rightarrow> (sendable, None)
      | (urgency, queue) # rest \<Rightarrow>
          (case pq_non_incremental queue of
             stream_id # _ \<Rightarrow> (sendable, Some stream_id)
           | [] \<Rightarrow>
               (case pq_incremental queue of
                  stream_id # others \<Rightarrow>
                    ((urgency, queue\<lparr>pq_incremental := others @ [stream_id]\<rparr>) # rest, Some stream_id)
                | [] \<Rightarrow> (sendable, None))))"

definition remove_sendable :: "sendable \<Rightarrow> sendable" where
  "remove_sendable sendable =
     (case sendable of
        [] \<Rightarrow> []
      | (urgency, queue) # rest \<Rightarrow>
          let queue1 = (case pq_non_incremental queue of
                          _ # others \<Rightarrow> queue\<lparr>pq_non_incremental := others\<rparr>
                        | [] \<Rightarrow> queue\<lparr>pq_incremental := butlast (pq_incremental queue)\<rparr>)
          in if pq_non_incremental queue1 = [] \<and> pq_incremental queue1 = [] then rest
             else (urgency, queue1) # rest)"

subsection \<open>Invariant and content\<close>

text \<open>Urgencies ascend, no queue is empty, and the heaps are sorted.\<close>

definition queue_ok :: "priority_queue \<Rightarrow> bool" where
  "queue_ok q \<longleftrightarrow> sorted (pq_non_incremental q) \<and> (pq_non_incremental q \<noteq> [] \<or> pq_incremental q \<noteq> [])"

definition sq_inv :: "sendable \<Rightarrow> bool" where
  "sq_inv s \<longleftrightarrow> bt_sorted s \<and> (\<forall>(u, q) \<in> set s. queue_ok q)"

text \<open>The queued streams as a multiset of urgency, incremental flag and identifier.\<close>

definition queue_elems :: "nat \<Rightarrow> priority_queue \<Rightarrow> (nat \<times> bool \<times> u64) multiset" where
  "queue_elems u q = image_mset (\<lambda>i. (u, False, i)) (mset (pq_non_incremental q))
     + image_mset (\<lambda>i. (u, True, i)) (mset (pq_incremental q))"

definition sq_elems :: "sendable \<Rightarrow> (nat \<times> bool \<times> u64) multiset" where
  "sq_elems s = sum_list (map (\<lambda>(u, q). queue_elems u q) s)"

lemma sq_elems_simps [simp]:
  "sq_elems [] = {#}" "sq_elems ((u, q) # s) = queue_elems u q + sq_elems s"
  by (simp_all add: sq_elems_def)

lemma sq_inv_Cons: "sq_inv ((u, q) # s) \<longleftrightarrow> queue_ok q \<and> (\<forall>e \<in> set s. u < fst e) \<and> sq_inv s"
  by (auto simp: sq_inv_def bt_sorted_def)

lemma push_empty: "queue_elems u pq_default = {#}"
  by (simp add: queue_elems_def pq_default_def)

definition queue_push :: "u64 \<Rightarrow> bool \<Rightarrow> priority_queue \<Rightarrow> priority_queue" where
  "queue_push i inc q = (if \<not> inc then q\<lparr>pq_non_incremental := insort i (pq_non_incremental q)\<rparr>
     else q\<lparr>pq_incremental := pq_incremental q @ [i]\<rparr>)"

lemma queue_push_elems: "queue_elems u (queue_push i inc q) = add_mset (u, inc, i) (queue_elems u q)"
  by (simp add: queue_push_def queue_elems_def)

lemma queue_push_ok: "queue_ok q \<or> q = pq_default \<Longrightarrow> queue_ok (queue_push i inc q)"
  by (auto simp: queue_push_def queue_ok_def pq_default_def sorted_insort insort_not_Nil)

lemma push_sendable_eq:
  "push_sendable i u inc s = bt_insert u (queue_push i inc (case map_of s u of None \<Rightarrow> pq_default | Some q \<Rightarrow> q)) s"
  by (simp add: push_sendable_def queue_push_def Let_def)

lemma push_sendable_Cons:
  assumes "\<forall>e \<in> set s. v < fst e"
  shows "push_sendable i u inc ((v, q) # s) =
    (if u < v then (u, queue_push i inc pq_default) # (v, q) # s
     else if u = v then (v, queue_push i inc q) # s
     else (v, q) # push_sendable i u inc s)"
proof -
  have "map_of s u = None" if "u < v"
    using that assms by (metis fst_conv map_of_eq_None_iff image_iff less_asym)
  then show ?thesis by (auto simp: push_sendable_eq)
qed

lemma push_sendable_inv:
  "sq_inv s \<Longrightarrow> sq_inv (push_sendable i u inc s) \<and> sq_elems (push_sendable i u inc s) = add_mset (u, inc, i) (sq_elems s)
     \<and> fst ` set (push_sendable i u inc s) \<subseteq> insert u (fst ` set s)"
proof (induction s)
  case Nil
  have "queue_ok (queue_push i inc pq_default)" by (rule queue_push_ok) simp
  then show ?case by (simp add: push_sendable_eq sq_inv_def bt_sorted_def queue_push_elems push_empty)
next
  case (Cons e s)
  obtain v q where e: "e = (v, q)" by (cases e)
  have c: "queue_ok q" "\<forall>e \<in> set s. v < fst e" "sq_inv s" using Cons.prems e by (simp_all add: sq_inv_Cons)
  note ih = Cons.IH [OF c(3)]
  have d: "queue_ok (queue_push i inc pq_default)" by (rule queue_push_ok) simp
  consider "u < v" | "u = v" | "v < u" by linarith
  then show ?case
  proof cases
    case 1
    then have "push_sendable i u inc (e # s) = (u, queue_push i inc pq_default) # (v, q) # s"
      using push_sendable_Cons [OF c(2)] e by simp
    then show ?thesis using 1 c d e by (auto simp: sq_inv_Cons queue_push_elems push_empty)
  next
    case 2
    then have "push_sendable i u inc (e # s) = (v, queue_push i inc q) # s"
      using push_sendable_Cons [OF c(2)] e by simp
    then show ?thesis using 2 c e by (auto simp: sq_inv_Cons queue_push_elems queue_push_ok)
  next
    case 3
    then have p: "push_sendable i u inc (e # s) = (v, q) # push_sendable i u inc s"
      using push_sendable_Cons [OF c(2)] e by simp
    have "v < fst x" if "x \<in> set (push_sendable i u inc s)" for x
    proof -
      have "fst x \<in> insert u (fst ` set s)" using that ih by blast
      then show ?thesis using 3 c(2) by auto
    qed
    then have "sq_inv ((v, q) # push_sendable i u inc s)" using ih c(1) by (simp add: sq_inv_Cons)
    moreover have "fst ` set ((v, q) # push_sendable i u inc s) \<subseteq> insert u (fst ` set (e # s))" using ih e by auto
    ultimately show ?thesis using p ih e by simp
  qed
qed

text \<open>What the scheduler promises to pick: the least urgency, then non-incremental streams by identifier.\<close>

definition sched_pick :: "(nat \<times> bool \<times> u64) multiset \<Rightarrow> (nat \<times> bool \<times> u64) \<Rightarrow> bool" where
  "sched_pick M x \<longleftrightarrow> (case x of (u, inc, i) \<Rightarrow> x \<in># M \<and> (\<forall>(v, inc', j) \<in># M. u \<le> v)
     \<and> (\<forall>(v, inc', j) \<in># M. v = u \<and> \<not> inc' \<longrightarrow> \<not> inc \<and> i \<le> j))"

lemma sq_elems_urgency: "x \<in># sq_elems s \<Longrightarrow> \<exists>q. (fst x, q) \<in> set s \<and> x \<in># queue_elems (fst x) q"
proof (induction s)
  case (Cons e s)
  then show ?case by (cases e) (auto simp: queue_elems_def)
qed simp

lemma peek_sendable_cases:
  assumes "peek_sendable s = (s1, Some j)" "sq_inv s1" "sq_elems s1 = sq_elems s" "s \<noteq> []"
    "sched_pick (sq_elems s) (u, inc, j)" "remove_sendable s1 = s2" "sq_elems s - {#(u, inc, j)#} = sq_elems s2" "sq_inv s2"
  shows "sq_inv (fst (peek_sendable s)) \<and> sq_elems (fst (peek_sendable s)) = sq_elems s
    \<and> (snd (peek_sendable s) = None \<longleftrightarrow> s = [])
    \<and> (snd (peek_sendable s) = Some i \<longrightarrow> (\<exists>u inc. sched_pick (sq_elems s) (u, inc, i)
       \<and> sq_elems (remove_sendable (fst (peek_sendable s))) = sq_elems s - {#(u, inc, i)#}
       \<and> sq_inv (remove_sendable (fst (peek_sendable s)))))"
  unfolding assms(1) fst_conv snd_conv assms(6) using assms(2-5,7,8) by (metis option.distinct(1) option.inject)

lemma peek_sendable_inv:
  assumes inv: "sq_inv s"
  shows "sq_inv (fst (peek_sendable s))" "sq_elems (fst (peek_sendable s)) = sq_elems s"
    "snd (peek_sendable s) = None \<longleftrightarrow> s = []"
    "snd (peek_sendable s) = Some i \<Longrightarrow> \<exists>u inc. sched_pick (sq_elems s) (u, inc, i)
       \<and> sq_elems (remove_sendable (fst (peek_sendable s))) = sq_elems s - {#(u, inc, i)#}
       \<and> sq_inv (remove_sendable (fst (peek_sendable s)))"
proof -
  have "sq_inv (fst (peek_sendable s)) \<and> sq_elems (fst (peek_sendable s)) = sq_elems s
    \<and> (snd (peek_sendable s) = None \<longleftrightarrow> s = [])
    \<and> (snd (peek_sendable s) = Some i \<longrightarrow> (\<exists>u inc. sched_pick (sq_elems s) (u, inc, i)
       \<and> sq_elems (remove_sendable (fst (peek_sendable s))) = sq_elems s - {#(u, inc, i)#}
       \<and> sq_inv (remove_sendable (fst (peek_sendable s)))))"
  proof (cases s)
    case Nil
    then show ?thesis by (simp add: peek_sendable_def sq_inv_def bt_sorted_def)
  next
    case (Cons e r)
    obtain u q where e: "e = (u, q)" by (cases e)
    have c: "queue_ok q" "\<forall>e \<in> set r. u < fst e" "sq_inv r" using inv Cons e by (simp_all add: sq_inv_Cons)
    have later: "u < v" if "(v, inc, j) \<in># sq_elems r" for v inc j
      using sq_elems_urgency [OF that] c(2) by fastforce
    show ?thesis
    proof (cases "pq_non_incremental q")
      case (Cons j js)
      have srt: "sorted (j # js)" using c(1) Cons by (simp add: queue_ok_def)
      have pk: "peek_sendable s = (s, Some j)" using Cons \<open>s = e # r\<close> e by (simp add: peek_sendable_def)
      have pick: "sched_pick (sq_elems s) (u, False, j)"
        using \<open>s = e # r\<close> e Cons srt by (auto simp: sched_pick_def queue_elems_def dest!: later)
      let ?q = "q\<lparr>pq_non_incremental := js\<rparr>"
      have el: "sq_elems s - {#(u, False, j)#} = queue_elems u ?q + sq_elems r"
        using \<open>s = e # r\<close> e Cons by (simp add: queue_elems_def)
      show ?thesis
      proof (cases "js = [] \<and> pq_incremental q = []")
        case True
        then have "remove_sendable s = r" using \<open>s = e # r\<close> e Cons by (simp add: remove_sendable_def)
        moreover have "queue_elems u ?q = {#}" using True by (simp add: queue_elems_def)
        ultimately show ?thesis using pick el inv c(3) \<open>s = e # r\<close> by (intro peek_sendable_cases [OF pk, where u = u and inc = False and ?s2.0 = "r"]) auto
      next
        case False
        then have "remove_sendable s = (u, ?q) # r" using \<open>s = e # r\<close> e Cons by (auto simp: remove_sendable_def)
        moreover have "queue_ok ?q" using False srt by (auto simp: queue_ok_def)
        ultimately show ?thesis using pick el inv c(2,3) \<open>s = e # r\<close>
          by (intro peek_sendable_cases [OF pk, where u = u and inc = False and ?s2.0 = "(u, ?q) # r"]) (auto simp: sq_inv_Cons)
      qed
    next
      case Nil
      then obtain j js where inc: "pq_incremental q = j # js"
        using c(1) by (cases "pq_incremental q") (auto simp: queue_ok_def)
      let ?q1 = "q\<lparr>pq_incremental := js @ [j]\<rparr>" and ?q2 = "q\<lparr>pq_incremental := js\<rparr>"
      have pk: "peek_sendable s = ((u, ?q1) # r, Some j)" using Nil inc Cons e by (simp add: peek_sendable_def)
      have q1: "queue_elems u ?q1 = queue_elems u q" "queue_ok ?q1" using Nil inc by (simp_all add: queue_elems_def queue_ok_def)
      have pick: "sched_pick (sq_elems s) (u, True, j)"
        using Cons e Nil inc by (auto simp: sched_pick_def queue_elems_def dest!: later)
      have el: "sq_elems s - {#(u, True, j)#} = queue_elems u ?q2 + sq_elems r"
        using Cons e Nil inc by (simp add: queue_elems_def)
      have inv1: "sq_inv ((u, ?q1) # r)" using q1 c by (simp add: sq_inv_Cons)
      show ?thesis
      proof (cases "js = []")
        case True
        then have "remove_sendable ((u, ?q1) # r) = r" using Nil by (simp add: remove_sendable_def)
        moreover have "queue_elems u ?q2 = {#}" using True Nil by (simp add: queue_elems_def)
        ultimately show ?thesis using pick el inv1 q1 c(3) Cons e by (intro peek_sendable_cases [OF pk, where u = u and inc = True and ?s2.0 = "r"]) auto
      next
        case False
        then have "remove_sendable ((u, ?q1) # r) = (u, ?q2) # r" using Nil by (simp add: remove_sendable_def)
        moreover have "queue_ok ?q2" using False Nil by (simp add: queue_ok_def)
        ultimately show ?thesis using pick el inv1 q1 c Cons e
          by (intro peek_sendable_cases [OF pk, where u = u and inc = True and ?s2.0 = "(u, ?q2) # r"]) (auto simp: sq_inv_Cons)
      qed
    qed
  qed
  then show "sq_inv (fst (peek_sendable s))" "sq_elems (fst (peek_sendable s)) = sq_elems s"
    "snd (peek_sendable s) = None \<longleftrightarrow> s = []"
    "snd (peek_sendable s) = Some i \<Longrightarrow> \<exists>u inc. sched_pick (sq_elems s) (u, inc, i)
       \<and> sq_elems (remove_sendable (fst (peek_sendable s))) = sq_elems s - {#(u, inc, i)#}
       \<and> sq_inv (remove_sendable (fst (peek_sendable s)))"
    by (elim conjE, simp only: simp_thms; fail)+
qed


subsection \<open>Properties\<close>

datatype sq_op = SqPush u64 nat bool | SqSend

text \<open>Sending peeks at a stream and, when it has nothing more to send, removes it.\<close>

fun sq_step :: "sendable \<Rightarrow> sq_op \<Rightarrow> sendable" where
  "sq_step s (SqPush i u inc) = push_sendable i u inc s"
| "sq_step s SqSend = remove_sendable (fst (peek_sendable s))"

lemma remove_Nil [simp]: "remove_sendable [] = []" "peek_sendable [] = ([], None)"
  by (simp_all add: remove_sendable_def peek_sendable_def)

lemma sq_step_inv: "sq_inv s \<Longrightarrow> sq_inv (sq_step s x)"
proof (cases x)
  case SqSend
  assume inv: "sq_inv s"
  show ?thesis
  proof (cases "snd (peek_sendable s)")
    case None
    then show ?thesis using peek_sendable_inv(3) [OF inv] SqSend inv by simp
  next
    case (Some i)
    then show ?thesis using peek_sendable_inv(4) [OF inv Some] SqSend by auto
  qed
qed (simp add: push_sendable_inv)

interpretation sqm: inv_machine sq_step "\<lambda>_ _. True" sq_inv
  by unfold_locales (rule sq_step_inv)

lemma ok_run_trivial [simp]: "ok_run step (\<lambda>_ _. True) s ops"
  by (induction ops arbitrary: s) simp_all

lemma sq_run_inv: "sq_inv (foldl sq_step [] ops)"
  by (rule sqm.run_inv) (simp_all add: sq_inv_def bt_sorted_def)

text \<open>
  C38.  The scheduler refines a priority multiset: after any sequence of insertions and sends, peeking
  finds a stream exactly when one is queued; it picks a stream of the least urgency, preferring
  non-incremental streams in the order of their identifiers; and removing after a peek takes out
  exactly the stream that was picked.
\<close>

theorem sched_refines:
  "let s = foldl sq_step [] ops
   in sq_elems (push_sendable i u inc s) = add_mset (u, inc, i) (sq_elems s)
    \<and> (case snd (peek_sendable s) of
         None \<Rightarrow> sq_elems s = {#}
       | Some j \<Rightarrow> \<exists>v inc'. sched_pick (sq_elems s) (v, inc', j)
           \<and> sq_elems (fst (peek_sendable s)) = sq_elems s
           \<and> sq_elems (remove_sendable (fst (peek_sendable s))) = sq_elems s - {#(v, inc', j)#})"
proof -
  define s where "s = foldl sq_step [] ops"
  have inv: "sq_inv s" unfolding s_def by (rule sq_run_inv)
  note p = peek_sendable_inv [OF inv]
  show ?thesis
  proof (cases "snd (peek_sendable s)")
    case None
    then have "s = []" using p(3) by blast
    with None show ?thesis using push_sendable_inv [OF inv] by (simp add: Let_def s_def [symmetric])
  next
    case (Some j)
    with p(4) [OF Some] p(2) push_sendable_inv [OF inv] show ?thesis by (auto simp: Let_def s_def [symmetric])
  qed
qed

text \<open>The streams picked by \<open>n\<close> successive peeks.\<close>

fun peeks :: "nat \<Rightarrow> sendable \<Rightarrow> u64 option list" where
  "peeks 0 s = []"
| "peeks (Suc n) s = (case peek_sendable s of (s', r) \<Rightarrow> r # peeks n s')"

lemma peeks_rotate:
  "pq_non_incremental q = [] \<Longrightarrow> pq_incremental q = xs @ ys \<Longrightarrow>
   peeks (length xs) ((u, q) # s) = map Some xs"
proof (induction xs arbitrary: q ys)
  case (Cons x xs)
  have "peeks (length xs) ((u, q\<lparr>pq_incremental := xs @ ys @ [x]\<rparr>) # s) = map Some xs"
    by (rule Cons.IH [of _ "ys @ [x]"]) (use Cons.prems in simp_all)
  then show ?case using Cons.prems by (simp add: peek_sendable_def)
qed simp

text \<open>
  C39.  Incremental streams of the most urgent level share the connection in turn: when no non-incremental
  stream waits there, as many peeks as there are incremental streams pick each of them once, in
  the order of the queue.
\<close>

theorem sched_round_robin:
  assumes "foldl sq_step [] ops = (u, q) # s" and "pq_non_incremental q = []"
  shows "peeks (length (pq_incremental q)) (foldl sq_step [] ops) = map Some (pq_incremental q)"
  using assms(2) peeks_rotate [of q "pq_incremental q" "[]" u s] by (simp add: assms(1))

theorem sched_round_robin_witness:
  "peeks 2 (foldl sq_step [] [SqPush 8 3 True, SqPush 4 3 True, SqPush 0 5 False]) = [Some 8, Some 4]"
proof -
  have "foldl sq_step [] [SqPush 8 3 True, SqPush 4 3 True, SqPush 0 5 False]
      = (3, \<lparr>pq_non_incremental = [], pq_incremental = [8, 4]\<rparr>)
        # [(5, \<lparr>pq_non_incremental = [0], pq_incremental = []\<rparr>)]"
    by (simp add: push_sendable_def pq_default_def)
  from sched_round_robin [OF this] show ?thesis by (simp add: numeral_2_eq_2)
qed

end
