(* ===== verification/StreamMap.thy ===== *)
theory StreamMap
  imports Streams Concurrency Priority Codec
begin

text \<open>
  \<open>StreamMap\<close> of \<open>src/connection/stream.rs\<close>: the streams of a connection, the sets of streams on which
  something is to be done, the limits of the connection, the calls of the application and
  the handlers of the frames that concern streams.  Hash maps and hash sets are maps and sets.  The
  application context of a stream and log lines are left out.
\<close>

subsection \<open>Events for the endpoint\<close>

datatype event =
    ConnectionEstablished
  | NewTokenEvent "byte list"
  | ScidToAdvertise nat
  | ScidRetired "byte list"
  | DcidAdvertised "byte list"
  | DcidRetired "byte list"
  | ResetTokenAdvertised "byte list"
  | StreamCreated u64
  | StreamClosed u64

type_synonym event_queue = "event list option"

definition ev_enable :: "event_queue \<Rightarrow> event_queue" where
  "ev_enable q = Some []"

definition ev_add :: "event \<Rightarrow> event_queue \<Rightarrow> event_queue \<times> bool" where
  "ev_add e q = (case q of Some events \<Rightarrow> (Some (events @ [e]), True) | None \<Rightarrow> (None, False))"

definition ev_poll :: "event_queue \<Rightarrow> event_queue \<times> event option" where
  "ev_poll q =
     (case q of
        Some (e # events) \<Rightarrow> (Some events, Some e)
      | Some [] \<Rightarrow> (Some [], None)
      | None \<Rightarrow> (None, None))"

definition ev_is_empty :: "event_queue \<Rightarrow> bool" where
  "ev_is_empty q = (case q of Some events \<Rightarrow> events = [] | None \<Rightarrow> True)"

subsection \<open>State\<close>

record stream_params =
  sp_initial_max_data :: u64
  sp_initial_max_stream_data_bidi_local :: u64
  sp_initial_max_stream_data_bidi_remote :: u64
  sp_initial_max_stream_data_uni :: u64
  sp_initial_max_streams_bidi :: u64
  sp_initial_max_streams_uni :: u64

definition sp_default :: stream_params where
  "sp_default =
     \<lparr>sp_initial_max_data = 0, sp_initial_max_stream_data_bidi_local = 0,
      sp_initial_max_stream_data_bidi_remote = 0, sp_initial_max_stream_data_uni = 0,
      sp_initial_max_streams_bidi = 0, sp_initial_max_streams_uni = 0\<rparr>"

record stream_map =
  sm_is_server :: bool
  sm_streams :: "u64 \<rightharpoonup> stream"
  sm_sendable :: sendable
  sm_readable :: "u64 set"
  sm_writable :: "u64 set"
  sm_reset :: "u64 \<rightharpoonup> u64 \<times> u64"
  sm_stopped :: "u64 \<rightharpoonup> u64"
  sm_almost_full :: "u64 set"
  sm_data_blocked :: "u64 \<rightharpoonup> u64"
  sm_concurrency :: concurrency_control
  sm_flow_control :: flow_control
  sm_send_capacity :: send_capacity
  sm_max_stream_window :: u64
  sm_rx_almost_full :: bool
  sm_next_stream_id_bidi :: u64
  sm_next_stream_id_uni :: u64
  sm_peer_params :: stream_params
  sm_local_params :: stream_params
  sm_events :: event_queue

definition sc_default :: send_capacity where
  "sc_default = \<lparr>sc_max_data = 0, sc_tx_data = 0, sc_capacity = 0, sc_blocked_at = None\<rparr>"

definition sm_new :: "bool \<Rightarrow> u64 \<Rightarrow> u64 \<Rightarrow> stream_params \<Rightarrow> stream_map" where
  "sm_new is_server max_connection_window max_stream_window local_params =
     \<lparr>sm_is_server = is_server, sm_streams = Map.empty, sm_sendable = [], sm_readable = {}, sm_writable = {},
      sm_reset = Map.empty, sm_stopped = Map.empty, sm_almost_full = {}, sm_data_blocked = Map.empty,
      sm_concurrency = cc_new (sp_initial_max_streams_bidi local_params) (sp_initial_max_streams_uni local_params),
      sm_flow_control = fc_new (sp_initial_max_data local_params) max_connection_window,
      sm_send_capacity = sc_default, sm_max_stream_window = max_stream_window, sm_rx_almost_full = False,
      sm_next_stream_id_bidi = (if is_server then 1 else 0), sm_next_stream_id_uni = (if is_server then 3 else 2),
      sm_peer_params = sp_default, sm_local_params = local_params, sm_events = None\<rparr>"

definition put_stream :: "u64 \<Rightarrow> stream \<Rightarrow> stream_map \<Rightarrow> stream_map" where
  "put_stream sid st sm = sm\<lparr>sm_streams := (sm_streams sm)(sid \<mapsto> st)\<rparr>"

subsection \<open>Marks\<close>

definition mark_readable :: "u64 \<Rightarrow> bool \<Rightarrow> stream_map \<Rightarrow> stream_map" where
  "mark_readable sid readable sm =
     sm\<lparr>sm_readable := (if readable then insert sid (sm_readable sm) else sm_readable sm - {sid})\<rparr>"

definition mark_writable :: "u64 \<Rightarrow> bool \<Rightarrow> stream_map \<Rightarrow> stream_map" where
  "mark_writable sid writable sm =
     sm\<lparr>sm_writable := (if writable then insert sid (sm_writable sm) else sm_writable sm - {sid})\<rparr>"

definition mark_almost_full :: "u64 \<Rightarrow> bool \<Rightarrow> stream_map \<Rightarrow> stream_map" where
  "mark_almost_full sid almost_full sm =
     sm\<lparr>sm_almost_full := (if almost_full then insert sid (sm_almost_full sm) else sm_almost_full sm - {sid})\<rparr>"

definition mark_blocked :: "u64 \<Rightarrow> bool \<Rightarrow> u64 \<Rightarrow> stream_map \<Rightarrow> stream_map" where
  "mark_blocked sid blocked off sm =
     sm\<lparr>sm_data_blocked := (sm_data_blocked sm)(sid := (if blocked then Some off else None))\<rparr>"

definition mark_reset :: "u64 \<Rightarrow> bool \<Rightarrow> u64 \<Rightarrow> u64 \<Rightarrow> stream_map \<Rightarrow> stream_map" where
  "mark_reset sid reset error_code final_size sm =
     sm\<lparr>sm_reset := (sm_reset sm)(sid := (if reset then Some (error_code, final_size) else None))\<rparr>"

definition mark_stopped :: "u64 \<Rightarrow> bool \<Rightarrow> u64 \<Rightarrow> stream_map \<Rightarrow> stream_map" where
  "mark_stopped sid stopped error_code sm =
     sm\<lparr>sm_stopped := (sm_stopped sm)(sid := (if stopped then Some error_code else None))\<rparr>"

definition update_data_blocked_at :: "u64 option \<Rightarrow> stream_map \<Rightarrow> stream_map" where
  "update_data_blocked_at blocked_at sm =
     sm\<lparr>sm_send_capacity := sc_update_blocked_at blocked_at (sm_send_capacity sm)\<rparr>"

definition sm_push_sendable :: "u64 \<Rightarrow> nat \<Rightarrow> bool \<Rightarrow> stream_map \<Rightarrow> stream_map" where
  "sm_push_sendable sid urgency incremental sm =
     sm\<lparr>sm_sendable := push_sendable sid urgency incremental (sm_sendable sm)\<rparr>"

definition sm_is_closed :: "u64 \<Rightarrow> stream_map \<Rightarrow> bool" where
  "sm_is_closed sid sm =
     (case sm_streams sm sid of
        Some st \<Rightarrow> Closed \<in> st_flags st
      | None \<Rightarrow> \<not> (is_available sid (sm_is_server sm) (sm_concurrency sm)
                     \<or> is_limited sid (sm_is_server sm) (sm_concurrency sm)))"

definition stream_destroy :: "u64 \<Rightarrow> stream_map \<Rightarrow> stream_map" where
  "stream_destroy sid sm = sm\<lparr>sm_streams := (sm_streams sm)(sid := None)\<rparr>"

definition sm_mark_closed :: "u64 \<Rightarrow> bool \<Rightarrow> stream_map \<Rightarrow> stream_map" where
  "sm_mark_closed sid loc sm =
     (if sm_is_closed sid sm then sm
      else
        let sm1 = (if \<not> loc then
                     sm\<lparr>sm_concurrency := increase_max_streams_credits (is_bidi sid) 1 (sm_concurrency sm)\<rparr>
                   else sm);
            sm2 = mark_writable sid False (mark_readable sid False sm1);
            sm3 = (case sm_streams sm2 sid of Some st \<Rightarrow> put_stream sid (st_mark_closed st) sm2 | None \<Rightarrow> sm2);
            (events, enabled) = ev_add (StreamClosed sid) (sm_events sm3);
            sm4 = sm3\<lparr>sm_events := events\<rparr>
        in if enabled then sm4 else stream_destroy sid sm4)"

definition want_write :: "u64 \<Rightarrow> bool \<Rightarrow> stream_map \<Rightarrow> stream_map \<times> unit result" where
  "want_write sid want sm =
     (case sm_streams sm sid of
        Some st \<Rightarrow> let (st1, res) = st_mark_wantwrite want st in (put_stream sid st1 sm, res)
      | None \<Rightarrow> (sm, Inl (Err Done)))"

definition want_read :: "u64 \<Rightarrow> bool \<Rightarrow> stream_map \<Rightarrow> stream_map \<times> unit result" where
  "want_read sid want sm =
     (case sm_streams sm sid of
        Some st \<Rightarrow> let (st1, res) = st_mark_wantread want st in (put_stream sid st1 sm, res)
      | None \<Rightarrow> (sm, Inl (Err Done)))"

subsection \<open>Limits of the connection\<close>

definition max_rx_data_left :: "stream_map \<Rightarrow> u64" where
  "max_rx_data_left sm = sub64 (fc_max_data (sm_flow_control sm)) (fc_recv_off (sm_flow_control sm))"

definition max_tx_data_left :: "stream_map \<Rightarrow> u64" where
  "max_tx_data_left sm = sub64 (sc_max_data (sm_send_capacity sm)) (sc_tx_data (sm_send_capacity sm))"

text \<open>Counting data as consumed, and noting when a MAX_DATA frame is due.\<close>

definition consume_data :: "u64 \<Rightarrow> stream_map \<Rightarrow> stream_map" where
  "consume_data n sm =
     (let fc = fc_increase_read_off n (sm_flow_control sm)
      in sm\<lparr>sm_flow_control := fc,
            sm_rx_almost_full := (if fc_should_send_max_data fc then True else sm_rx_almost_full sm)\<rparr>)"

definition max_stream_data_limit :: "bool \<Rightarrow> bool \<Rightarrow> stream_params \<Rightarrow> stream_params \<Rightarrow> u64 \<times> u64" where
  "max_stream_data_limit loc bidi local_params peer_params =
     (if loc then
        if bidi then (sp_initial_max_stream_data_bidi_local local_params, sp_initial_max_stream_data_bidi_remote peer_params)
        else (0, sp_initial_max_stream_data_uni peer_params)
      else
        if bidi then (sp_initial_max_stream_data_bidi_remote local_params, sp_initial_max_stream_data_bidi_local peer_params)
        else (sp_initial_max_stream_data_uni local_params, 0))"

subsection \<open>Creating streams\<close>

definition next_id :: "u64 \<Rightarrow> u64 \<Rightarrow> u64" where
  "next_id next sid = sat_add64 (max next sid) 4"

definition get_or_create :: "u64 \<Rightarrow> bool \<Rightarrow> stream_map \<Rightarrow> stream_map \<times> stream result" where
  "get_or_create sid loc sm =
     (if sid > VINT_MAX then (sm, Inl (Err ProtocolViolation))
      else case sm_streams sm sid of
             Some st \<Rightarrow> (sm, Inr st)
           | None \<Rightarrow>
               if sm_is_closed sid sm then (sm, Inl (Err Done))
               else if loc \<noteq> is_local sid (sm_is_server sm) then (sm, Inl (Err StreamStateError))
               else
                 let bidi = is_bidi sid;
                     (max_rx_data, max_tx_data) = max_stream_data_limit loc bidi (sm_local_params sm) (sm_peer_params sm)
                 in (case check_concurrency_limits sid (sm_is_server sm) (sm_concurrency sm) of
                       (cc, Inl e) \<Rightarrow> (sm\<lparr>sm_concurrency := cc\<rparr>, Inl e)
                     | (cc, Inr _) \<Rightarrow>
                         let new_stream = st_new bidi loc max_tx_data max_rx_data (sm_max_stream_window sm);
                             sm1 = sm\<lparr>sm_concurrency := remove_avail_id sid (sm_is_server sm) cc\<rparr>;
                             sm2 = (if st_is_writable new_stream then sm1\<lparr>sm_writable := insert sid (sm_writable sm1)\<rparr> else sm1);
                             sm3 = (if bidi then sm2\<lparr>sm_next_stream_id_bidi := next_id (sm_next_stream_id_bidi sm2) sid\<rparr>
                                    else sm2\<lparr>sm_next_stream_id_uni := next_id (sm_next_stream_id_uni sm2) sid\<rparr>);
                             sm4 = sm3\<lparr>sm_events := fst (ev_add (StreamCreated sid) (sm_events sm3))\<rparr>
                         in (put_stream sid new_stream sm4, Inr new_stream)))"

definition stream_set_priority :: "u64 \<Rightarrow> nat \<Rightarrow> bool \<Rightarrow> stream_map \<Rightarrow> stream_map \<times> unit result" where
  "stream_set_priority sid urgency incremental sm =
     (case get_or_create sid True sm of
        (sm1, Inl (Err Done)) \<Rightarrow> (sm1, Inr ())
      | (sm1, Inl e) \<Rightarrow> (sm1, Inl e)
      | (sm1, Inr st) \<Rightarrow>
          if st_urgency st = urgency \<and> st_incremental st = incremental then (sm1, Inr ())
          else (put_stream sid (st\<lparr>st_urgency := urgency, st_incremental := incremental\<rparr>) sm1, Inr ()))"

definition stream_bidi_new :: "nat \<Rightarrow> bool \<Rightarrow> stream_map \<Rightarrow> stream_map \<times> u64 result" where
  "stream_bidi_new urgency incremental sm =
     (let sid = sm_next_stream_id_bidi sm
      in case stream_set_priority sid urgency incremental sm of
           (sm1, Inr _) \<Rightarrow> (sm1, Inr sid)
         | (sm1, Inl e) \<Rightarrow> (sm1, Inl e))"

definition stream_uni_new :: "nat \<Rightarrow> bool \<Rightarrow> stream_map \<Rightarrow> stream_map \<times> u64 result" where
  "stream_uni_new urgency incremental sm =
     (let sid = sm_next_stream_id_uni sm
      in case stream_set_priority sid urgency incremental sm of
           (sm1, Inr _) \<Rightarrow> (sm1, Inr sid)
         | (sm1, Inl e) \<Rightarrow> (sm1, Inl e))"

subsection \<open>Calls of the application\<close>

definition stream_read :: "u64 \<Rightarrow> usize \<Rightarrow> stream_map \<Rightarrow> stream_map \<times> (byte list \<times> bool) result" where
  "stream_read sid cap sm =
     (if \<not> is_bidi sid \<and> is_local sid (sm_is_server sm) then (sm, Inl (Err StreamStateError))
      else case sm_streams sm sid of
             None \<Rightarrow> (sm, Inl (Err StreamStateError))
           | Some st \<Rightarrow>
               if \<not> st_is_readable st then (sm, Inl (Err Done))
               else
                 (case rv_read cap (st_recv st) of
                    (rv, Inl Panic) \<Rightarrow> (sm, Inl Panic)
                  | (rv, Inl e) \<Rightarrow>
                      let st1 = st\<lparr>st_recv := rv\<rparr>;
                          sm1 = put_stream sid st1 sm;
                          sm2 = (if st_is_complete st1 then sm_mark_closed sid (st_local st) sm1 else sm1)
                      in (mark_readable sid False sm2, Inl e)
                  | (rv, Inr (bs, fin)) \<Rightarrow>
                      let st1 = st\<lparr>st_recv := rv\<rparr>;
                          sm1 = put_stream sid st1 sm;
                          sm2 = (if rv_should_send_max_data rv then mark_almost_full sid True sm1 else sm1);
                          sm3 = consume_data (length bs) sm2;
                          sm4 = (if \<not> st_is_readable st1 then mark_readable sid False sm3 else sm3);
                          sm5 = (if st_is_complete st1 then sm_mark_closed sid (st_local st) sm4 else sm4)
                      in (sm5, Inr (bs, fin))))"

text \<open>The steps of \<open>stream_write\<close> after the send buffer took \<open>written\<close> of \<open>buf_len\<close> bytes.\<close>

definition note_blocked :: "u64 \<Rightarrow> stream \<Rightarrow> bool \<Rightarrow> stream_map \<Rightarrow> stream_map" where
  "note_blocked sid st short sm =
     (if short then
        let max_data = sb_max_data (st_send st)
        in if sb_blocked_at (st_send st) \<noteq> Some max_data then
             mark_blocked sid True max_data
               (put_stream sid (st\<lparr>st_send := sb_update_blocked_at (Some max_data) (st_send st)\<rparr>) sm)
           else put_stream sid st sm
      else mark_blocked sid False 0 (put_stream sid (st\<lparr>st_send := sb_update_blocked_at None (st_send st)\<rparr>) sm))"

definition stream_write :: "u64 \<Rightarrow> byte list \<Rightarrow> bool \<Rightarrow> stream_map \<Rightarrow> stream_map \<times> usize result" where
  "stream_write sid buf0 fin0 sm =
     (if \<not> is_bidi sid \<and> \<not> is_local sid (sm_is_server sm) then (sm, Inl (Err StreamStateError))
      else
        let sm0 = (if max_tx_data_left sm < length buf0
                   then update_data_blocked_at (Some (sc_max_data (sm_send_capacity sm))) sm else sm);
            expect_written = length buf0;
            capacity = sc_capacity (sm_send_capacity sm0)
        in (case get_or_create sid True sm0 of
              (sm1, Inl e) \<Rightarrow> (sm1, Inl e)
            | (sm1, Inr st) \<Rightarrow>
                let was_writable = st_is_writable st;
                    was_sendable = st_is_sendable st
                in if capacity = 0 \<and> buf0 \<noteq> [] then
                     let sm2 = (if was_writable then mark_writable sid True sm1 else sm1)
                     in (fst (want_write sid True sm2), Inl (Err Done))
                   else
                     let blocked_by_cap = capacity < length buf0;
                         buf = (if blocked_by_cap then take capacity buf0 else buf0);
                         fin = (if blocked_by_cap then False else fin0);
                         buf_len = length buf
                     in (case sb_write buf fin (st_send st) of
                           (sb, Inl e) \<Rightarrow> (mark_writable sid False (put_stream sid (st\<lparr>st_send := sb\<rparr>) sm1), Inl e)
                         | (sb, Inr written) \<Rightarrow>
                             let st1 = st\<lparr>st_send := sb\<rparr>;
                                 sendable = st_is_sendable st1;
                                 writable = st_is_writable st1;
                                 empty_fin = (buf_len = 0 \<and> fin);
                                 sm2 = note_blocked sid st1 (written < buf_len) sm1;
                                 sm3 = (if (sendable \<or> empty_fin) \<and> \<not> was_sendable
                                        then sm_push_sendable sid (st_urgency st) (st_incremental st) sm2 else sm2);
                                 sm4 = (if \<not> writable then mark_writable sid False sm3
                                        else if was_writable \<and> blocked_by_cap then mark_writable sid True sm3 else sm3);
                                 sc = sm_send_capacity sm4;
                                 sm5 = sm4\<lparr>sm_send_capacity := sc\<lparr>sc_capacity := sub64 (sc_capacity sc) written,
                                                                     sc_tx_data := add64 (sc_tx_data sc) written\<rparr>\<rparr>;
                                 sm6 = (if written < expect_written then fst (want_write sid True sm5) else sm5)
                             in if written = 0 \<and> buf_len > 0 then (sm6, Inl (Err Done)) else (sm6, Inr written))))"

datatype shutdown_dir = ShutdownRead | ShutdownWrite

text \<open>Giving back the credit for data that was buffered and not sent.\<close>

definition claw_back :: "u64 \<Rightarrow> stream_map \<Rightarrow> stream_map" where
  "claw_back unsent sm =
     (let sc = sm_send_capacity sm
      in sm\<lparr>sm_send_capacity := sc_update_capacity (sc\<lparr>sc_tx_data := sc_tx_data sc - unsent\<rparr>)\<rparr>)"

definition stream_shutdown :: "u64 \<Rightarrow> shutdown_dir \<Rightarrow> u64 \<Rightarrow> stream_map \<Rightarrow> stream_map \<times> unit result" where
  "stream_shutdown sid dir err sm =
     (case sm_streams sm sid of
        None \<Rightarrow> (sm, Inl (Err Done))
      | Some st \<Rightarrow>
          (case dir of
             ShutdownRead \<Rightarrow>
               if is_local sid (sm_is_server sm) \<and> \<not> is_bidi sid then (sm, Inl (Err StreamStateError))
               else
                 (case rv_shutdown (st_recv st) of
                    (rv, Inl e) \<Rightarrow> (put_stream sid (st\<lparr>st_recv := rv\<rparr>) sm, Inl e)
                  | (rv, Inr unread_len) \<Rightarrow>
                      let sm1 = put_stream sid (st\<lparr>st_recv := rv\<rparr>) sm;
                          sm2 = (if \<not> rv_is_fin rv then mark_stopped sid True err sm1 else sm1);
                          sm3 = mark_readable sid False sm2
                      in (consume_data unread_len sm3, Inr ()))
           | ShutdownWrite \<Rightarrow>
               if \<not> is_local sid (sm_is_server sm) \<and> \<not> is_bidi sid then (sm, Inl (Err StreamStateError))
               else
                 (case sb_shutdown (st_send st) of
                    (sb, Inl e) \<Rightarrow> (put_stream sid (st\<lparr>st_send := sb\<rparr>) sm, Inl e)
                  | (sb, Inr (final_size, unsent)) \<Rightarrow>
                      let sm1 = claw_back unsent (put_stream sid (st\<lparr>st_send := sb\<rparr>) sm);
                          sm2 = mark_reset sid True err final_size sm1
                      in (mark_writable sid False sm2, Inr ()))))"

definition stream_capacity :: "u64 \<Rightarrow> stream_map \<Rightarrow> usize result" where
  "stream_capacity sid sm =
     (case sm_streams sm sid of
        None \<Rightarrow> Inl (Err StreamStateError)
      | Some st \<Rightarrow> rbind (sb_capacity (st_send st)) (\<lambda>c. Inr (min (sc_capacity (sm_send_capacity sm)) c)))"

definition stream_writable :: "u64 \<Rightarrow> usize \<Rightarrow> stream_map \<Rightarrow> stream_map \<times> bool result" where
  "stream_writable sid len sm =
     (case stream_capacity sid sm of
        Inl e \<Rightarrow> (sm, Inl e)
      | Inr c \<Rightarrow>
          if c \<ge> len then (sm, Inr True)
          else
            let sm1 = (if max_tx_data_left sm < len
                       then update_data_blocked_at (Some (sc_max_data (sm_send_capacity sm))) sm else sm)
            in (case sm_streams sm1 sid of
                  None \<Rightarrow> (sm1, Inl Panic)
                | Some st0 \<Rightarrow>
                    let st = st0\<lparr>st_write_thresh := max 1 len\<rparr>;
                        sm2 = put_stream sid st sm1
                    in (case sb_capacity (st_send st) of
                          Inl e \<Rightarrow> (sm2, Inl e)
                        | Inr cap \<Rightarrow>
                            if cap < len then
                              let max_data = sb_max_data (st_send st)
                              in if sb_blocked_at (st_send st) \<noteq> Some max_data then
                                   (mark_blocked sid True max_data
                                      (put_stream sid (st\<lparr>st_send := sb_update_blocked_at (Some max_data) (st_send st)\<rparr>) sm2),
                                    Inr False)
                                 else (sm2, Inr False)
                            else if st_is_writable st then (mark_writable sid True sm2, Inr False)
                            else (sm2, Inr False))))"

definition stream_readable :: "u64 \<Rightarrow> stream_map \<Rightarrow> bool" where
  "stream_readable sid sm = (case sm_streams sm sid of Some st \<Rightarrow> st_is_readable st | None \<Rightarrow> False)"

definition stream_finished :: "u64 \<Rightarrow> stream_map \<Rightarrow> bool" where
  "stream_finished sid sm = (case sm_streams sm sid of Some st \<Rightarrow> rv_is_fin (st_recv st) | None \<Rightarrow> True)"

definition check_writable :: "u64 \<Rightarrow> stream_map \<Rightarrow> bool" where
  "check_writable sid sm =
     (case sm_streams sm sid of
        None \<Rightarrow> False
      | Some st \<Rightarrow>
          if WantWrite \<notin> st_flags st then False
          else (case sb_capacity (st_send st) of
                  Inl _ \<Rightarrow> True
                | Inr c \<Rightarrow> min (sc_capacity (sm_send_capacity sm)) c \<ge> st_write_thresh st))"

definition check_readable :: "u64 \<Rightarrow> stream_map \<Rightarrow> bool" where
  "check_readable sid sm = (case sm_streams sm sid of Some st \<Rightarrow> WantRead \<in> st_flags st | None \<Rightarrow> False)"

definition has_readable :: "stream_map \<Rightarrow> bool" where
  "has_readable sm \<longleftrightarrow> (\<exists>sid \<in> sm_readable sm. check_readable sid sm)"

definition has_writable :: "stream_map \<Rightarrow> bool" where
  "has_writable sm \<longleftrightarrow> sc_capacity (sm_send_capacity sm) \<noteq> 0 \<and> (\<exists>sid \<in> sm_writable sm. check_writable sid sm)"

definition should_send_max_streams :: "stream_map \<Rightarrow> bool" where
  "should_send_max_streams sm \<longleftrightarrow> should_update_local_max_streams True (sm_concurrency sm)
     \<or> should_update_local_max_streams False (sm_concurrency sm)"

definition streams_blocked :: "stream_map \<Rightarrow> bool" where
  "streams_blocked sm \<longleftrightarrow> streams_blocked_at_bidi (sm_concurrency sm) \<noteq> None
     \<or> streams_blocked_at_uni (sm_concurrency sm) \<noteq> None"

definition need_send_max_data :: "stream_map \<Rightarrow> bool" where
  "need_send_max_data sm \<longleftrightarrow> sm_rx_almost_full sm
     \<and> fc_max_data (sm_flow_control sm) < fc_max_data_next (sm_flow_control sm)"

definition need_send_stream_frames :: "stream_map \<Rightarrow> bool" where
  "need_send_stream_frames sm \<longleftrightarrow> sm_sendable sm \<noteq> [] \<or> need_send_max_data sm
     \<or> sc_blocked_at (sm_send_capacity sm) \<noteq> None \<or> should_send_max_streams sm \<or> sm_almost_full sm \<noteq> {}
     \<or> sm_data_blocked sm \<noteq> Map.empty \<or> sm_reset sm \<noteq> Map.empty \<or> sm_stopped sm \<noteq> Map.empty \<or> streams_blocked sm"

subsection \<open>Frames received\<close>

definition on_max_data_frame_received :: "u64 \<Rightarrow> stream_map \<Rightarrow> stream_map" where
  "on_max_data_frame_received max_data sm =
     (let sc = sc_update_capacity (sc_update_max_data max_data (sm_send_capacity sm));
          sc1 = (if above_blocked (sc_max_data sc) (sc_blocked_at sc) then sc\<lparr>sc_blocked_at := None\<rparr> else sc)
      in sm\<lparr>sm_send_capacity := sc1\<rparr>)"

definition on_max_stream_data_frame_received :: "u64 \<Rightarrow> u64 \<Rightarrow> stream_map \<Rightarrow> stream_map \<times> unit result" where
  "on_max_stream_data_frame_received sid max_data sm =
     (if \<not> is_local sid (sm_is_server sm) \<and> \<not> is_bidi sid then (sm, Inl (Err StreamStateError))
      else case get_or_create sid False sm of
             (sm1, Inl (Err Done)) \<Rightarrow> (sm1, Inr ())
           | (sm1, Inl e) \<Rightarrow> (sm1, Inl e)
           | (sm1, Inr st) \<Rightarrow>
               let was_sendable = st_is_sendable st;
                   st1 = st\<lparr>st_send := sb_update_max_data max_data (st_send st)\<rparr>;
                   sm2 = put_stream sid st1 sm1;
                   sm3 = (if st_is_sendable st1 \<and> \<not> was_sendable
                          then sm_push_sendable sid (st_urgency st1) (st_incremental st1) sm2 else sm2);
                   sm4 = (if st_is_writable st1 then mark_writable sid True sm3 else sm3)
               in (sm4, Inr ()))"

definition on_max_streams_frame_received :: "u64 \<Rightarrow> bool \<Rightarrow> stream_map \<Rightarrow> stream_map \<times> unit result" where
  "on_max_streams_frame_received max_streams bidi sm =
     (if max_streams > MAX_STREAMS_PER_TYPE then (sm, Inl (Err FrameEncodingError))
      else (sm\<lparr>sm_concurrency := update_peer_max_streams bidi max_streams (sm_concurrency sm)\<rparr>, Inr ()))"

definition on_stream_data_blocked_frame_received :: "u64 \<Rightarrow> u64 \<Rightarrow> stream_map \<Rightarrow> stream_map \<times> unit result" where
  "on_stream_data_blocked_frame_received sid max_stream_data sm =
     (if is_local sid (sm_is_server sm) \<and> \<not> is_bidi sid then (sm, Inl (Err StreamStateError)) else (sm, Inr ()))"

definition on_streams_blocked_frame_received :: "u64 \<Rightarrow> bool \<Rightarrow> stream_map \<Rightarrow> stream_map \<times> unit result" where
  "on_streams_blocked_frame_received max_streams bidi sm =
     (if max_streams > MAX_STREAMS_PER_TYPE then (sm, Inl (Err FrameEncodingError)) else (sm, Inr ()))"

definition on_reset_stream_frame_received :: "u64 \<Rightarrow> u64 \<Rightarrow> u64 \<Rightarrow> stream_map \<Rightarrow> stream_map \<times> unit result" where
  "on_reset_stream_frame_received sid error_code final_size sm =
     (if \<not> is_bidi sid \<and> is_local sid (sm_is_server sm) then (sm, Inl (Err StreamStateError))
      else
        let rx_left = max_rx_data_left sm
        in case get_or_create sid False sm of
             (sm1, Inl (Err Done)) \<Rightarrow> (sm1, Inr ())
           | (sm1, Inl e) \<Rightarrow> (sm1, Inl e)
           | (sm1, Inr st) \<Rightarrow>
               let was_readable = st_is_readable st;
                   max_fc_off_delta = final_size - rv_read_off (st_recv st)
               in (case rv_reset error_code final_size (st_recv st) of
                     (rv, Inl e) \<Rightarrow> (put_stream sid (st\<lparr>st_recv := rv\<rparr>) sm1, Inl e)
                   | (rv, Inr max_rx_off_delta) \<Rightarrow>
                       let st1 = st\<lparr>st_recv := rv\<rparr>;
                           sm2 = put_stream sid st1 sm1
                       in if max_rx_off_delta > rx_left then (sm2, Inl (Err FlowControlError))
                          else
                            let is_readable = st_is_readable st1;
                                is_complete = st_is_complete st1;
                                sm3 = (if \<not> was_readable \<and> is_readable then mark_readable sid True sm2 else sm2);
                                sm4 = (if is_complete \<and> \<not> is_readable then sm_mark_closed sid (st_local st1) sm3 else sm3);
                                sm5 = sm4\<lparr>sm_flow_control := fc_increase_recv_off max_rx_off_delta (sm_flow_control sm4)\<rparr>
                            in (consume_data max_fc_off_delta sm5, Inr ())))"

definition on_stop_sending_frame_received :: "u64 \<Rightarrow> u64 \<Rightarrow> stream_map \<Rightarrow> stream_map \<times> unit result" where
  "on_stop_sending_frame_received sid error_code sm =
     (if \<not> is_local sid (sm_is_server sm) \<and> \<not> is_bidi sid then (sm, Inl (Err StreamStateError))
      else case get_or_create sid False sm of
             (sm1, Inl (Err Done)) \<Rightarrow> (sm1, Inr ())
           | (sm1, Inl e) \<Rightarrow> (sm1, Inl e)
           | (sm1, Inr st) \<Rightarrow>
               let was_writable = st_is_writable st
               in (case sb_stop error_code (st_send st) of
                     (sb, Inl _) \<Rightarrow> (put_stream sid (st\<lparr>st_send := sb\<rparr>) sm1, Inr ())
                   | (sb, Inr (final_size, unsent)) \<Rightarrow>
                       let sm2 = claw_back unsent (put_stream sid (st\<lparr>st_send := sb\<rparr>) sm1);
                           sm3 = mark_reset sid True error_code final_size sm2
                       in (if \<not> was_writable then mark_writable sid True sm3 else sm3, Inr ())))"

definition on_stream_frame_received ::
    "u64 \<Rightarrow> u64 \<Rightarrow> usize \<Rightarrow> bool \<Rightarrow> byte list \<Rightarrow> stream_map \<Rightarrow> stream_map \<times> unit result" where
  "on_stream_frame_received sid offset len fin data sm =
     (if is_local sid (sm_is_server sm)
         \<and> (\<not> is_bidi sid \<or> (sm_streams sm sid = None \<and> \<not> sm_is_closed sid sm)) then (sm, Inl (Err StreamStateError))
      else
        let rx_left = max_rx_data_left sm
        in case get_or_create sid False sm of
             (sm1, Inl (Err Done)) \<Rightarrow> (sm1, Inr ())
           | (sm1, Inl e) \<Rightarrow> (sm1, Inl e)
           | (sm1, Inr st) \<Rightarrow>
               let data_max_off = add64 offset len;
                   max_rx_off_delta = data_max_off - rv_recv_off (st_recv st)
               in if max_rx_off_delta > rx_left then (sm1, Inl (Err FlowControlError))
                  else
                    let was_readable = st_is_readable st;
                        was_draining = st_is_draining st
                    in (case rv_write offset data fin (st_recv st) of
                          (rv, Inl e) \<Rightarrow> (put_stream sid (st\<lparr>st_recv := rv\<rparr>) sm1, Inl e)
                        | (rv, Inr _) \<Rightarrow>
                            let st1 = st\<lparr>st_recv := rv\<rparr>;
                                sm2 = put_stream sid st1 sm1;
                                sm3 = (if \<not> was_readable \<and> st_is_readable st1 then mark_readable sid True sm2 else sm2);
                                sm4 = sm3\<lparr>sm_flow_control := fc_increase_recv_off max_rx_off_delta (sm_flow_control sm3)\<rparr>
                            in (if was_draining then consume_data max_rx_off_delta sm4 else sm4, Inr ())))"

subsection \<open>Frames acknowledged and lost\<close>

text \<open>A stream on which nothing is left to be done is closed.\<close>

definition close_if_done :: "u64 \<Rightarrow> stream \<Rightarrow> stream_map \<Rightarrow> stream_map" where
  "close_if_done sid st sm =
     (if st_is_complete st \<and> \<not> st_is_readable st then sm_mark_closed sid (st_local st) sm else sm)"

definition on_stream_frame_acked :: "u64 \<Rightarrow> u64 \<Rightarrow> usize \<Rightarrow> stream_map \<Rightarrow> stream_map \<times> unit result" where
  "on_stream_frame_acked sid offset len sm =
     (case sm_streams sm sid of
        None \<Rightarrow> (sm, Inr ())
      | Some st \<Rightarrow>
          (case sb_ack_and_drop offset len (st_send st) of
             None \<Rightarrow> (sm, Inl Panic)
           | Some sb \<Rightarrow>
               let st1 = st\<lparr>st_send := sb\<rparr>
               in (close_if_done sid st1 (put_stream sid st1 sm), Inr ())))"

definition on_reset_stream_frame_acked :: "u64 \<Rightarrow> stream_map \<Rightarrow> stream_map" where
  "on_reset_stream_frame_acked sid sm =
     (case sm_streams sm sid of None \<Rightarrow> sm | Some st \<Rightarrow> close_if_done sid st sm)"

definition on_stream_frame_lost :: "u64 \<Rightarrow> u64 \<Rightarrow> usize \<Rightarrow> bool \<Rightarrow> stream_map \<Rightarrow> stream_map" where
  "on_stream_frame_lost sid offset len fin sm =
     (case sm_streams sm sid of
        None \<Rightarrow> sm
      | Some st \<Rightarrow>
          let was_sendable = st_is_sendable st;
              empty_fin = (len = 0 \<and> fin);
              st1 = st\<lparr>st_send := sb_retransmit offset len (st_send st)\<rparr>;
              sm1 = put_stream sid st1 sm
          in if (st_is_sendable st1 \<or> empty_fin) \<and> \<not> was_sendable
             then sm_push_sendable sid (st_urgency st1) (st_incremental st1) sm1 else sm1)"

definition on_reset_stream_frame_lost :: "u64 \<Rightarrow> u64 \<Rightarrow> u64 \<Rightarrow> stream_map \<Rightarrow> stream_map" where
  "on_reset_stream_frame_lost sid error_code final_size sm =
     (if sm_streams sm sid \<noteq> None then mark_reset sid True error_code final_size sm else sm)"

definition on_stop_sending_frame_lost :: "u64 \<Rightarrow> u64 \<Rightarrow> stream_map \<Rightarrow> stream_map" where
  "on_stop_sending_frame_lost sid error_code sm =
     (case sm_streams sm sid of
        None \<Rightarrow> sm
      | Some st \<Rightarrow> if \<not> rv_is_fin (st_recv st) then mark_stopped sid True error_code sm else sm)"

definition on_max_stream_data_frame_lost :: "u64 \<Rightarrow> stream_map \<Rightarrow> stream_map" where
  "on_max_stream_data_frame_lost sid sm =
     (if sm_streams sm sid \<noteq> None then mark_almost_full sid True sm else sm)"

definition on_max_data_frame_lost :: "stream_map \<Rightarrow> stream_map" where
  "on_max_data_frame_lost sm = sm\<lparr>sm_rx_almost_full := True\<rparr>"

definition on_stream_data_blocked_frame_lost :: "u64 \<Rightarrow> u64 \<Rightarrow> stream_map \<Rightarrow> stream_map" where
  "on_stream_data_blocked_frame_lost sid blocked_at sm =
     (case sm_streams sm sid of
        None \<Rightarrow> sm
      | Some st \<Rightarrow> if blocked_at = sb_max_data (st_send st) then mark_blocked sid True blocked_at sm else sm)"

definition on_data_blocked_frame_lost :: "u64 \<Rightarrow> stream_map \<Rightarrow> stream_map" where
  "on_data_blocked_frame_lost n sm =
     (if n = sc_max_data (sm_send_capacity sm) then update_data_blocked_at (Some n) sm else sm)"

definition on_streams_blocked_frame_lost :: "bool \<Rightarrow> u64 \<Rightarrow> stream_map \<Rightarrow> stream_map" where
  "on_streams_blocked_frame_lost bidi max_streams sm =
     (if max_streams = peer_max_streams bidi (sm_concurrency sm)
      then sm\<lparr>sm_concurrency := update_streams_blocked_at bidi (Some max_streams) (sm_concurrency sm)\<rparr> else sm)"

subsection \<open>Parameters and windows\<close>

definition update_peer_stream_transport_params :: "stream_params \<Rightarrow> stream_map \<Rightarrow> stream_map" where
  "update_peer_stream_transport_params tp sm =
     sm\<lparr>sm_peer_params := tp,
        sm_send_capacity := sc_update_capacity (sc_update_max_data (sp_initial_max_data tp) (sm_send_capacity sm)),
        sm_concurrency := update_peer_max_streams False (sp_initial_max_streams_uni tp)
                            (update_peer_max_streams True (sp_initial_max_streams_bidi tp) (sm_concurrency sm))\<rparr>"

definition sm_update_local_max_streams :: "bool \<Rightarrow> stream_map \<Rightarrow> stream_map" where
  "sm_update_local_max_streams bidi sm = sm\<lparr>sm_concurrency := update_local_max_streams bidi (sm_concurrency sm)\<rparr>"

definition sm_autotune_window :: "instant \<Rightarrow> duration \<Rightarrow> stream_map \<Rightarrow> stream_map" where
  "sm_autotune_window now srtt sm = sm\<lparr>sm_flow_control := fc_autotune_window now srtt (sm_flow_control sm)\<rparr>"

definition update_max_rx_data :: "instant \<Rightarrow> stream_map \<Rightarrow> stream_map" where
  "update_max_rx_data now sm = sm\<lparr>sm_flow_control := fc_update_max_data now (sm_flow_control sm)\<rparr>"

definition sm_ensure_window_lower_bound :: "u64 \<Rightarrow> stream_map \<Rightarrow> stream_map" where
  "sm_ensure_window_lower_bound min_window sm =
     sm\<lparr>sm_flow_control := fc_ensure_window_lower_bound min_window (sm_flow_control sm)\<rparr>"

end
