(* ===== verification/SendStream.thy ===== *)
theory SendStream
  imports SendBuf
begin

text \<open>
  The send buffer of \<open>src/connection/stream.rs\<close>: its invariant, what each operation does to the
  data, the acknowledged and the queued ranges, and the properties of its runs.
\<close>

subsection \<open>Segments\<close>

text \<open>The segments hold the stream \<open>S\<close> from offset \<open>lo\<close> on, without gaps.\<close>

fun segs_ok :: "nat \<Rightarrow> byte list \<Rightarrow> range_buf list \<Rightarrow> bool" where
  "segs_ok lo S [] \<longleftrightarrow> lo = length S"
| "segs_ok lo S (b # bs) \<longleftrightarrow> rb_off b = lo \<and> rb_data b \<noteq> [] \<and> rb_end b \<le> length S
     \<and> rb_data b = segm lo (rb_end b) S \<and> segs_ok (rb_end b) S bs"

lemma rb_end_gt: "rb_data b \<noteq> [] \<Longrightarrow> rb_off b < rb_end b"
  by (simp add: rb_end_def)

lemma segs_ok_ConsD:
  assumes "segs_ok lo S (b # bs)"
  shows "rb_off b = lo" "rb_end b \<le> length S" "rb_data b = segm lo (rb_end b) S"
    "segs_ok (rb_end b) S bs" "lo < rb_end b"
proof -
  from assms show "rb_off b = lo" "rb_end b \<le> length S" "rb_data b = segm lo (rb_end b) S"
    "segs_ok (rb_end b) S bs" by simp_all
  from assms have "rb_data b \<noteq> []" "rb_off b = lo" unfolding segs_ok.simps by blast+
  then show "lo < rb_end b" using rb_end_gt by blast
qed

lemma segs_ok_le: "segs_ok lo S bs \<Longrightarrow> lo \<le> length S"
  by (cases bs) (use segs_ok_ConsD(2,5) in \<open>fastforce simp del: segs_ok.simps(2)\<close>)+

lemma segs_ok_Nil_iff: "segs_ok lo S bs \<Longrightarrow> bs = [] \<longleftrightarrow> lo = length S"
  by (cases bs) (use segs_ok_ConsD(2,5) in \<open>fastforce simp del: segs_ok.simps(2)\<close>)+

lemma segs_ok_snoc:
  "segs_ok lo S bs \<Longrightarrow> d \<noteq> [] \<Longrightarrow> segs_ok lo (S @ d) (bs @ [rb_new d (length S) fin])"
proof (induction bs arbitrary: lo)
  case (Cons b bs)
  note b = segs_ok_ConsD [OF Cons.prems(1)]
  have "rb_data b \<noteq> []" using Cons.prems(1) unfolding segs_ok.simps by blast
  moreover have "rb_end b \<le> length (S @ d)" using b(2) by simp
  moreover have "rb_data b = segm lo (rb_end b) (S @ d)"
    using b(2) by (simp only: b(3) segm_append_left)
  ultimately show ?case using b(1) Cons.IH [OF b(4) Cons.prems(2)] by simp
qed (simp add: rb_end_def segm_def)

lemma segs_ok_drop:
  "segs_ok lo S bs \<Longrightarrow> k \<le> length bs \<Longrightarrow> \<forall>b \<in> set (take k bs). rb_end b \<le> x \<Longrightarrow> lo \<le> x \<Longrightarrow>
   \<exists>lo'. lo' \<le> x \<and> segs_ok lo' S (drop k bs)"
proof (induction bs arbitrary: lo k)
  case (Cons b bs)
  show ?case
  proof (cases k)
    case (Suc j)
    with Cons.prems(2,3) have "rb_end b \<le> x" "j \<le> length bs"
      "\<forall>b \<in> set (take j bs). rb_end b \<le> x" by auto
    from Cons.IH [OF segs_ok_ConsD(4) [OF Cons.prems(1)] this(2,3,1)] Suc show ?thesis by simp
  qed (use Cons.prems(1,4) in \<open>auto simp del: segs_ok.simps\<close>)
qed auto

lemma push_chunk_ok:
  assumes "segs_ok lo S (sb_data sb)" "sb_write_off sb = length S" "d \<noteq> []" "length S + length d < u64_mod"
  shows "push_chunk d fin sb = sb\<lparr>sb_write_off := length S + length d, sb_data := sb_data sb @ [rb_new d (length S) fin]\<rparr>"
    "segs_ok lo (S @ d) (sb_data (push_chunk d fin sb))"
  using assms segs_ok_snoc [OF assms(1,3)]
  by (simp_all add: push_chunk_def Let_def rb_len_def add64_nowrap)

lemma push_chunks_ok:
  "segs_ok lo S (sb_data sb) \<Longrightarrow> sb_write_off sb = length S \<Longrightarrow> length S + length d < u64_mod \<Longrightarrow>
   \<exists>bufs. push_chunks d fin len dl sb = sb\<lparr>sb_write_off := length S + length d, sb_data := sb_data sb @ bufs\<rparr>
     \<and> segs_ok lo (S @ d) (sb_data sb @ bufs)"
proof (induction d fin len dl sb arbitrary: S rule: push_chunks.induct)
  case (1 d fin len dl sb)
  show ?case
  proof (cases "length d > SEND_BUFFER_SIZE")
    case True
    define c r where c_def: "c = take SEND_BUFFER_SIZE d" and r_def: "r = drop SEND_BUFFER_SIZE d"
    have c: "c \<noteq> []" "length c + length r = length d" "d = c @ r"
      using True by (auto simp: c_def r_def SEND_BUFFER_SIZE_def)
    define f where "f \<longleftrightarrow> len + length c = dl \<and> fin"
    have "length S + length c < u64_mod" using "1.prems"(3) c(2) by linarith
    note pc = push_chunk_ok [OF "1.prems"(1,2) c(1) this, of f]
    have "length (S @ c) + length r < u64_mod" "sb_write_off (push_chunk c f sb) = length (S @ c)"
      using "1.prems"(3) c(2) by (simp_all add: pc(1))
    with "1.IH" [OF True refl refl, folded c_def r_def, folded f_def, OF pc(2)]
    obtain bufs where bufs: "push_chunks r fin (len + length c) dl (push_chunk c f sb)
        = (push_chunk c f sb)\<lparr>sb_write_off := length (S @ c) + length r, sb_data := sb_data (push_chunk c f sb) @ bufs\<rparr>"
        "segs_ok lo ((S @ c) @ r) (sb_data (push_chunk c f sb) @ bufs)" by blast
    have len: "length (S @ c) + length r = length S + length d" using c(2) by simp
    have "push_chunks d fin len dl sb = push_chunks r fin (len + length c) dl (push_chunk c f sb)"
      using True by (subst push_chunks.simps) (simp only: if_True Let_def c_def r_def f_def)
    also have "\<dots> = sb\<lparr>sb_write_off := length S + length d, sb_data := sb_data sb @ (rb_new c (length S) f # bufs)\<rparr>"
      unfolding bufs(1) len unfolding pc(1) by simp
    finally show ?thesis using bufs(2) c(3) unfolding pc(1)
      by (intro exI [of _ "rb_new c (length S) f # bufs"]) simp
  next
    case False
    show ?thesis
    proof (cases "d = []")
      case True
      have "push_chunks d fin len dl sb = sb" using True by (subst push_chunks.simps) simp
      with True "1.prems" show ?thesis by (intro exI [of _ "[]"]) simp
    next
      case ne: False
      note pc = push_chunk_ok [OF "1.prems"(1,2) ne "1.prems"(3), of fin]
      have "push_chunks d fin len dl sb = push_chunk d fin sb"
        using False ne by (subst push_chunks.simps) simp
      with pc show ?thesis by (intro exI [of _ "[rb_new d (length S) fin]"]) simp
    qed
  qed
qed

lemma read_segments_ok:
  "segs_ok lo S segs \<Longrightarrow> lo \<le> start \<Longrightarrow> start < stop \<Longrightarrow> stop \<le> length S \<Longrightarrow> length S < u64_mod \<Longrightarrow>
   \<exists>n j. read_segments (start, stop) segs pos = Some (segm start (start + n) S, pos + j) \<and> 0 < n
     \<and> start + n \<le> stop \<and> j \<le> length segs \<and> (\<forall>b \<in> set (take j segs). rb_end b \<le> start + n)"
proof (induction segs arbitrary: lo pos)
  case (Cons b segs)
  note b = segs_ok_ConsD [OF Cons.prems(1)]
  have ok: "rb_ok b" using b(2) Cons.prems(5) by (simp add: rb_ok_def rb_end_def)
  have len: "rb_len b = rb_end b - lo" using b(1) by (simp add: rb_len_def rb_end_def)
  show ?case
  proof (cases "start < rb_end b")
    case True
    define e where "e = min stop (rb_end b)"
    have e: "start < e" "e \<le> stop" "e \<le> rb_end b" "min (stop - lo) (rb_len b) = e - lo" "lo \<le> e"
      using len True Cons.prems(2,3) by (auto simp: e_def)
    have data: "segm (start - lo) (e - lo) (rb_data b) = segm start e S"
    proof -
      have "drop (start - lo) (rb_data b) = segm start (rb_end b) S"
        using Cons.prems(2) by (simp only: b(3) drop_segm) simp
      moreover have "e - lo - (start - lo) = e - start" "start + (e - start) = e" using e Cons.prems(2) by auto
      ultimately show ?thesis using take_segm [of start "e - start" "rb_end b" S] e(3) by (simp add: segm_def)
    qed
    have sl: "slice (start - lo) (e - lo) (rb_data b) = Some (segm start e S)"
      using e len data Cons.prems(2) by (simp add: slice_def rb_len_def diff_le_mono)
    have cond: "start \<ge> rb_off b \<and> start < rb_max_off b" using True ok b(1) Cons.prems(2) by simp
    have subs: "sub64 start (rb_off b) = start - lo" "sub64 stop (rb_off b) = stop - lo"
      using b(1) Cons.prems(2,3) by (simp_all add: sub64_nowrap)
    define j where "j = (if e - lo = rb_len b then 1 else 0 :: nat)"
    have rd: "read_segments (start, stop) (b # segs) pos = Some (segm start e S, pos + j)"
      unfolding read_segments.simps Let_def subs e(4) sl if_P [OF cond] by (simp add: j_def)
    have "\<forall>c \<in> set (take j (b # segs)). rb_end c \<le> e"
      using len b(5) e(3,5) by (auto simp: j_def)
    then show ?thesis using rd e(1,2)
      by (intro exI [of _ "e - start"] exI [of _ j]) (auto simp: j_def)
  next
    case False
    from Cons.IH [OF b(4) _ Cons.prems(3-5), of "pos + 1"] False
    obtain n j where nj: "read_segments (start, stop) segs (pos + 1) = Some (segm start (start + n) S, pos + 1 + j)"
      "0 < n" "start + n \<le> stop" "j \<le> length segs" "\<forall>b \<in> set (take j segs). rb_end b \<le> start + n"
      by auto
    have "read_segments (start, stop) (b # segs) pos = read_segments (start, stop) segs (pos + 1)"
      using False ok by simp
    with nj False show ?thesis by (intro exI [of _ n] exI [of _ "Suc j"]) auto
  qed
qed simp

declare rs_insert.simps [simp del] rs_remove.simps [simp del] segs_ok.simps(2) [simp del]

definition passed :: "nat \<Rightarrow> nat \<Rightarrow> range_buf list \<Rightarrow> bool" where
  "passed x pos bs \<longleftrightarrow> pos \<le> length bs \<and> (\<forall>b \<in> set (take pos bs). rb_end b \<le> x)"

lemma passed_mono: "passed x pos bs \<Longrightarrow> x \<le> y \<Longrightarrow> passed y pos bs"
  by (auto simp: passed_def)

lemma read_range_ok:
  assumes "segs_ok lo S (sb_data sb)" "lo \<le> start" "start < stop" "stop \<le> length S" "length S < u64_mod"
    "passed start (sb_pos sb) (sb_data sb)"
  obtains n p where "read_range (start, stop) sb = Some (segm start (start + n) S, sb\<lparr>sb_pos := p\<rparr>)"
    "0 < n" "start + n \<le> stop" "passed (start + n) p (sb_data sb)"
proof -
  have p: "sb_pos sb \<le> length (sb_data sb)" "\<forall>b \<in> set (take (sb_pos sb) (sb_data sb)). rb_end b \<le> start"
    using assms(6) by (simp_all add: passed_def)
  from segs_ok_drop [OF assms(1) p assms(2)] obtain lo'
    where lo': "lo' \<le> start" "segs_ok lo' S (drop (sb_pos sb) (sb_data sb))" by blast
  from read_segments_ok [OF lo'(2,1) assms(3-5), of "sb_pos sb"] obtain n j
    where nj: "read_segments (start, stop) (drop (sb_pos sb) (sb_data sb)) (sb_pos sb)
        = Some (segm start (start + n) S, sb_pos sb + j)" "0 < n" "start + n \<le> stop"
      "j \<le> length (drop (sb_pos sb) (sb_data sb))"
      "\<forall>b \<in> set (take j (drop (sb_pos sb) (sb_data sb))). rb_end b \<le> start + n" by blast
  have "passed (start + n) (sb_pos sb + j) (sb_data sb)"
    using p nj(4,5) by (auto simp: passed_def take_add)
  with nj(1-3) show thesis by (intro that [of n "sb_pos sb + j"]) (simp_all add: read_range_def)
qed

lemma copy_range_ok:
  "segs_ok lo S (sb_data sb) \<Longrightarrow> lo \<le> start \<Longrightarrow> start \<le> stop \<Longrightarrow> stop \<le> length S \<Longrightarrow> length S < u64_mod \<Longrightarrow>
   passed start (sb_pos sb) (sb_data sb) \<Longrightarrow> length out + (stop - start) \<le> room \<Longrightarrow>
   \<exists>p. copy_range room start stop out sb = Some (out @ segm start stop S, sb\<lparr>sb_pos := p\<rparr>)
     \<and> passed stop p (sb_data sb)"
proof (induction "stop - start" arbitrary: start out sb rule: less_induct)
  case less
  show ?case
  proof (cases "start = stop")
    case True
    then show ?thesis using less.prems(6)
      by (intro exI [of _ "sb_pos sb"]) (simp add: copy_range.simps)
  next
    case False
    then have lt: "start < stop" using less.prems(3) by simp
    from read_range_ok [OF less.prems(1,2) lt less.prems(4-6)] obtain n p
      where np: "read_range (start, stop) sb = Some (segm start (start + n) S, sb\<lparr>sb_pos := p\<rparr>)"
        "0 < n" "start + n \<le> stop" "passed (start + n) p (sb_data sb)" .
    have len: "length (segm start (start + n) S) = n" using np(3) less.prems(4) by simp
    have add: "add64 start n = start + n" using np(3) less.prems(4,5) by (simp add: add64_nowrap)
    have fit: "\<not> room < length out + n" using np(3) less.prems(7) by linarith
    have "copy_range room start stop out sb
        = copy_range room (start + n) stop (out @ segm start (start + n) S) (sb\<lparr>sb_pos := p\<rparr>)"
      using False by (subst copy_range.simps) (simp add: np(1) len add fit)
    moreover have "\<exists>p'. copy_range room (start + n) stop (out @ segm start (start + n) S) (sb\<lparr>sb_pos := p\<rparr>)
        = Some ((out @ segm start (start + n) S) @ segm (start + n) stop S, sb\<lparr>sb_pos := p, sb_pos := p'\<rparr>)
        \<and> passed stop p' (sb_data (sb\<lparr>sb_pos := p\<rparr>))"
      by (rule less.hyps) (use less.prems np lt len in auto)
    ultimately show ?thesis using np(3) segm_append_adjacent [of start "start + n" stop S] by simp
  qed
qed

subsection \<open>The invariant\<close>

text \<open>Everything below the base has been acknowledged and dropped.\<close>

definition sb_base :: "send_buf \<Rightarrow> nat" where
  "sb_base sb = sb_write_off sb - sb_unacked_len sb"

definition sb_bounds :: "byte list \<Rightarrow> send_buf \<Rightarrow> bool" where
  "sb_bounds S sb \<longleftrightarrow> length S = sb_write_off sb \<and> sb_unacked_len sb \<le> sb_write_off sb
     \<and> sb_base sb \<le> sb_unsent_off sb \<and> sb_unsent_off sb \<le> sb_write_off sb
     \<and> sb_write_off sb \<le> sb_max_data sb \<and> sb_max_data sb < u64_mod"

definition sb_sets :: "send_buf \<Rightarrow> bool" where
  "sb_sets sb \<longleftrightarrow> rs_inv (sb_acked sb) \<and> rs_inv (sb_retransmits sb)
     \<and> rs_nums (sb_acked sb) \<subseteq> {..<sb_unsent_off sb} \<and> {..<sb_base sb} \<subseteq> rs_nums (sb_acked sb)
     \<and> sb_base sb \<notin> rs_nums (sb_acked sb)
     \<and> rs_nums (sb_retransmits sb) \<subseteq> {sb_base sb..<sb_unsent_off sb}
     \<and> rs_nums (sb_retransmits sb) \<inter> rs_nums (sb_acked sb) = {}"

definition sb_inv :: "byte list \<Rightarrow> send_buf \<Rightarrow> bool" where
  "sb_inv S sb \<longleftrightarrow> sb_bounds S sb \<and> segs_ok (sb_base sb) S (sb_data sb) \<and> sb_sets sb
     \<and> passed (sb_send_off sb) (sb_pos sb) (sb_data sb)"

lemma sb_invD:
  assumes "sb_inv S sb"
  shows "sb_bounds S sb" "segs_ok (sb_base sb) S (sb_data sb)" "sb_sets sb"
    "passed (sb_send_off sb) (sb_pos sb) (sb_data sb)"
  using assms by (simp_all add: sb_inv_def)

lemma sb_new_inv: "max_data < u64_mod \<Longrightarrow> sb_inv [] (sb_new max_data)"
  by (simp add: sb_inv_def sb_new_def sb_bounds_def sb_base_def sb_sets_def passed_def)

lemma send_off_eq:
  "rs_inv (sb_retransmits sb) \<Longrightarrow>
   sb_send_off sb = (if rs_nums (sb_retransmits sb) = {} then sb_unsent_off sb else Min (rs_nums (sb_retransmits sb)))"
  by (simp add: sb_send_off_def rs_min_spec rs_inv_def)

lemma send_off_bounds:
  assumes "sb_sets sb" "sb_base sb \<le> sb_unsent_off sb"
  shows "sb_base sb \<le> sb_send_off sb" "sb_send_off sb \<le> sb_unsent_off sb"
proof -
  let ?R = "rs_nums (sb_retransmits sb)"
  have R: "?R \<subseteq> {sb_base sb..<sb_unsent_off sb}" "rs_inv (sb_retransmits sb)"
    using assms(1) by (simp_all add: sb_sets_def)
  have "Min ?R \<in> ?R" if "?R \<noteq> {}" using that by (simp add: Min_in)
  with R(1) have "Min ?R \<in> {sb_base sb..<sb_unsent_off sb}" if "?R \<noteq> {}" using that by blast
  then show "sb_base sb \<le> sb_send_off sb" "sb_send_off sb \<le> sb_unsent_off sb"
    using assms(2) by (cases "?R = {}", simp_all add: send_off_eq [OF R(2)])+
qed

text \<open>The offset of the next byte to send is the lowest one queued or not sent yet.\<close>

lemma send_off_ge:
  assumes "rs_inv (sb_retransmits sb)" "\<forall>x \<in> rs_nums (sb_retransmits sb). e \<le> x" "e \<le> sb_unsent_off sb"
  shows "e \<le> sb_send_off sb"
  using assms by (auto simp: send_off_eq)

subsection \<open>Reading what is to be sent\<close>

text \<open>What is still to be sent, for the first time or again.\<close>

definition sb_pending :: "send_buf \<Rightarrow> nat set" where
  "sb_pending sb = rs_nums (sb_retransmits sb) \<union> {sb_unsent_off sb..<sb_write_off sb}"

definition poll_ok :: "usize \<Rightarrow> send_buf \<Rightarrow> nat \<Rightarrow> send_buf \<Rightarrow> bool" where
  "poll_ok cap sb e sb1 \<longleftrightarrow> sb_send_off sb < e \<and> e \<le> sb_send_off sb + cap \<and> e \<le> sb_write_off sb
     \<and> sb1 = sb\<lparr>sb_retransmits := sb_retransmits sb1, sb_unsent_off := sb_unsent_off sb1\<rparr>
     \<and> sb_sets sb1 \<and> sb_unsent_off sb \<le> sb_unsent_off sb1 \<and> sb_unsent_off sb1 \<le> sb_write_off sb
     \<and> e \<le> sb_send_off sb1 \<and> e \<le> sb_unsent_off sb1
     \<and> sb_pending sb = sb_pending sb1 \<union> {sb_send_off sb..<e}"

lemma sb_base_simps [simp]:
  "sb_base (sb\<lparr>sb_retransmits := R\<rparr>) = sb_base sb" "sb_base (sb\<lparr>sb_unsent_off := u\<rparr>) = sb_base sb"
  "sb_base (sb\<lparr>sb_pos := p\<rparr>) = sb_base sb" "sb_base (sb\<lparr>sb_acked := A\<rparr>) = sb_base sb"
  "sb_base (sb\<lparr>sb_fin_off := f\<rparr>) = sb_base sb" "sb_base (sb\<lparr>sb_max_data := md\<rparr>) = sb_base sb"
  by (simp_all add: sb_base_def)

lemma send_off_simps [simp]:
  "sb_send_off (sb\<lparr>sb_pos := p\<rparr>) = sb_send_off sb" "sb_send_off (sb\<lparr>sb_acked := A\<rparr>) = sb_send_off sb"
  "sb_send_off (sb\<lparr>sb_fin_off := f\<rparr>) = sb_send_off sb" "sb_send_off (sb\<lparr>sb_max_data := md\<rparr>) = sb_send_off sb"
  by (simp_all add: sb_send_off_def split: option.split)

lemma poll_transmit_rtx:
  assumes inv: "sb_inv S sb" and ne: "rs_nums (sb_retransmits sb) \<noteq> {}" and cap: "0 < cap"
  shows "\<exists>e sb1. poll_transmit cap sb = ((sb_send_off sb, e), sb1) \<and> poll_ok cap sb e sb1"
proof -
  let ?R = "sb_retransmits sb"
  note i = sb_invD [OF inv]
  have R: "rs_inv ?R" "rs_nums ?R \<subseteq> {sb_base sb..<sb_unsent_off sb}" "rs_nums ?R \<inter> rs_nums (sb_acked sb) = {}"
    using i(3) by (simp_all add: sb_sets_def)
  from ne obtain a b m where m: "rs_set ?R = (a, b) # m" by (cases "rs_set ?R") auto
  then obtain R' where pop: "rs_pop_min ?R = (Some (a, b), R')"
    by (auto simp: rs_pop_min_def rs_peek_min_def)
  have wf: "rs_wf (rs_set ?R)" using R(1) by (simp add: rs_inv_def)
  note pm = rs_pop_min_spec [OF wf pop, simplified]
  have a: "sb_send_off sb = a" using ne pm(3) by (simp add: send_off_eq [OF R(1)])
  have R': "rs_inv R'" using pm(1,6) R(1) by (simp add: rs_inv_def)
  have "b - 1 \<in> rs_nums ?R" using pm(2,4) by auto
  with R(2) have "b - 1 < sb_unsent_off sb" by (meson atLeastLessThan_iff subsetD)
  then have b: "b \<le> sb_unsent_off sb" by simp
  have bnd: "sb_unsent_off sb \<le> sb_write_off sb" "sb_write_off sb < u64_mod"
    using i(1) by (auto simp: sb_bounds_def)
  define e where "e = min b (sat_add64 a cap)"
  have "a < sat_add64 a cap" "sat_add64 a cap \<le> a + cap"
    using cap b pm(2) bnd by (auto simp: sat_add64_def u64_max_def)
  then have e: "a < e" "e \<le> b" "e \<le> a + cap" using pm(2) by (auto simp: e_def)
  define Q where "Q = (if e \<noteq> b then rs_insert R' (e, b) else R')"
  have blt: "b < u64_mod" using b bnd by simp
  have Q: "rs_inv Q" "rs_nums Q = rs_nums R' \<union> {e..<b}"
    using R' urs.laws(1,2) [OF R' blt] by (auto simp: Q_def)
  have Qsub: "rs_nums ?R = rs_nums Q \<union> {a..<e}" using pm(2,4) Q(2) e by auto
  have sets: "sb_sets (sb\<lparr>sb_retransmits := Q\<rparr>)"
    using i(3) Q(1) Qsub by (auto simp: sb_sets_def)
  have ge: "e \<le> sb_send_off (sb\<lparr>sb_retransmits := Q\<rparr>)"
    using Q pm(5) e b by (intro send_off_ge) auto
  have "poll_ok cap sb e (sb\<lparr>sb_retransmits := Q\<rparr>)"
    using e b bnd sets ge Qsub a by (auto simp: poll_ok_def sb_pending_def)
  moreover have "poll_transmit cap sb = ((sb_send_off sb, e), sb\<lparr>sb_retransmits := Q\<rparr>)"
    by (simp add: poll_transmit_def pop Let_def e_def Q_def a)
  ultimately show ?thesis by blast
qed

lemma poll_transmit_new:
  assumes inv: "sb_inv S sb" and emp: "rs_nums (sb_retransmits sb) = {}" and cap: "0 < cap"
    and lt: "sb_unsent_off sb < sb_write_off sb"
  shows "\<exists>e sb1. poll_transmit cap sb = ((sb_send_off sb, e), sb1) \<and> poll_ok cap sb e sb1"
proof -
  let ?R = "sb_retransmits sb"
  note i = sb_invD [OF inv]
  have R: "rs_inv ?R" using i(3) by (simp add: sb_sets_def)
  then have "rs_set ?R = []" using emp by (simp add: rs_inv_def rs_elems_empty_iff)
  then have pop: "rs_pop_min ?R = (None, ?R)" by (simp add: rs_pop_min_def rs_peek_min_def)
  have so: "sb_send_off sb = sb_unsent_off sb" using emp by (simp add: send_off_eq [OF R])
  define e where "e = min (sb_write_off sb) (sat_add64 (sb_unsent_off sb) cap)"
  have e: "sb_unsent_off sb < e" "e \<le> sb_unsent_off sb + cap" "e \<le> sb_write_off sb"
    using lt cap i(1) by (auto simp: e_def sat_add64_def u64_max_def sb_bounds_def)
  have sets: "sb_sets (sb\<lparr>sb_unsent_off := e\<rparr>)"
    using i(3) e(1) emp by (auto simp: sb_sets_def)
  have ge: "e \<le> sb_send_off (sb\<lparr>sb_unsent_off := e\<rparr>)"
    using R emp by (intro send_off_ge) simp_all
  have "poll_ok cap sb e (sb\<lparr>sb_unsent_off := e\<rparr>)"
    using e sets ge emp so by (auto simp: poll_ok_def sb_pending_def)
  moreover have "poll_transmit cap sb = ((sb_send_off sb, e), sb\<lparr>sb_unsent_off := e\<rparr>)"
    by (simp add: poll_transmit_def pop Let_def e_def so)
  ultimately show ?thesis by blast
qed

lemma poll_transmit_ok:
  assumes inv: "sb_inv S sb" and "0 < cap" "sb_send_off sb < sb_write_off sb"
  obtains e sb1 where "poll_transmit cap sb = ((sb_send_off sb, e), sb1)" "poll_ok cap sb e sb1"
proof (cases "rs_nums (sb_retransmits sb) = {}")
  case True
  then have "sb_send_off sb = sb_unsent_off sb"
    using sb_invD(3) [OF inv] by (simp add: sb_sets_def send_off_eq)
  with poll_transmit_new [OF inv True assms(2)] assms(3) that show thesis by auto
next
  case False
  with poll_transmit_rtx [OF inv _ assms(2)] that show thesis by auto
qed

lemma sb_ready_iff: "sb_inv S sb \<Longrightarrow> sb_ready sb \<longleftrightarrow> sb_send_off sb < sb_write_off sb"
proof -
  assume inv: "sb_inv S sb"
  note i = sb_invD [OF inv]
  have "sb_base sb \<le> sb_send_off sb" "length S = sb_write_off sb"
    using i(1) send_off_bounds(1) [OF i(3)] by (simp_all add: sb_bounds_def)
  then show ?thesis using segs_ok_Nil_iff [OF i(2)] by (auto simp: sb_ready_def)
qed

definition read_ok :: "byte list \<Rightarrow> nat \<Rightarrow> nat \<Rightarrow> send_buf \<Rightarrow> send_buf \<Rightarrow> bool" where
  "read_ok S next_off n sb sb' \<longleftrightarrow> next_off + n \<le> length S \<and> sb_inv S sb'
     \<and> sb_pending sb = sb_pending sb' \<union> {next_off..<next_off + n}
     \<and> sb_unsent_off sb \<le> sb_unsent_off sb' \<and> (0 < n \<longrightarrow> next_off + n \<le> sb_unsent_off sb')
     \<and> sb' = sb\<lparr>sb_pos := sb_pos sb', sb_retransmits := sb_retransmits sb', sb_unsent_off := sb_unsent_off sb'\<rparr>"

lemma read_ok_refl: "sb_inv S sb \<Longrightarrow> next_off \<le> length S \<Longrightarrow> read_ok S next_off 0 sb sb"
  by (simp add: read_ok_def)

lemma read_ok_trans:
  assumes "read_ok S a n sb sb'" "read_ok S (a + n) k sb' sb''"
  shows "read_ok S a (n + k) sb sb''"
proof -
  have "sb' = sb\<lparr>sb_pos := sb_pos sb', sb_retransmits := sb_retransmits sb', sb_unsent_off := sb_unsent_off sb'\<rparr>"
    "sb'' = sb'\<lparr>sb_pos := sb_pos sb'', sb_retransmits := sb_retransmits sb'', sb_unsent_off := sb_unsent_off sb''\<rparr>"
    using assms by (simp_all add: read_ok_def)
  then have eq: "sb'' = sb\<lparr>sb_pos := sb_pos sb'', sb_retransmits := sb_retransmits sb'', sb_unsent_off := sb_unsent_off sb''\<rparr>"
    by (cases sb, cases sb', cases sb'') simp
  have "{a..<a + n} \<union> {a + n..<a + n + k} = {a..<a + (n + k)}" by auto
  then have "sb_pending sb = sb_pending sb'' \<union> {a..<a + (n + k)}"
    using assms by (auto simp: read_ok_def)
  moreover have "0 < n + k \<longrightarrow> a + (n + k) \<le> sb_unsent_off sb''"
    using assms by (cases "k = 0") (auto simp: read_ok_def)
  ultimately show ?thesis using assms eq unfolding read_ok_def by (metis add.assoc order_trans)
qed

text \<open>One round of the loop: a range is taken and its bytes are copied.\<close>

lemma send_round:
  assumes inv: "sb_inv S sb" and cap: "0 < cap" and lt: "sb_send_off sb < sb_write_off sb"
    and room: "length out + cap \<le> room"
  obtains e sb1 sb2 where "poll_transmit cap sb = ((sb_send_off sb, e), sb1)"
    "copy_range room (sb_send_off sb) e out sb1 = Some (out @ segm (sb_send_off sb) e S, sb2)"
    "sb_send_off sb < e" "e \<le> sb_send_off sb + cap" "read_ok S (sb_send_off sb) (e - sb_send_off sb) sb sb2"
proof -
  note i = sb_invD [OF inv]
  from poll_transmit_ok [OF inv cap lt] obtain e sb1
    where pt: "poll_transmit cap sb = ((sb_send_off sb, e), sb1)" "poll_ok cap sb e sb1" .
  from pt(2) have p: "sb_send_off sb < e" "e \<le> sb_send_off sb + cap" "e \<le> sb_write_off sb"
    "sb1 = sb\<lparr>sb_retransmits := sb_retransmits sb1, sb_unsent_off := sb_unsent_off sb1\<rparr>"
    "sb_sets sb1" "sb_unsent_off sb \<le> sb_unsent_off sb1" "sb_unsent_off sb1 \<le> sb_write_off sb"
    "e \<le> sb_send_off sb1" "e \<le> sb_unsent_off sb1" "sb_pending sb = sb_pending sb1 \<union> {sb_send_off sb..<e}"
    unfolding poll_ok_def by blast+
  from p(4) obtain R u where sb1: "sb1 = sb\<lparr>sb_retransmits := R, sb_unsent_off := u\<rparr>" by blast
  have same: "sb_data sb1 = sb_data sb" "sb_pos sb1 = sb_pos sb" "sb_base sb1 = sb_base sb"
    "sb_write_off sb1 = sb_write_off sb" "sb_max_data sb1 = sb_max_data sb" "sb_unacked_len sb1 = sb_unacked_len sb"
    by (simp_all add: sb1)
  have bnd: "length S = sb_write_off sb" "sb_write_off sb < u64_mod" "sb_base sb \<le> sb_send_off sb"
    using i(1) send_off_bounds(1) [OF i(3)] by (auto simp: sb_bounds_def)
  have "\<exists>q. copy_range room (sb_send_off sb) e out sb1 = Some (out @ segm (sb_send_off sb) e S, sb1\<lparr>sb_pos := q\<rparr>)
      \<and> passed e q (sb_data sb1)"
    using i(2,4) bnd p(1-3) same room by (intro copy_range_ok [of "sb_base sb"]) auto
  then obtain q where q: "copy_range room (sb_send_off sb) e out sb1 = Some (out @ segm (sb_send_off sb) e S, sb1\<lparr>sb_pos := q\<rparr>)"
    "passed e q (sb_data sb)" using same(1) by auto
  let ?sb2 = "sb1\<lparr>sb_pos := q\<rparr>"
  have inv2: "sb_inv S ?sb2"
  proof -
    have "sb_bounds S ?sb2" using i(1) p(6,7) same by (auto simp: sb_bounds_def)
    moreover have "sb_sets ?sb2" using p(5) by (simp add: sb_sets_def)
    moreover have "passed (sb_send_off ?sb2) q (sb_data sb)" using passed_mono [OF q(2) p(8)] by simp
    ultimately show ?thesis using i(2) same by (simp add: sb_inv_def)
  qed
  have eq: "?sb2 = sb\<lparr>sb_pos := q, sb_retransmits := sb_retransmits sb1, sb_unsent_off := sb_unsent_off sb1\<rparr>"
    by (simp add: sb1)
  have "sb_pending ?sb2 = sb_pending sb1" by (simp add: sb_pending_def)
  then have "read_ok S (sb_send_off sb) (e - sb_send_off sb) sb ?sb2"
    using p(1,3,6,9,10) bnd(1) inv2 eq unfolding read_ok_def by simp
  with pt(1) q(1) p(1,2) show thesis by (rule that)
qed

lemma send_loop_ok:
  "sb_inv S sb \<Longrightarrow> next_off \<le> length S \<Longrightarrow> length out + cap \<le> room \<Longrightarrow>
   \<exists>n sb'. send_loop room cap next_off out sb = Some (cap - n, next_off + n, out @ segm next_off (next_off + n) S, sb')
     \<and> n \<le> cap \<and> read_ok S next_off n sb sb'
     \<and> (0 < cap \<and> sb_send_off sb = next_off \<and> next_off < sb_write_off sb \<longrightarrow> 0 < n)"
proof (induction cap arbitrary: next_off out sb rule: less_induct)
  case (less cap)
  have bnd: "length S = sb_write_off sb" "sb_write_off sb \<le> sb_max_data sb" "sb_write_off sb < u64_mod"
    using sb_invD(1) [OF less.prems(1)] by (auto simp: sb_bounds_def)
  show ?case
  proof (cases "0 < cap \<and> sb_send_off sb < sb_write_off sb \<and> sb_send_off sb = next_off")
    case False
    then have "send_loop room cap next_off out sb = Some (cap, next_off, out, sb)"
      by (subst send_loop.simps) (auto simp: sb_ready_iff [OF less.prems(1)])
    with False read_ok_refl [OF less.prems(1,2)] show ?thesis
      by (intro exI [of _ 0] exI [of _ sb]) auto
  next
    case True
    from send_round [OF less.prems(1), of cap out room] True less.prems(3) obtain e sb1 sb2
      where r: "poll_transmit cap sb = ((next_off, e), sb1)"
        "copy_range room next_off e out sb1 = Some (out @ segm next_off e S, sb2)"
        "next_off < e" "e \<le> next_off + cap" "read_ok S next_off (e - next_off) sb sb2" by metis
    have e: "e \<le> length S" "next_off + (e - next_off) = e" using r(3,5) by (auto simp: read_ok_def)
    have step: "send_loop room cap next_off out sb = send_loop room (cap - (e - next_off)) e (out @ segm next_off e S) sb2"
      using True bnd r(1-4) e by (subst send_loop.simps)
        (simp add: sb_ready_iff [OF less.prems(1)] sub64_nowrap add64_nowrap)
    have small: "cap - (e - next_off) < cap" and inv2: "sb_inv S sb2" using True r(3,5) by (auto simp: read_ok_def)
    have room2: "length (out @ segm next_off e S) + (cap - (e - next_off)) \<le> room" using r(3,4) e(1) less.prems(3) by simp
    from less.IH [OF small inv2 e(1) room2]
    obtain n sb' where n: "send_loop room (cap - (e - next_off)) e (out @ segm next_off e S) sb2
        = Some (cap - (e - next_off) - n, e + n, (out @ segm next_off e S) @ segm e (e + n) S, sb')"
      "n \<le> cap - (e - next_off)" "read_ok S e n sb2 sb'" by blast
    have ro: "read_ok S next_off (e - next_off + n) sb sb'"
      using read_ok_trans [OF r(5)] n(3) e(2) by simp
    have sg: "segm next_off e S @ segm e (e + n) S = segm next_off (e + n) S"
      using r(3) by (simp add: segm_append_adjacent)
    have "next_off + (e - next_off + n) = e + n" "cap - (e - next_off + n) = cap - (e - next_off) - n"
      "e - next_off + n \<le> cap" "0 < e - next_off + n" using r(3,4) n(2) by simp_all
    with step n(1) ro show ?thesis
      by (intro exI [of _ "e - next_off + n"] exI [of _ sb']) (simp only: append_assoc sg simp_thms)
  qed
qed

lemma sb_read_ok:
  assumes inv: "sb_inv S sb"
  obtains n sb' where
    "sb_read cap sb = Some (sb', segm (sb_send_off sb) (sb_send_off sb + n) S, n,
       sb_fin_off sb = Some (sb_send_off sb + n))"
    "n \<le> cap" "read_ok S (sb_send_off sb) n sb sb'"
    "0 < cap \<Longrightarrow> sb_send_off sb < sb_write_off sb \<Longrightarrow> 0 < n"
proof -
  note i = sb_invD [OF inv]
  have "sb_send_off sb \<le> length S"
    using i(1) send_off_bounds(2) [OF i(3)] by (simp add: sb_bounds_def)
  from send_loop_ok [OF inv this, of "[]" cap cap] obtain n sb'
    where n: "send_loop cap cap (sb_send_off sb) [] sb
        = Some (cap - n, sb_send_off sb + n, segm (sb_send_off sb) (sb_send_off sb + n) S, sb')"
      "n \<le> cap" "read_ok S (sb_send_off sb) n sb sb'"
      "0 < cap \<and> sb_send_off sb < sb_write_off sb \<longrightarrow> 0 < n" by auto
  from n(3) obtain p R u where "sb' = sb\<lparr>sb_pos := p, sb_retransmits := R, sb_unsent_off := u\<rparr>"
    unfolding read_ok_def by blast
  then have "sb_fin_off sb' = sb_fin_off sb" by simp
  moreover have "sub64 cap (cap - n) = n" using n(2) by (simp add: sub64_nowrap)
  ultimately show thesis using n by (intro that [of sb' n]) (simp_all add: sb_read_def)
qed

subsection \<open>Writing\<close>

lemma sb_append_inv:
  assumes inv: "sb_inv S sb" and fit: "sb_write_off sb + length d \<le> sb_max_data sb"
    and segs: "segs_ok (sb_base sb) (S @ d) (sb_data sb @ bufs)"
  shows "sb_inv (S @ d) (sb\<lparr>sb_write_off := length S + length d, sb_data := sb_data sb @ bufs,
           sb_unacked_len := sb_unacked_len sb + length d, sb_fin_off := f\<rparr>)" (is "sb_inv _ ?sb")
proof -
  note i = sb_invD [OF inv]
  have b: "length S = sb_write_off sb" "sb_unacked_len sb \<le> sb_write_off sb" using i(1) by (simp_all add: sb_bounds_def)
  then have base: "sb_base ?sb = sb_base sb" by (simp add: sb_base_def)
  have so: "sb_send_off ?sb = sb_send_off sb" by (simp add: sb_send_off_def split: option.split)
  have "sb_bounds (S @ d) ?sb" using i(1) fit base by (simp add: sb_bounds_def)
  moreover have "sb_sets ?sb" using i(3) base by (simp add: sb_sets_def)
  moreover have "passed (sb_send_off ?sb) (sb_pos ?sb) (sb_data ?sb)"
    using i(4) so by (simp add: passed_def)
  ultimately show ?thesis using segs base by (simp add: sb_inv_def)
qed

definition write_refused :: "usize \<Rightarrow> bool \<Rightarrow> send_buf \<Rightarrow> bool" where
  "write_refused n fin sb \<longleftrightarrow>
     (case sb_fin_off sb of
        Some fin_off \<Rightarrow> sb_write_off sb + n > fin_off
          \<or> (sb_write_off sb + n = fin_off \<and> \<not> (fin \<and> sb_write_off sb + n \<le> sb_max_data sb))
      | None \<Rightarrow> False)"

lemma sb_write_ok:
  fixes data fin sb
  defines "n \<equiv> min (length data) (sb_max_data sb - sb_write_off sb)"
  assumes inv: "sb_inv S sb" and live: "sb_error sb = None" and wrap: "sb_write_off sb + length data < u64_mod"
  shows "write_refused (length data) fin sb \<Longrightarrow> sb_write data fin sb = (sb, Inl (Err FinalSizeError))"
    "\<not> write_refused (length data) fin sb \<Longrightarrow>
     \<exists>sb'. sb_write data fin sb = (sb', Inr n) \<and> sb_inv (S @ take n data) sb'
       \<and> sb_fin_off sb' = (if fin \<and> n = length data then Some (sb_write_off sb + n) else sb_fin_off sb)
       \<and> sb' = sb\<lparr>sb_write_off := sb_write_off sb', sb_data := sb_data sb', sb_unacked_len := sb_unacked_len sb',
                  sb_fin_off := sb_fin_off sb'\<rparr>"
proof -
  note i = sb_invD [OF inv]
  have b: "length S = sb_write_off sb" "sb_write_off sb \<le> sb_max_data sb" "sb_max_data sb < u64_mod"
    "sb_unacked_len sb \<le> sb_write_off sb" using i(1) by (auto simp: sb_bounds_def)
  have cap: "sb_capacity sb = Inr (sb_max_data sb - sb_write_off sb)"
    using live b(2) by (simp add: sb_capacity_def sub64_nowrap)
  have mo: "add64 (sb_write_off sb) (length data) = sb_write_off sb + length data"
    using wrap by (simp add: add64_nowrap)
  let ?k = "sb_max_data sb - sb_write_off sb"
  have tk: "(if length data > ?k then take ?k data else data) = take n data"
    by (auto simp: n_def min_def)
  have fin: "(if length data > ?k then False else fin) \<longleftrightarrow> fin \<and> n = length data"
    by (auto simp: n_def min_def)
  have ref: "(case sb_fin_off sb of
        Some fin_off \<Rightarrow> sb_write_off sb + length data > fin_off
          \<or> (sb_write_off sb + length data = fin_off \<and> \<not> (fin \<and> n = length data))
      | None \<Rightarrow> False) \<longleftrightarrow> write_refused (length data) fin sb"
    using b(2) by (auto simp: write_refused_def n_def min_def split: option.split)
  define sb1 where "sb1 = (if fin \<and> n = length data then sb\<lparr>sb_fin_off := Some (sb_write_off sb + length data)\<rparr> else sb)"
  have wr: "sb_write data fin sb =
     (if write_refused (length data) fin sb then (sb, Inl (Err FinalSizeError))
      else if take n data = [] then (sb1, Inr 0)
      else let sb2 = push_chunks (take n data) (fin \<and> n = length data) 0 (length (take n data)) sb1
           in (sb2\<lparr>sb_unacked_len := add64 (sb_unacked_len sb2) (length (take n data))\<rparr>, Inr (length (take n data))))"
    unfolding sb_write_def Let_def cap sum.case mo tk fin ref sb1_def ..
  show "write_refused (length data) fin sb \<Longrightarrow> sb_write data fin sb = (sb, Inl (Err FinalSizeError))"
    by (simp add: wr)
  assume nr: "\<not> write_refused (length data) fin sb"
  define f where "f = sb_fin_off sb1"
  have sb1: "sb1 = sb\<lparr>sb_fin_off := f\<rparr>"
    "f = (if fin \<and> n = length data then Some (sb_write_off sb + n) else sb_fin_off sb)"
    by (auto simp: sb1_def f_def)
  define d where "d = take n data"
  have d: "length d = n" "sb_write_off sb + length d \<le> sb_max_data sb" using b(2) by (auto simp: d_def n_def)
  have "\<exists>bufs. push_chunks d (fin \<and> n = length data) 0 n sb1
      = sb1\<lparr>sb_write_off := length S + length d, sb_data := sb_data sb1 @ bufs\<rparr>
      \<and> segs_ok (sb_base sb) (S @ d) (sb_data sb1 @ bufs)"
    using i(2) b d by (intro push_chunks_ok) (simp_all add: sb1(1))
  then obtain bufs where bufs: "push_chunks d (fin \<and> n = length data) 0 n sb1
      = sb1\<lparr>sb_write_off := length S + length d, sb_data := sb_data sb @ bufs\<rparr>"
    "segs_ok (sb_base sb) (S @ d) (sb_data sb @ bufs)" by (auto simp: sb1(1))
  show "\<exists>sb'. sb_write data fin sb = (sb', Inr n) \<and> sb_inv (S @ take n data) sb'
       \<and> sb_fin_off sb' = (if fin \<and> n = length data then Some (sb_write_off sb + n) else sb_fin_off sb)
       \<and> sb' = sb\<lparr>sb_write_off := sb_write_off sb', sb_data := sb_data sb', sb_unacked_len := sb_unacked_len sb',
                  sb_fin_off := sb_fin_off sb'\<rparr>"
  proof (cases "d = []")
    case True
    have "sb_inv (S @ d) sb1"
      using sb_append_inv [OF inv d(2), of "[]" f] i(2) b(1) True by (simp add: sb1(1))
    then show ?thesis using nr True d(1)
      by (intro exI [of _ sb1]) (simp add: wr d_def [symmetric] sb1)
  next
    case False
    let ?sb = "sb\<lparr>sb_write_off := length S + length d, sb_data := sb_data sb @ bufs,
           sb_unacked_len := sb_unacked_len sb + length d, sb_fin_off := f\<rparr>"
    have "add64 (sb_unacked_len sb) n = sb_unacked_len sb + n" using b d by (simp add: add64_nowrap)
    then have "sb_write data fin sb = (?sb, Inr n)"
      using nr False d(1) bufs(1) by (simp add: wr d_def [symmetric] Let_def sb1(1))
    with sb_append_inv [OF inv d(2) bufs(2), of f] sb1(2) show ?thesis
      by (intro exI [of _ ?sb]) (simp add: d_def [symmetric])
  qed
qed

subsection \<open>Acknowledgements\<close>

lemma ack_off_spec:
  assumes "rs_inv (sb_acked sb)"
  shows "{..<sb_ack_off sb} \<subseteq> rs_nums (sb_acked sb)" "sb_ack_off sb \<notin> rs_nums (sb_acked sb)"
proof -
  have wf: "rs_wf (rs_set (sb_acked sb))" using assms by (simp add: rs_inv_def)
  show "{..<sb_ack_off sb} \<subseteq> rs_nums (sb_acked sb)"
    by (cases "rs_set (sb_acked sb)") (auto simp: sb_ack_off_def rs_elems_Cons split: if_splits)
  show "sb_ack_off sb \<notin> rs_nums (sb_acked sb)"
  proof (cases "rs_set (sb_acked sb)")
    case (Cons r m)
    obtain a b where r: "r = (a, b)" by (cases r)
    have "b \<notin> rs_nums (sb_acked sb)" using rs_end_notin [OF wf, of r] Cons r by simp
    moreover have "0 \<notin> rs_nums (sb_acked sb)" if "a \<noteq> 0"
      using that wf Cons r by (auto simp: rs_wf_Cons rs_elems_def)
    ultimately show ?thesis using Cons r by (cases "a = 0") (simp_all add: sb_ack_off_def)
  qed (simp add: sb_ack_off_def)
qed

text \<open>The base is the only number that bounds the acknowledged prefix.\<close>

lemma ack_off_base: "sb_sets sb \<Longrightarrow> sb_ack_off sb = sb_base sb"
proof -
  assume s: "sb_sets sb"
  then have "rs_inv (sb_acked sb)" "{..<sb_base sb} \<subseteq> rs_nums (sb_acked sb)" "sb_base sb \<notin> rs_nums (sb_acked sb)"
    by (simp_all add: sb_sets_def)
  with ack_off_spec [of sb] show ?thesis by (meson lessThan_iff linorder_neqE_nat subsetD)
qed

lemma drop_loop_ok:
  "segs_ok lo S bs \<Longrightarrow> lo + n \<le> length S \<Longrightarrow> length S < u64_mod \<Longrightarrow>
   \<exists>bs' k. drop_loop n bs d = Some (bs', d + k) \<and> segs_ok (lo + n) S bs' \<and> k \<le> length bs
     \<and> map rb_end bs' = drop k (map rb_end bs)"
proof (induction bs arbitrary: lo n d)
  case (Cons b bs)
  note b = segs_ok_ConsD [OF Cons.prems(1)]
  have len: "rb_len b = rb_end b - lo" using b(1) by (simp add: rb_len_def rb_end_def)
  consider "n = 0" | "0 < n" "rb_len b \<le> n" | "0 < n" "n < rb_len b" by linarith
  then show ?case
  proof cases
    case 1
    then show ?thesis using Cons.prems(1) by (intro exI [of _ "b # bs"] exI [of _ 0]) simp
  next
    case 2
    have "rb_end b + (n - rb_len b) = lo + n" using len 2 b(5) by simp
    with Cons.IH [OF b(4), of "n - rb_len b" "d + 1"] Cons.prems(2,3) obtain bs' k
      where k: "drop_loop (n - rb_len b) bs (d + 1) = Some (bs', d + 1 + k)" "segs_ok (lo + n) S bs'"
        "k \<le> length bs" "map rb_end bs' = drop k (map rb_end bs)" by auto
    with 2 show ?thesis by (intro exI [of _ bs'] exI [of _ "Suc k"]) simp
  next
    case 3
    have ok: "rb_ok b" using b(2) Cons.prems(3) by (simp add: rb_ok_def rb_end_def)
    have nl: "n \<le> length (rb_data b)" using 3 by (simp add: rb_len_def)
    from rb_advance_spec [OF ok nl] obtain b' where b': "rb_advance n b = Some b'"
      "rb_off b' = rb_off b + n" "rb_end b' = rb_end b" "rb_data b' = drop n (rb_data b)" by metis
    have data: "rb_data b' = segm (lo + n) (rb_end b) S" by (simp only: b'(4) b(3) drop_segm)
    have ne: "rb_data b' \<noteq> []" using b'(4) 3 by (simp add: rb_len_def)
    have "segs_ok (lo + n) S (b' # bs)"
      unfolding segs_ok.simps b'(2,3) b(1) using b(2,4) data ne by simp
    then show ?thesis using 3 b' by (intro exI [of _ "b' # bs"] exI [of _ 0]) simp
  qed
qed simp

lemma passed_drop:
  assumes "passed x p bs" "k \<le> length bs" "map rb_end bs' = drop k (map rb_end bs)"
  shows "passed x (p - k) bs'"
proof -
  have len: "length bs' = length bs - k" using arg_cong [OF assms(3), of length] by simp
  have "rb_end ` set (take (p - k) bs') = set (take (p - k) (drop k (map rb_end bs)))"
    using assms(3) by (metis list.set_map take_map)
  also have "\<dots> \<subseteq> set (take p (map rb_end bs))"
    by (cases "k \<le> p") (auto simp: take_drop dest: in_set_dropD)
  also have "\<dots> = rb_end ` set (take p bs)" by (metis list.set_map take_map)
  finally show ?thesis using assms(1) len by (auto simp: passed_def)
qed

lemma send_off_mono:
  assumes "sb_sets sb" "sb_base sb \<le> sb_unsent_off sb" "rs_inv R" "rs_nums R \<subseteq> rs_nums (sb_retransmits sb)"
    "sb_retransmits sb' = R" "sb_unsent_off sb' = sb_unsent_off sb"
  shows "sb_send_off sb \<le> sb_send_off sb'"
proof -
  have inv: "rs_inv (sb_retransmits sb)" using assms(1) by (simp add: sb_sets_def)
  have "sb_send_off sb \<le> x" if "x \<in> rs_nums R" for x
    using that assms(4) by (auto simp: send_off_eq [OF inv])
  then show ?thesis using assms(3,5,6) send_off_bounds(2) [OF assms(1,2)] by (intro send_off_ge) auto
qed

definition ack_ok :: "nat \<Rightarrow> nat \<Rightarrow> send_buf \<Rightarrow> send_buf \<Rightarrow> bool" where
  "ack_ok off len sb sb' \<longleftrightarrow> rs_nums (sb_acked sb') = rs_nums (sb_acked sb) \<union> {off..<off + len}
     \<and> rs_nums (sb_retransmits sb') = rs_nums (sb_retransmits sb) - {off..<off + len}
     \<and> sb' = sb\<lparr>sb_acked := sb_acked sb', sb_retransmits := sb_retransmits sb', sb_data := sb_data sb',
                sb_unacked_len := sb_unacked_len sb', sb_pos := sb_pos sb'\<rparr>"

text \<open>Nothing is left in the buffer exactly when everything written is acknowledged.\<close>

lemma sb_data_Nil_iff:
  assumes "sb_inv S sb"
  shows "sb_data sb = [] \<longleftrightarrow> rs_nums (sb_acked sb) = {..<sb_write_off sb}"
proof -
  note i = sb_invD [OF assms]
  have b: "length S = sb_write_off sb" "sb_unsent_off sb \<le> sb_write_off sb" "sb_base sb \<le> sb_unsent_off sb"
    using i(1) by (auto simp: sb_bounds_def)
  have s: "rs_nums (sb_acked sb) \<subseteq> {..<sb_unsent_off sb}" "{..<sb_base sb} \<subseteq> rs_nums (sb_acked sb)"
    "sb_base sb \<notin> rs_nums (sb_acked sb)" using i(3) by (simp_all add: sb_sets_def)
  show ?thesis unfolding segs_ok_Nil_iff [OF i(2)] b(1)
  proof
    assume "sb_base sb = sb_write_off sb"
    then show "rs_nums (sb_acked sb) = {..<sb_write_off sb}" using s(1,2) b(2) by fastforce
  next
    assume "rs_nums (sb_acked sb) = {..<sb_write_off sb}"
    then show "sb_base sb = sb_write_off sb" using s(3) b by auto
  qed
qed

lemma ack_sets:
  assumes inv: "sb_inv S sb" and le: "off + len \<le> sb_unsent_off sb"
  shows "rs_inv (rs_insert (sb_acked sb) (off, off + len))" "rs_inv (rs_remove (sb_retransmits sb) (off, off + len))"
    "rs_nums (rs_insert (sb_acked sb) (off, off + len)) = rs_nums (sb_acked sb) \<union> {off..<off + len}"
    "rs_nums (rs_remove (sb_retransmits sb) (off, off + len)) = rs_nums (sb_retransmits sb) - {off..<off + len}"
    "off + len < u64_mod"
proof -
  note i = sb_invD [OF inv]
  show lt: "off + len < u64_mod" using le i(1) by (auto simp: sb_bounds_def)
  have "rs_inv (sb_acked sb)" "rs_inv (sb_retransmits sb)" using i(3) by (simp_all add: sb_sets_def)
  then show "rs_inv (rs_insert (sb_acked sb) (off, off + len))" "rs_inv (rs_remove (sb_retransmits sb) (off, off + len))"
    "rs_nums (rs_insert (sb_acked sb) (off, off + len)) = rs_nums (sb_acked sb) \<union> {off..<off + len}"
    "rs_nums (rs_remove (sb_retransmits sb) (off, off + len)) = rs_nums (sb_retransmits sb) - {off..<off + len}"
    using lt by (simp_all add: urs.laws)
qed

lemma ack_inv:
  assumes inv: "sb_inv S sb" and le: "off + len \<le> sb_unsent_off sb"
    and A: "rs_inv A" "rs_nums A = rs_nums (sb_acked sb) \<union> {off..<off + len}"
    and R: "rs_inv R" "rs_nums R = rs_nums (sb_retransmits sb) - {off..<off + len}"
    and u: "u \<le> sb_write_off sb" and base: "{..<sb_write_off sb - u} \<subseteq> rs_nums A" "sb_write_off sb - u \<notin> rs_nums A"
    and bs: "segs_ok (sb_write_off sb - u) S bs" and p: "passed (sb_send_off sb) p bs"
  shows "sb_inv S (sb\<lparr>sb_acked := A, sb_retransmits := R, sb_unacked_len := u, sb_data := bs, sb_pos := p\<rparr>)" (is "sb_inv S ?sb")
proof -
  note i = sb_invD [OF inv]
  have b: "sb_base ?sb = sb_write_off sb - u" by (simp add: sb_base_def)
  have Asub: "rs_nums A \<subseteq> {..<sb_unsent_off sb}" using i(3) le A(2) by (auto simp: sb_sets_def)
  have bu: "sb_base ?sb \<le> sb_unsent_off sb"
  proof (rule ccontr)
    assume "\<not> ?thesis"
    then have "sb_unsent_off sb \<in> rs_nums A" using base(1) b by auto
    with Asub show False by auto
  qed
  have dis: "rs_nums R \<inter> rs_nums A = {}" using i(3) A(2) R(2) by (auto simp: sb_sets_def)
  have "rs_nums R \<subseteq> {..<sb_unsent_off sb}" using i(3) R(2) by (auto simp: sb_sets_def)
  moreover have "sb_base ?sb \<le> x" if "x \<in> rs_nums R" for x
  proof (rule ccontr)
    assume "\<not> ?thesis"
    then have "x \<in> rs_nums A" using base(1) b by auto
    with that dis show False by auto
  qed
  ultimately have "rs_nums R \<subseteq> {sb_base ?sb..<sb_unsent_off sb}" by auto
  then have sets: "sb_sets ?sb" using A(1) R(1) Asub dis base b by (simp add: sb_sets_def)
  have "sb_base sb \<le> sb_unsent_off sb" using i(1) by (simp add: sb_bounds_def)
  then have "sb_send_off sb \<le> sb_send_off ?sb"
    using R by (intro send_off_mono [OF i(3)]) auto
  then have "passed (sb_send_off ?sb) p bs" using passed_mono [OF p] by blast
  moreover have "sb_bounds S ?sb" using i(1) bu u by (simp add: sb_bounds_def)
  ultimately show ?thesis using sets bs b by (simp add: sb_inv_def)
qed

lemma sb_ack_and_drop_eq:
  assumes "sb_data sb \<noteq> []" "add64 off len = e"
  shows "sb_ack_and_drop off len sb =
    (let A = rs_insert (sb_acked sb) (off, e);
         R = rs_remove (sb_retransmits sb) (off, e);
         ack_off = sb_ack_off (sb\<lparr>sb_acked := A, sb_retransmits := R\<rparr>);
         adv = sub64 ack_off (sub64 (sb_write_off sb) (sb_unacked_len sb))
     in if off > ack_off then Some (sb\<lparr>sb_acked := A, sb_retransmits := R\<rparr>)
        else (case drop_loop adv (sb_data sb) 0 of
                None \<Rightarrow> None
              | Some (bs, k) \<Rightarrow> Some (sb\<lparr>sb_acked := A, sb_retransmits := R,
                  sb_unacked_len := sub64 (sb_unacked_len sb) adv, sb_data := bs, sb_pos := sb_pos sb - k\<rparr>)))"
proof -
  have off: "sb_ack_off (sb\<lparr>sb_acked := A, sb_retransmits := R\<rparr>) = sb_ack_off (sb\<lparr>sb_acked := A\<rparr>)" for A R
    by (simp add: sb_ack_off_def)
  show ?thesis using assms
    by (simp add: sb_ack_and_drop_def sb_ack_def Let_def off split: option.split)
qed

lemma sb_ack_and_drop_ok:
  assumes inv: "sb_inv S sb" and le: "off + len \<le> sb_unsent_off sb"
  shows "\<exists>sb'. sb_ack_and_drop off len sb = Some sb' \<and> sb_inv S sb' \<and> ack_ok off len sb sb'"
proof -
  note i = sb_invD [OF inv]
  have b: "length S = sb_write_off sb" "sb_unsent_off sb \<le> sb_write_off sb" "sb_write_off sb < u64_mod"
    "sb_unacked_len sb \<le> sb_write_off sb" "sb_base sb = sb_write_off sb - sb_unacked_len sb"
    using i(1) by (auto simp: sb_bounds_def sb_base_def)
  have s: "rs_nums (sb_retransmits sb) \<subseteq> {sb_base sb..<sb_unsent_off sb}" "{..<sb_base sb} \<subseteq> rs_nums (sb_acked sb)"
    "sb_base sb \<notin> rs_nums (sb_acked sb)" using i(3) by (simp_all add: sb_sets_def)
  show ?thesis
  proof (cases "sb_data sb = []")
    case True
    then have all: "sb_base sb = sb_write_off sb" "rs_nums (sb_acked sb) = {..<sb_write_off sb}"
      using segs_ok_Nil_iff [OF i(2)] b(1) sb_data_Nil_iff [OF inv] by auto
    have emp: "rs_nums (sb_retransmits sb) = {}" using s(1) all(1) b(2) by auto
    then have "rs_set (sb_retransmits sb) = []" using i(3) by (simp add: sb_sets_def rs_inv_def rs_elems_empty_iff)
    then have "rs_clear (sb_retransmits sb) = sb_retransmits sb" by (simp add: rs_clear_def)
    moreover have "ack_ok off len sb sb" using all(2) emp le b(2) by (auto simp: ack_ok_def)
    ultimately show ?thesis using True inv by (auto simp: sb_ack_and_drop_def)
  next
    case False
    define A where "A = rs_insert (sb_acked sb) (off, off + len)"
    define R where "R = rs_remove (sb_retransmits sb) (off, off + len)"
    note ar = ack_sets [OF inv le, folded A_def R_def]
    define sb2 where "sb2 = sb\<lparr>sb_acked := A, sb_retransmits := R\<rparr>"
    define ao where "ao = sb_ack_off sb2"
    have ao: "{..<ao} \<subseteq> rs_nums A" "ao \<notin> rs_nums A"
      using ack_off_spec [of sb2] ar(1) by (simp_all add: ao_def sb2_def)
    have ge: "sb_base sb \<le> ao"
    proof (rule ccontr)
      assume "\<not> ?thesis"
      then have "ao \<in> rs_nums (sb_acked sb)" using s(2) by auto
      with ao(2) show False unfolding ar(3) by blast
    qed
    have add: "add64 off len = off + len" using ar(5) by (simp add: add64_nowrap)
    show ?thesis
    proof (cases "off > ao")
      case True
      have "sb_ack_and_drop off len sb = Some sb2"
        unfolding sb_ack_and_drop_eq [OF False add] Let_def A_def [symmetric] R_def [symmetric] sb2_def [symmetric] ao_def [symmetric]
        using True by simp
      moreover have "sb_base sb \<notin> rs_nums A" using ge True s(3) ar(3) by simp
      then have "sb_inv S sb2"
        using ack_inv [OF inv le ar(1,3,2,4) b(4), of "sb_data sb" "sb_pos sb"] i(2,4) s(2) ar(3) b(5)
        by (auto simp: sb2_def)
      ultimately show ?thesis using ar(3,4) by (auto simp: ack_ok_def sb2_def)
    next
      case notgt: False
      define adv where "adv = ao - sb_base sb"
      have aw: "ao \<le> sb_write_off sb"
      proof (rule ccontr)
        assume "\<not> ?thesis"
        then have "sb_write_off sb \<in> rs_nums A" using ao(1) by auto
        then show False using ar(3) i(3) le b(2) by (auto simp: sb_sets_def)
      qed
      have adv: "sb_base sb + adv = ao" "adv \<le> sb_unacked_len sb" using ge aw b(4,5) by (auto simp: adv_def)
      from drop_loop_ok [OF i(2), of adv 0] adv(1) aw b obtain bs k
        where k: "drop_loop adv (sb_data sb) 0 = Some (bs, k)" "segs_ok ao S bs" "k \<le> length (sb_data sb)"
          "map rb_end bs = drop k (map rb_end (sb_data sb))" by auto
      let ?sb = "sb\<lparr>sb_acked := A, sb_retransmits := R, sb_unacked_len := sb_unacked_len sb - adv,
        sb_data := bs, sb_pos := sb_pos sb - k\<rparr>"
      have subs: "sub64 (sb_write_off sb) (sb_unacked_len sb) = sb_base sb" "sub64 ao (sb_base sb) = adv"
        "sub64 (sb_unacked_len sb) adv = sb_unacked_len sb - adv"
        using b(4,5) ge adv(2) by (simp_all add: sub64_nowrap adv_def)
      have "sb_ack_and_drop off len sb = Some ?sb"
        unfolding sb_ack_and_drop_eq [OF False add] Let_def A_def [symmetric] R_def [symmetric] sb2_def [symmetric] ao_def [symmetric] subs k(1)
        using notgt by (simp add: sb2_def)
      moreover have "sb_write_off sb - (sb_unacked_len sb - adv) = ao" using b(4,5) adv by auto
      then have "sb_inv S ?sb"
        using ack_inv [OF inv le ar(1,3,2,4), of "sb_unacked_len sb - adv" bs "sb_pos sb - k"] ao k(2) b(4)
          passed_drop [OF i(4) k(3,4)] by simp
      ultimately show ?thesis using ar(3,4) by (intro exI [of _ ?sb]) (simp add: ack_ok_def)
    qed
  qed
qed

subsection \<open>Losses\<close>

text \<open>Exactly the part of the lost range that is not acknowledged is queued.\<close>

lemma lost_loop_ok:
  "rs_wf m \<Longrightarrow> rs_inv rtx \<Longrightarrow> start \<le> stop \<Longrightarrow> stop < u64_mod \<Longrightarrow>
   \<exists>s e rtx'. lost_loop m start stop rtx = (s, e, rtx') \<and> rs_inv rtx' \<and> e < u64_mod
     \<and> rs_nums rtx' \<union> {s..<e} = rs_nums rtx \<union> ({start..<stop} - rs_elems m)"
proof (induction m arbitrary: start rtx)
  case (Cons r m)
  obtain a b where r: "r = (a, b)" by (cases r)
  from Cons.prems(1) r have wf: "a < b" "b < u64_mod" "\<forall>c \<in> set m. b < fst c" "rs_wf m"
    by (auto simp: rs_wf_Cons)
  have above: "\<forall>x \<in> rs_elems m. b < x" using wf(3) by (force simp: rs_elems_def)
  have el: "rs_elems (r # m) = {a..<b} \<union> rs_elems m" using r by (simp add: rs_elems_Cons)
  consider (brk) "stop \<le> a" | (skip) "a < stop" "b \<le> start" | (cutR) "a < stop" "start < a" "stop \<le> b"
    | (split) "start < a" "b < stop" | (all) "a < stop" "a \<le> start" "start < b" "stop \<le> b"
    | (cutL) "a \<le> start" "start < b" "b < stop" using wf(1) by linarith
  then show ?case
  proof cases
    case brk
    then have "{start..<stop} - rs_elems (r # m) = {start..<stop}" using wf(1) above el by auto
    then show ?thesis using brk r Cons.prems by simp
  next
    case skip
    then have "lost_loop (r # m) start stop rtx = lost_loop m start stop rtx" using r by simp
    moreover have "{start..<stop} - rs_elems (r # m) = {start..<stop} - rs_elems m" using skip el by auto
    ultimately show ?thesis using Cons.IH [OF wf(4) Cons.prems(2-4)] by simp
  next
    case cutR
    then have "{start..<stop} - rs_elems (r # m) = {start..<a}" using above el by auto
    then show ?thesis using cutR r Cons.prems(2) wf by simp
  next
    case split
    let ?rtx = "rs_insert rtx (start, a)"
    have "a < u64_mod" using wf by simp
    with Cons.prems(2) have i: "rs_inv ?rtx" "rs_nums ?rtx = rs_nums rtx \<union> {start..<a}" by (simp_all add: urs.laws)
    have "lost_loop (r # m) start stop rtx = lost_loop m b stop ?rtx" using split r wf(1) by simp
    moreover have "{start..<stop} - rs_elems (r # m) = {start..<a} \<union> ({b..<stop} - rs_elems m)"
      using split wf(1) above el by auto
    ultimately show ?thesis using Cons.IH [OF wf(4) i(1), of b] split Cons.prems(4) i(2) by (simp add: Un_assoc)
  next
    case all
    then have "rs_nums rtx \<union> ({start..<stop} - rs_elems (r # m)) = rs_nums rtx" using el by auto
    moreover have "lost_loop (r # m) start stop rtx = (start, start, rtx)" using all r by simp
    ultimately show ?thesis using Cons.prems(2-4) by simp
  next
    case cutL
    then have "lost_loop (r # m) start stop rtx = lost_loop m b stop rtx" using r by simp
    moreover have "{start..<stop} - rs_elems (r # m) = {b..<stop} - rs_elems m" using cutL above el by auto
    ultimately show ?thesis using Cons.IH [OF wf(4) Cons.prems(2), of b] cutL Cons.prems(4) by simp
  qed
qed simp

end
