(* ===== verification/SendRun.thy ===== *)
theory SendRun
  imports SendStream
begin

text \<open>
  Losses, resets and whole runs of the send buffer of \<open>src/connection/stream.rs\<close>, and its properties.
\<close>

definition lost_ok :: "nat \<Rightarrow> nat \<Rightarrow> send_buf \<Rightarrow> send_buf \<Rightarrow> bool" where
  "lost_ok off len sb sb' \<longleftrightarrow>
     rs_nums (sb_retransmits sb') = rs_nums (sb_retransmits sb) \<union> ({off..<off + len} - rs_nums (sb_acked sb))
     \<and> sb' = sb\<lparr>sb_retransmits := sb_retransmits sb', sb_pos := sb_pos sb'\<rparr>"

lemma sb_retransmit_ok:
  assumes inv: "sb_inv S sb" and le: "off + len \<le> sb_unsent_off sb"
  shows "sb_inv S (sb_retransmit off len sb)" "lost_ok off len sb (sb_retransmit off len sb)"
proof -
  note i = sb_invD [OF inv]
  have b: "sb_unsent_off sb \<le> sb_write_off sb" "sb_write_off sb < u64_mod" "sb_base sb \<le> sb_unsent_off sb"
    using i(1) by (auto simp: sb_bounds_def)
  have s: "rs_inv (sb_acked sb)" "rs_inv (sb_retransmits sb)" "{..<sb_base sb} \<subseteq> rs_nums (sb_acked sb)"
    using i(3) by (simp_all add: sb_sets_def)
  have add: "add64 off len = off + len" using le b by (simp add: add64_nowrap)
  have ao: "sb_ack_off sb = sb_base sb" by (rule ack_off_base [OF i(3)])
  have "sb_inv S (sb_retransmit off len sb) \<and> lost_ok off len sb (sb_retransmit off len sb)"
  proof (cases "sb_data sb = [] \<or> off + len \<le> sb_base sb")
    case True
    then have "sb_retransmit off len sb = sb" by (auto simp: sb_retransmit_def Let_def add ao)
    moreover have "{off..<off + len} \<subseteq> rs_nums (sb_acked sb)"
    proof (cases "sb_data sb = []")
      case True
      then have "rs_nums (sb_acked sb) = {..<sb_write_off sb}" using sb_data_Nil_iff [OF inv] by simp
      moreover have "{off..<off + len} \<subseteq> {..<sb_write_off sb}" using le b(1) by auto
      ultimately show ?thesis by simp
    next
      case False
      with True have "{off..<off + len} \<subseteq> {..<sb_base sb}" by auto
      with s(3) show ?thesis by (rule order_trans [rotated])
    qed
    then have "lost_ok off len sb sb" unfolding lost_ok_def by auto
    ultimately show ?thesis using inv by simp
  next
    case False
    have "rs_wf (rs_set (sb_acked sb))" "off + len < u64_mod" using s(1) le b by (auto simp: rs_inv_def)
    from lost_loop_ok [OF this(1) s(2) le_add1 this(2)] obtain st e rtx
      where ll: "lost_loop (rs_set (sb_acked sb)) off (off + len) (sb_retransmits sb) = (st, e, rtx)"
        "rs_inv rtx" "e < u64_mod"
        "rs_nums rtx \<union> {st..<e} = rs_nums (sb_retransmits sb) \<union> ({off..<off + len} - rs_nums (sb_acked sb))"
      by blast
    define R where "R = rs_insert rtx (st, e)"
    have R: "rs_inv R" "rs_nums R = rs_nums (sb_retransmits sb) \<union> ({off..<off + len} - rs_nums (sb_acked sb))"
      using ll(2,3) by (simp_all only: R_def urs.laws ll(4))
    let ?sb1 = "sb\<lparr>sb_retransmits := R\<rparr>"
    define p where "p = (if sb_send_off ?sb1 < sb_send_off sb then 0 else sb_pos sb)"
    have rt: "sb_retransmit off len sb = ?sb1\<lparr>sb_pos := p\<rparr>"
      using False by (simp add: sb_retransmit_def Let_def add ao ll(1) R_def [symmetric] p_def)
    have "rs_nums R \<subseteq> {sb_base sb..<sb_unsent_off sb}"
    proof
      fix x assume "x \<in> rs_nums R"
      then consider "x \<in> rs_nums (sb_retransmits sb)" | "x < off + len" "x \<notin> rs_nums (sb_acked sb)" using R(2) by auto
      then show "x \<in> {sb_base sb..<sb_unsent_off sb}"
      proof cases
        case 1
        then show ?thesis using i(3) by (auto simp: sb_sets_def)
      next
        case 2
        then have "\<not> x < sb_base sb" using s(3) by blast
        with 2 le show ?thesis by simp
      qed
    qed
    moreover have "rs_nums (sb_retransmits sb) \<inter> rs_nums (sb_acked sb) = {}" using i(3) by (simp add: sb_sets_def)
    then have "rs_nums R \<inter> rs_nums (sb_acked sb) = {}" unfolding R(2) by blast
    ultimately have "sb_sets (?sb1\<lparr>sb_pos := p\<rparr>)" using i(3) R(1) by (simp add: sb_sets_def)
    moreover have "passed (sb_send_off ?sb1) p (sb_data sb)"
      using passed_mono [OF i(4), of "sb_send_off ?sb1"] by (auto simp: p_def passed_def)
    moreover have "sb_bounds S (?sb1\<lparr>sb_pos := p\<rparr>)" using i(1) by (simp add: sb_bounds_def)
    ultimately have "sb_inv S (?sb1\<lparr>sb_pos := p\<rparr>)" using i(2) by (simp add: sb_inv_def)
    then show ?thesis unfolding rt using R(2) by (simp add: lost_ok_def)
  qed
  then show "sb_inv S (sb_retransmit off len sb)" "lost_ok off len sb (sb_retransmit off len sb)" by blast+
qed

subsection \<open>Closing\<close>

text \<open>After a reset the buffer is empty, its end is what had been sent, and that counts as acknowledged.\<close>

definition sb_closed :: "send_buf \<Rightarrow> bool" where
  "sb_closed sb \<longleftrightarrow> sb_data sb = [] \<and> sb_fin_off sb = Some (sb_write_off sb) \<and> sb_unsent_off sb = sb_write_off sb
     \<and> sb_write_off sb \<le> sb_max_data sb \<and> sb_max_data sb < u64_mod \<and> rs_inv (sb_acked sb)
     \<and> rs_nums (sb_acked sb) = {..<sb_write_off sb}"

lemma sb_reset_closed:
  assumes "rs_inv (sb_acked sb)" "rs_nums (sb_acked sb) \<subseteq> {..<sb_unsent_off sb}"
    "sb_unsent_off sb \<le> sb_write_off sb" "sb_write_off sb \<le> sb_max_data sb" "sb_max_data sb < u64_mod"
  shows "\<exists>sb'. sb_reset sb = (sb', sb_unsent_off sb, sb_write_off sb - sb_unsent_off sb) \<and> sb_closed sb'
     \<and> sb_write_off sb' = sb_unsent_off sb \<and> sb_error sb' = sb_error sb \<and> sb_shut sb' = sb_shut sb"
proof -
  have u: "sb_unsent_off sb < u64_mod" using assms by simp
  have a: "rs_inv (rs_insert (sb_acked sb) (0, sb_unsent_off sb))"
    "rs_nums (rs_insert (sb_acked sb) (0, sb_unsent_off sb)) = {..<sb_unsent_off sb}"
    using assms(1,2) u by (auto simp: urs.laws)
  have "add64 0 (sb_unsent_off sb) = sb_unsent_off sb" using u by (simp add: add64_nowrap)
  then show ?thesis using a assms(3-5) by (simp add: sb_reset_def sb_ack_def Let_def sb_closed_def)
qed

lemma sb_closed_ops:
  assumes c: "sb_closed sb"
  shows "sb_ack_and_drop off len sb = Some (sb\<lparr>sb_retransmits := rs_clear (sb_retransmits sb)\<rparr>)"
    "sb_retransmit off len sb = sb"
    "sb_read cap sb = Some (sb, [], 0, sb_fin_off sb = Some (sb_send_off sb))"
proof -
  show "sb_ack_and_drop off len sb = Some (sb\<lparr>sb_retransmits := rs_clear (sb_retransmits sb)\<rparr>)"
    "sb_retransmit off len sb = sb"
    using c by (simp_all add: sb_closed_def sb_ack_and_drop_def sb_retransmit_def Let_def)
  have "send_loop cap cap (sb_send_off sb) [] sb = Some (cap, sb_send_off sb, [], sb)"
    using c by (subst send_loop.simps) (simp add: sb_closed_def sb_ready_def)
  then show "sb_read cap sb = Some (sb, [], 0, sb_fin_off sb = Some (sb_send_off sb))"
    by (simp add: sb_read_def)
qed

lemma sb_closed_write:
  assumes c: "sb_closed sb" and wrap: "sb_write_off sb + length data < u64_mod"
  shows "\<exists>r. sb_write data fin sb = (sb, r) \<and> (\<forall>n. r = Inr n \<longrightarrow> n = 0)"
proof (cases "sb_error sb")
  case None
  have "sb_write_off sb < u64_mod" using wrap by simp
  then show ?thesis using c wrap None
    by (cases data) (auto simp: sb_write_def sb_capacity_def sb_closed_def Let_def add64_nowrap sub64_nowrap)
qed (simp add: sb_write_def sb_capacity_def Let_def)

subsection \<open>Runs\<close>

datatype sb_op =
    SbWrite "byte list" bool
  | SbRead usize
  | SbAck u64 usize
  | SbLost u64 usize
  | SbMaxData u64
  | SbStop u64
  | SbShutdown

text \<open>
  The buffer with its history: the bytes accepted from the application, the frames sent, those
  of them neither acknowledged nor declared lost, and whether a call panicked or did not return.
\<close>

record sb_run =
  sr_buf :: send_buf
  sr_written :: "byte list"
  sr_sent :: "(u64 \<times> byte list \<times> bool) list"
  sr_flight :: "(u64 \<times> usize) list"
  sr_stuck :: bool

definition sr_init :: "u64 \<Rightarrow> sb_run" where
  "sr_init max_data = \<lparr>sr_buf = sb_new max_data, sr_written = [], sr_sent = [], sr_flight = [], sr_stuck = False\<rparr>"

fun sr_step :: "sb_run \<Rightarrow> sb_op \<Rightarrow> sb_run" where
  "sr_step r (SbWrite data fin) =
     (let (sb, res) = sb_write data fin (sr_buf r)
      in r\<lparr>sr_buf := sb, sr_written := (case res of Inr n \<Rightarrow> sr_written r @ take n data | Inl _ \<Rightarrow> sr_written r)\<rparr>)"
| "sr_step r (SbRead cap) =
     (case sb_read cap (sr_buf r) of
        None \<Rightarrow> r\<lparr>sr_stuck := True\<rparr>
      | Some (sb, bs, n, fin) \<Rightarrow>
          r\<lparr>sr_buf := sb, sr_sent := (sb_send_off (sr_buf r), bs, fin) # sr_sent r,
            sr_flight := (sb_send_off (sr_buf r), n) # sr_flight r\<rparr>)"
| "sr_step r (SbAck off len) =
     (case sb_ack_and_drop off len (sr_buf r) of
        None \<Rightarrow> r\<lparr>sr_stuck := True\<rparr>
      | Some sb \<Rightarrow> r\<lparr>sr_buf := sb, sr_flight := removeAll (off, len) (sr_flight r)\<rparr>)"
| "sr_step r (SbLost off len) =
     r\<lparr>sr_buf := sb_retransmit off len (sr_buf r), sr_flight := removeAll (off, len) (sr_flight r)\<rparr>"
| "sr_step r (SbMaxData m) = r\<lparr>sr_buf := sb_update_max_data m (sr_buf r)\<rparr>"
| "sr_step r (SbStop e) = r\<lparr>sr_buf := fst (sb_stop e (sr_buf r))\<rparr>"
| "sr_step r SbShutdown = r\<lparr>sr_buf := fst (sb_shutdown (sr_buf r))\<rparr>"

text \<open>Only frames that were sent are acknowledged or lost; lengths and limits do not wrap around.\<close>

fun sr_ok :: "sb_run \<Rightarrow> sb_op \<Rightarrow> bool" where
  "sr_ok r (SbWrite data fin) \<longleftrightarrow> sb_write_off (sr_buf r) + length data < u64_mod"
| "sr_ok r (SbAck off len) \<longleftrightarrow> (off, len) \<in> (\<lambda>(off, bs, fin). (off, length bs)) ` set (sr_sent r)"
| "sr_ok r (SbLost off len) \<longleftrightarrow> (off, len) \<in> (\<lambda>(off, bs, fin). (off, length bs)) ` set (sr_sent r)"
| "sr_ok r (SbMaxData m) \<longleftrightarrow> m < u64_mod"
| "sr_ok r _ \<longleftrightarrow> True"

definition flight_nums :: "(u64 \<times> usize) list \<Rightarrow> nat set" where
  "flight_nums fl = (\<Union>(off, len) \<in> set fl. {off..<off + len})"

definition sr_live :: "sb_run \<Rightarrow> bool" where
  "sr_live r \<longleftrightarrow> sb_inv (sr_written r) (sr_buf r) \<and> sb_error (sr_buf r) = None
     \<and> (\<forall>(off, bs, fin) \<in> set (sr_sent r). off + length bs \<le> sb_unsent_off (sr_buf r))
     \<and> {..<sb_unsent_off (sr_buf r)} \<subseteq> rs_nums (sb_acked (sr_buf r)) \<union> sb_pending (sr_buf r) \<union> flight_nums (sr_flight r)"

definition sent_ok :: "byte list \<Rightarrow> (u64 \<times> byte list \<times> bool) list \<Rightarrow> bool" where
  "sent_ok S fs \<longleftrightarrow> (\<forall>(off, bs, fin) \<in> set fs. (bs \<noteq> [] \<longrightarrow> off + length bs \<le> length S) \<and> bs = segm off (off + length bs) S)"

definition sr_inv :: "sb_run \<Rightarrow> bool" where
  "sr_inv r \<longleftrightarrow> \<not> sr_stuck r \<and> sent_ok (sr_written r) (sr_sent r) \<and> (sr_live r \<or> sb_closed (sr_buf r))"

lemma sent_ok_append: "sent_ok S fs \<Longrightarrow> sent_ok (S @ d) fs"
proof -
  assume a: "sent_ok S fs"
  have "(bs \<noteq> [] \<longrightarrow> off + length bs \<le> length (S @ d)) \<and> bs = segm off (off + length bs) (S @ d)"
    if "(off, bs, fin) \<in> set fs" for off bs fin
  proof -
    have "(bs \<noteq> [] \<longrightarrow> off + length bs \<le> length S) \<and> bs = segm off (off + length bs) S"
      using a that by (auto simp: sent_ok_def)
    then show ?thesis by (cases "bs = []") (simp_all add: segm_append_left)
  qed
  then show ?thesis by (auto simp: sent_ok_def)
qed

lemma flight_nums_remove: "flight_nums fl \<subseteq> flight_nums (removeAll (off, len) fl) \<union> {off..<off + len}"
  by (auto simp: flight_nums_def)

lemma sr_sent_le:
  "sr_live r \<Longrightarrow> (off, len) \<in> (\<lambda>(off, bs, fin). (off, length bs)) ` set (sr_sent r) \<Longrightarrow> off + len \<le> sb_unsent_off (sr_buf r)"
  by (fastforce simp: sr_live_def)

lemma sr_write_inv:
  assumes "sr_inv r" "sr_ok r (SbWrite data fin)"
  shows "sr_inv (sr_step r (SbWrite data fin))"
proof (cases "sr_live r")
  case False
  with assms have "sb_closed (sr_buf r)" by (simp add: sr_inv_def)
  with sb_closed_write [of "sr_buf r" data fin] assms(2) obtain x
    where x: "sb_write data fin (sr_buf r) = (sr_buf r, x)" "\<forall>n. x = Inr n \<longrightarrow> n = 0" by auto
  have "sr_step r (SbWrite data fin) = r" using x by (cases x) simp_all
  with assms(1) show ?thesis by simp
next
  case True
  let ?sb = "sr_buf r" and ?S = "sr_written r"
  have inv: "sb_inv ?S ?sb" and live: "sb_error ?sb = None" using True by (simp_all add: sr_live_def)
  have wrap: "sb_write_off ?sb + length data < u64_mod" using assms(2) by simp
  note w = sb_write_ok [OF inv live wrap, of fin]
  show ?thesis
  proof (cases "write_refused (length data) fin ?sb")
    case True
    then have "sr_step r (SbWrite data fin) = r" using w(1) by simp
    with assms(1) show ?thesis by simp
  next
    case False
    let ?n = "min (length data) (sb_max_data ?sb - sb_write_off ?sb)"
    from w(2) [OF False] obtain sb' wo da ul fo
      where w': "sb_write data fin ?sb = (sb', Inr ?n)" "sb_inv (?S @ take ?n data) sb'"
        "sb' = ?sb\<lparr>sb_write_off := wo, sb_data := da, sb_unacked_len := ul, sb_fin_off := fo\<rparr>" by blast
    have "length ?S = sb_write_off ?sb" "length (?S @ take ?n data) = sb_write_off sb'"
      using inv w'(2) by (simp_all only: sb_inv_def sb_bounds_def)
    then have "sb_write_off ?sb \<le> wo" by (simp add: w'(3))
    then have "sb_pending ?sb \<subseteq> sb_pending sb'" by (auto simp: sb_pending_def w'(3))
    moreover have "sb_unsent_off sb' = sb_unsent_off ?sb" "sb_acked sb' = sb_acked ?sb" "sb_error sb' = None"
      using live by (simp_all add: w'(3))
    ultimately have "sr_live (r\<lparr>sr_buf := sb', sr_written := ?S @ take ?n data\<rparr>)"
      using True w'(2) unfolding sr_live_def by auto
    then show ?thesis using assms(1) sent_ok_append [of ?S "sr_sent r"] w'(1) by (simp add: sr_inv_def)
  qed
qed

lemma sr_read_inv:
  assumes "sr_inv r"
  shows "sr_inv (sr_step r (SbRead cap))"
proof (cases "sr_live r")
  case False
  with assms have c: "sb_closed (sr_buf r)" by (simp add: sr_inv_def)
  then show ?thesis using assms by (simp add: sr_inv_def sb_closed_ops(3) [OF c] sent_ok_def)
next
  case True
  let ?sb = "sr_buf r" and ?S = "sr_written r"
  let ?a = "sb_send_off ?sb"
  have inv: "sb_inv ?S ?sb" and live: "sb_error ?sb = None" using True by (simp_all add: sr_live_def)
  from sb_read_ok [OF inv, of cap] obtain n sb'
    where rd: "sb_read cap ?sb = Some (sb', segm ?a (?a + n) ?S, n, sb_fin_off ?sb = Some (?a + n))"
      "read_ok ?S ?a n ?sb sb'" by metis
  from rd(2) have ro: "?a + n \<le> length ?S" "sb_inv ?S sb'" "sb_pending ?sb = sb_pending sb' \<union> {?a..<?a + n}"
    "sb_unsent_off ?sb \<le> sb_unsent_off sb'" "0 < n \<longrightarrow> ?a + n \<le> sb_unsent_off sb'"
    unfolding read_ok_def by blast+
  from rd(2) obtain p R u where sb': "sb' = ?sb\<lparr>sb_pos := p, sb_retransmits := R, sb_unsent_off := u\<rparr>"
    unfolding read_ok_def by blast
  have len: "length (segm ?a (?a + n) ?S) = n" using ro(1) by simp
  have b: "sb_unsent_off sb' \<le> sb_write_off ?sb" "?a \<le> sb_unsent_off ?sb"
    using ro(2) sb_invD(1) [OF inv] send_off_bounds(2) [OF sb_invD(3) [OF inv]]
    by (simp_all add: sb' sb_inv_def sb_bounds_def)
  have an: "?a + n \<le> sb_unsent_off sb'" using ro(4,5) b(2) by (cases "n = 0") auto
  have cov: "{..<sb_unsent_off ?sb} \<subseteq> rs_nums (sb_acked ?sb) \<union> sb_pending ?sb \<union> flight_nums (sr_flight r)"
    "\<forall>(off, bs, fin) \<in> set (sr_sent r). off + length bs \<le> sb_unsent_off ?sb"
    using True by (simp_all add: sr_live_def)
  have old: "{sb_unsent_off ?sb..<sb_unsent_off sb'} \<subseteq> sb_pending ?sb" using b(1) by (auto simp: sb_pending_def)
  have fl: "flight_nums ((?a, n) # sr_flight r) = {?a..<?a + n} \<union> flight_nums (sr_flight r)" by (simp add: flight_nums_def)
  have acked: "sb_acked sb' = sb_acked ?sb" "sb_error sb' = None" using live by (simp_all add: sb')
  have "{..<sb_unsent_off sb'} = {..<sb_unsent_off ?sb} \<union> {sb_unsent_off ?sb..<sb_unsent_off sb'}" using ro(4) by auto
  then have "{..<sb_unsent_off sb'} \<subseteq> rs_nums (sb_acked sb') \<union> sb_pending sb' \<union> flight_nums ((?a, n) # sr_flight r)"
    using cov(1) old unfolding fl acked(1) ro(3) by blast
  then have "sr_live (sr_step r (SbRead cap))"
    using cov(2) ro(2,4) an acked(2) len unfolding sr_live_def by (auto simp: rd(1))
  moreover have "sent_ok ?S ((?a, segm ?a (?a + n) ?S, f) # sr_sent r)" for f
    using assms ro(1) len by (simp add: sr_inv_def sent_ok_def)
  ultimately show ?thesis using assms by (simp add: sr_inv_def rd(1))
qed

lemma sr_ack_inv:
  assumes "sr_inv r" "sr_ok r (SbAck off len)"
  shows "sr_inv (sr_step r (SbAck off len))"
proof (cases "sr_live r")
  case False
  with assms have c: "sb_closed (sr_buf r)" by (simp add: sr_inv_def)
  then have "sb_closed (sr_buf r\<lparr>sb_retransmits := rs_clear (sb_retransmits (sr_buf r))\<rparr>)" by (simp add: sb_closed_def)
  then show ?thesis using assms(1) by (simp add: sr_inv_def sb_closed_ops(1) [OF c])
next
  case True
  let ?sb = "sr_buf r"
  have inv: "sb_inv (sr_written r) ?sb" and live: "sb_error ?sb = None" using True by (simp_all add: sr_live_def)
  have le: "off + len \<le> sb_unsent_off ?sb" using sr_sent_le [OF True] assms(2) by simp
  from sb_ack_and_drop_ok [OF inv le] obtain sb'
    where a: "sb_ack_and_drop off len ?sb = Some sb'" "sb_inv (sr_written r) sb'" "ack_ok off len ?sb sb'" by blast
  from a(3) obtain A R d u p where sb': "sb' = ?sb\<lparr>sb_acked := A, sb_retransmits := R, sb_data := d, sb_unacked_len := u, sb_pos := p\<rparr>"
    unfolding ack_ok_def by blast
  have n: "rs_nums (sb_acked sb') = rs_nums (sb_acked ?sb) \<union> {off..<off + len}"
    "rs_nums (sb_retransmits sb') = rs_nums (sb_retransmits ?sb) - {off..<off + len}"
    using a(3) by (simp_all add: ack_ok_def)
  have same: "sb_unsent_off sb' = sb_unsent_off ?sb" "sb_write_off sb' = sb_write_off ?sb" "sb_error sb' = None"
    using live by (simp_all add: sb')
  have "{..<sb_unsent_off ?sb} \<subseteq> rs_nums (sb_acked ?sb) \<union> sb_pending ?sb \<union> flight_nums (sr_flight r)"
    using True by (simp add: sr_live_def)
  also have "\<dots> \<subseteq> rs_nums (sb_acked sb') \<union> sb_pending sb' \<union> flight_nums (removeAll (off, len) (sr_flight r))"
    using flight_nums_remove [of "sr_flight r" off len] unfolding sb_pending_def n same by blast
  finally have "sr_live (r\<lparr>sr_buf := sb', sr_flight := removeAll (off, len) (sr_flight r)\<rparr>)"
    using True a(2) same unfolding sr_live_def by simp
  then show ?thesis using assms(1) by (simp add: sr_inv_def a(1))
qed

lemma sr_lost_inv:
  assumes "sr_inv r" "sr_ok r (SbLost off len)"
  shows "sr_inv (sr_step r (SbLost off len))"
proof (cases "sr_live r")
  case False
  with assms have c: "sb_closed (sr_buf r)" by (simp add: sr_inv_def)
  then show ?thesis using assms(1) by (simp add: sr_inv_def sb_closed_ops(2) [OF c])
next
  case True
  let ?sb = "sr_buf r" and ?sb' = "sb_retransmit off len (sr_buf r)"
  have inv: "sb_inv (sr_written r) ?sb" and live: "sb_error ?sb = None" using True by (simp_all add: sr_live_def)
  have le: "off + len \<le> sb_unsent_off ?sb" using sr_sent_le [OF True] assms(2) by simp
  note l = sb_retransmit_ok [OF inv le]
  from l(2) obtain R p where sb': "?sb' = ?sb\<lparr>sb_retransmits := R, sb_pos := p\<rparr>" unfolding lost_ok_def by blast
  have n: "rs_nums (sb_retransmits ?sb') = rs_nums (sb_retransmits ?sb) \<union> ({off..<off + len} - rs_nums (sb_acked ?sb))"
    using l(2) unfolding lost_ok_def by blast
  have same: "sb_unsent_off ?sb' = sb_unsent_off ?sb" "sb_write_off ?sb' = sb_write_off ?sb" "sb_error ?sb' = None"
    "sb_acked ?sb' = sb_acked ?sb" using live by (simp_all add: sb')
  have "{..<sb_unsent_off ?sb} \<subseteq> rs_nums (sb_acked ?sb) \<union> sb_pending ?sb \<union> flight_nums (sr_flight r)"
    using True by (simp add: sr_live_def)
  also have "\<dots> \<subseteq> rs_nums (sb_acked ?sb') \<union> sb_pending ?sb' \<union> flight_nums (removeAll (off, len) (sr_flight r))"
    using flight_nums_remove [of "sr_flight r" off len] unfolding sb_pending_def n same by blast
  finally have "sr_live (r\<lparr>sr_buf := ?sb', sr_flight := removeAll (off, len) (sr_flight r)\<rparr>)"
    using True l(1) same unfolding sr_live_def by simp
  then show ?thesis using assms(1) by (simp add: sr_inv_def)
qed

lemma sr_reset_closed:
  assumes "sr_live r \<or> sb_closed (sr_buf r)"
  shows "sb_closed (fst (sb_reset (sr_buf r\<lparr>sb_shut := b\<rparr>)))"
proof -
  let ?sb = "sr_buf r\<lparr>sb_shut := b\<rparr>"
  from assms have "rs_inv (sb_acked ?sb) \<and> rs_nums (sb_acked ?sb) \<subseteq> {..<sb_unsent_off ?sb}
    \<and> sb_unsent_off ?sb \<le> sb_write_off ?sb \<and> sb_write_off ?sb \<le> sb_max_data ?sb \<and> sb_max_data ?sb < u64_mod"
    by (elim disjE) (simp_all add: sr_live_def sb_inv_def sb_bounds_def sb_sets_def sb_closed_def)
  then have "\<exists>sb'. sb_reset ?sb = (sb', sb_unsent_off ?sb, sb_write_off ?sb - sb_unsent_off ?sb) \<and> sb_closed sb'
     \<and> sb_write_off sb' = sb_unsent_off ?sb \<and> sb_error sb' = sb_error ?sb \<and> sb_shut sb' = sb_shut ?sb"
    by (intro sb_reset_closed) blast+
  then obtain sb' where "sb_reset ?sb = (sb', sb_unsent_off ?sb, sb_write_off ?sb - sb_unsent_off ?sb)" "sb_closed sb'" by blast
  then show ?thesis by simp
qed

lemma sb_closed_error [simp]: "sb_closed (sb\<lparr>sb_error := e\<rparr>) \<longleftrightarrow> sb_closed sb"
  by (simp add: sb_closed_def)

lemma sr_close_inv:
  assumes "sr_inv r"
  shows "sr_inv (sr_step r (SbStop e))" "sr_inv (sr_step r SbShutdown)"
proof -
  have lc: "sr_live r \<or> sb_closed (sr_buf r)" and rest: "\<not> sr_stuck r" "sent_ok (sr_written r) (sr_sent r)"
    using assms by (simp_all add: sr_inv_def)
  obtain sb1 f u where re: "sb_reset (sr_buf r) = (sb1, f, u)" by (cases "sb_reset (sr_buf r)") auto
  have c1: "sb_closed sb1" using sr_reset_closed [OF lc, of "sb_shut (sr_buf r)"] re by simp
  show "sr_inv (sr_step r (SbStop e))"
  proof (cases "sb_error (sr_buf r) = None")
    case True
    then show ?thesis using c1 rest re by (simp add: sr_inv_def sb_stop_def)
  next
    case False
    then have "sr_step r (SbStop e) = r" by (simp add: sb_stop_def)
    with assms show ?thesis by simp
  qed
  obtain sb2 f u where re2: "sb_reset (sr_buf r\<lparr>sb_shut := True\<rparr>) = (sb2, f, u)"
    by (cases "sb_reset (sr_buf r\<lparr>sb_shut := True\<rparr>)") auto
  have c2: "sb_closed sb2" using sr_reset_closed [OF lc, of True] re2 by simp
  show "sr_inv (sr_step r SbShutdown)"
  proof (cases "sb_shut (sr_buf r)")
    case True
    then have "sr_step r SbShutdown = r" by (simp add: sb_shutdown_def)
    with assms show ?thesis by simp
  next
    case False
    then show ?thesis using c2 rest re2 by (simp add: sr_inv_def sb_shutdown_def)
  qed
qed

lemma sr_max_data_inv:
  assumes "sr_inv r" "m < u64_mod"
  shows "sr_inv (sr_step r (SbMaxData m))"
proof -
  let ?sb = "sr_buf r" and ?sb' = "sb_update_max_data m (sr_buf r)"
  have "sb_inv S ?sb'" if "sb_inv S ?sb" for S
    using that assms(2) by (simp add: sb_update_max_data_def sb_inv_def sb_bounds_def sb_sets_def le_max_iff_disj)
  then have "sr_live (r\<lparr>sr_buf := ?sb'\<rparr>)" if "sr_live r"
    using that by (simp add: sr_live_def) (simp add: sb_update_max_data_def sb_pending_def)
  moreover have "sb_closed ?sb'" if "sb_closed ?sb"
    using that assms(2) by (simp add: sb_closed_def sb_update_max_data_def le_max_iff_disj)
  ultimately show ?thesis using assms(1) unfolding sr_inv_def by (elim conjE disjE) simp_all
qed

lemma sr_step_inv: "sr_inv r \<Longrightarrow> sr_ok r op \<Longrightarrow> sr_inv (sr_step r op)"
  by (cases op) (simp_all only: sr_write_inv sr_read_inv sr_ack_inv sr_lost_inv sr_close_inv sr_max_data_inv sr_ok.simps)

interpretation srm: inv_machine sr_step sr_ok sr_inv
  by unfold_locales (rule sr_step_inv)

lemma sr_init_inv: "max_data < u64_mod \<Longrightarrow> sr_inv (sr_init max_data)"
  using sb_new_inv [of max_data]
  by (simp add: sr_inv_def sr_live_def sr_init_def sent_ok_def sb_new_def flight_nums_def)

definition demo_sends :: "sb_op list" where
  "demo_sends = [SbWrite [1, 2, 3] False, SbRead 2]"

lemmas sb_eval = sr_init_def sb_new_def sb_write_def sb_capacity_def sb_read_def sb_ack_and_drop_def sb_ack_def
  sb_retransmit_def sb_ack_off_def sb_send_off_def sb_ready_def poll_transmit_def read_range_def slice_def
  rs_default_def rs_new_def rs_min_def rs_pop_min_def rs_peek_min_def rs_clear_def push_chunk_def SEND_BUFFER_SIZE_def
  rb_new_def rb_len_def rb_max_off_def rb_advance_def insert_merged_def prev_to_def next_to_def next_after_def
  rs_is_empty_def rs_len_def push_chunks.simps send_loop.simps copy_range.simps u64_eval segm_def
  bt_range_upto_def bt_range_from_def bt_range_after_def last_entry_def first_entry_def bt_remove_def Let_def

text \<open>
  C4.  For every sequence of writes, reads, acknowledgements and losses of sent frames, window
  updates, stops and shutdowns, as long as offsets and limits stay below \<open>2 ^ 64\<close>: no call panics or loops
  for ever, whatever was sent, and every frame sent that is not empty carries exactly the bytes of the
  application's stream at its offset.
\<close>

theorem send_frames_exact:
  assumes "max_data < u64_mod" and "ok_run sr_step sr_ok (sr_init max_data) ops"
    and "r = foldl sr_step (sr_init max_data) ops"
  shows "\<not> sr_stuck r
    \<and> (\<forall>(off, bs, fin) \<in> set (sr_sent r). bs \<noteq> [] \<longrightarrow>
         off + length bs \<le> length (sr_written r) \<and> bs = segm off (off + length bs) (sr_written r))"
proof -
  have "sr_inv r" using srm.run_inv [OF sr_init_inv [OF assms(1)] assms(2)] assms(3) by simp
  then show ?thesis by (auto simp: sr_inv_def sent_ok_def)
qed

text \<open>What the buffer holds after the demonstration.\<close>

lemma ten_u64: "10 < u64_mod"
  by (simp add: u64_mod_def)

lemma demo_sends_ok:
  "ok_run sr_step sr_ok (sr_init 10) demo_sends"
  "sr_sent (foldl sr_step (sr_init 10) demo_sends) = [(0, [1, 2], False)]"
  "sr_written (foldl sr_step (sr_init 10) demo_sends) = [1, 2, 3]"
  by (simp_all add: demo_sends_def sb_eval)

theorem send_frames_exact_witness:
  "(\<lambda>r. \<not> sr_stuck r \<and> [1, 2] = segm 0 2 (sr_written r)) (foldl sr_step (sr_init 10) demo_sends)"
  using send_frames_exact [OF ten_u64 demo_sends_ok(1) refl]
  by (simp add: demo_sends_ok(2) numeral_2_eq_2)

lemma pending_send_off:
  assumes inv: "sb_inv S sb" and ne: "sb_pending sb \<noteq> {}"
  shows "sb_send_off sb < sb_write_off sb"
proof (cases "rs_nums (sb_retransmits sb) = {}")
  case True
  then have "sb_send_off sb = sb_unsent_off sb" using sb_invD(3) [OF inv] by (simp add: sb_sets_def send_off_eq)
  with True ne show ?thesis by (simp add: sb_pending_def)
next
  case False
  note i = sb_invD [OF inv]
  have "sb_send_off sb \<in> rs_nums (sb_retransmits sb)"
    using False i(3) by (simp add: sb_sets_def send_off_eq Min_in)
  moreover have "rs_nums (sb_retransmits sb) \<subseteq> {sb_base sb..<sb_unsent_off sb}" using i(3) by (simp add: sb_sets_def)
  ultimately have "sb_send_off sb < sb_unsent_off sb" by (meson atLeastLessThan_iff subsetD)
  then show ?thesis using i(1) by (simp add: sb_bounds_def)
qed

text \<open>
  C5.  No byte is lost: as long as the stream is not closed, every byte accepted from the application
  is acknowledged, queued for transmission, or in a frame whose fate is not known; and once no
  frame is in flight, reading with room for a byte sends something unless all is acknowledged.
\<close>

theorem send_no_loss:
  assumes "max_data < u64_mod" and "ok_run sr_step sr_ok (sr_init max_data) ops"
    and r: "r = foldl sr_step (sr_init max_data) ops" and nc: "\<not> sb_closed (sr_buf r)"
  shows "{..<length (sr_written r)} \<subseteq> rs_nums (sb_acked (sr_buf r)) \<union> sb_pending (sr_buf r) \<union> flight_nums (sr_flight r)
    \<and> (sr_flight r = [] \<and> rs_nums (sb_acked (sr_buf r)) \<noteq> {..<length (sr_written r)} \<and> 0 < cap \<longrightarrow>
       (\<exists>sb' bs n fin. sb_read cap (sr_buf r) = Some (sb', bs, n, fin) \<and> 0 < n))"
proof -
  let ?sb = "sr_buf r" and ?S = "sr_written r"
  have "sr_inv r" using srm.run_inv [OF sr_init_inv [OF assms(1)] assms(2)] r by simp
  then have live: "sr_live r" using nc by (simp add: sr_inv_def)
  then have inv: "sb_inv ?S ?sb"
    and c: "{..<sb_unsent_off ?sb} \<subseteq> rs_nums (sb_acked ?sb) \<union> sb_pending ?sb \<union> flight_nums (sr_flight r)"
    by (simp_all add: sr_live_def)
  note i = sb_invD [OF inv]
  have len: "length ?S = sb_write_off ?sb" "sb_unsent_off ?sb \<le> sb_write_off ?sb" using i(1) by (simp_all add: sb_bounds_def)
  have "{..<length ?S} = {..<sb_unsent_off ?sb} \<union> {sb_unsent_off ?sb..<sb_write_off ?sb}" using len by auto
  moreover have "{sb_unsent_off ?sb..<sb_write_off ?sb} \<subseteq> sb_pending ?sb" by (auto simp: sb_pending_def)
  ultimately have cov: "{..<length ?S} \<subseteq> rs_nums (sb_acked ?sb) \<union> sb_pending ?sb \<union> flight_nums (sr_flight r)"
    using c by blast
  have "\<exists>sb' bs n fin. sb_read cap ?sb = Some (sb', bs, n, fin) \<and> 0 < n"
    if h: "sr_flight r = []" "rs_nums (sb_acked ?sb) \<noteq> {..<length ?S}" "0 < cap"
  proof -
    have "sb_pending ?sb \<noteq> {}"
    proof
      assume e: "sb_pending ?sb = {}"
      have "{..<length ?S} \<subseteq> rs_nums (sb_acked ?sb)" using cov unfolding h(1) e by (simp add: flight_nums_def)
      moreover have "rs_nums (sb_acked ?sb) \<subseteq> {..<sb_unsent_off ?sb}" using i(3) by (simp add: sb_sets_def)
      moreover have "{..<sb_unsent_off ?sb} \<subseteq> {..<length ?S}" using len by simp
      ultimately show False using h(2) by (metis order_antisym order_trans)
    qed
    from pending_send_off [OF inv this] h(3) sb_read_ok [OF inv, of cap] show ?thesis by metis
  qed
  with cov show ?thesis by blast
qed

definition demo_loss :: "sb_op list" where
  "demo_loss = [SbWrite [1, 2, 3] False, SbRead 2, SbLost 0 2]"

lemma demo_loss_ok:
  "ok_run sr_step sr_ok (sr_init 10) demo_loss"
  "sr_flight (foldl sr_step (sr_init 10) demo_loss) = []"
  "sr_written (foldl sr_step (sr_init 10) demo_loss) = [1, 2, 3]"
  "sb_acked (sr_buf (foldl sr_step (sr_init 10) demo_loss)) = rs_default"
  "sb_fin_off (sr_buf (foldl sr_step (sr_init 10) demo_loss)) = None"
  by (simp_all add: demo_loss_def sb_eval rs_insert.simps merge_following.simps)

theorem send_no_loss_witness:
  "\<exists>sb' bs n fin. sb_read 4 (sr_buf (foldl sr_step (sr_init 10) demo_loss)) = Some (sb', bs, n, fin) \<and> 0 < n"
proof -
  have "\<not> sb_closed (sr_buf (foldl sr_step (sr_init 10) demo_loss))" by (simp add: sb_closed_def demo_loss_ok(5))
  moreover have "{} \<noteq> {..<length [1, 2, 3 :: byte]}" by auto
  ultimately show ?thesis
    using send_no_loss [OF ten_u64 demo_loss_ok(1) refl, of 4] by (simp add: demo_loss_ok(2-4))
qed

text \<open>
  The stream counts as completely acknowledged although its end has never been announced: when
  the application closes it after all its data has been acknowledged, no frame with the end
  flag has been sent, and yet \<open>is_complete\<close> holds.
\<close>

theorem complete_before_fin:
  "let r = foldl sr_step (sr_init 10) [SbWrite [7] False, SbRead 5, SbAck 0 1, SbWrite [] True]
   in sb_is_complete (sr_buf r) \<and> sr_sent r = [(0, [7], False)]"
  by (simp add: sb_eval rs_insert.simps rs_remove.simps merge_following.simps remove_following.simps
      sb_is_complete_def rs_eq_range_def)

end
