(* ===== verification/StreamTable.thy ===== *)
theory StreamTable
  imports StreamMap SendRun
begin

text \<open>
  What the stream table of \<open>src/connection/stream.rs\<close> promises about stream identifiers and about the
  credit for sending.  An abstract table keeps the send buffers, the limits, the credit and
  the identifiers of the streams created so far; every operation of \<open>StreamMap\<close> is a sequence of its steps.
\<close>

declare rs_insert.simps [simp del] rs_remove.simps [simp del]

subsection \<open>Send buffers of a table\<close>

definition send_ok :: "send_buf \<Rightarrow> bool" where
  "send_ok sb \<longleftrightarrow> sb_max_data sb < 2 ^ 62 \<and> ((\<exists>S. sb_inv S sb \<and> sb_error sb = None) \<or> sb_closed sb)
     \<and> sb_send_off sb \<le> sb_unsent_off sb"

lemma sb_inv_facts:
  "sb_inv S sb \<Longrightarrow> sb_unsent_off sb \<le> sb_write_off sb \<and> sb_write_off sb \<le> sb_max_data sb
     \<and> rs_inv (sb_acked sb) \<and> rs_nums (sb_acked sb) \<subseteq> {..<sb_unsent_off sb}"
  by (simp add: sb_inv_def sb_bounds_def sb_sets_def)

lemma sb_closed_facts:
  "sb_closed sb \<Longrightarrow> sb_unsent_off sb \<le> sb_write_off sb \<and> sb_write_off sb \<le> sb_max_data sb
     \<and> rs_inv (sb_acked sb) \<and> rs_nums (sb_acked sb) \<subseteq> {..<sb_unsent_off sb}"
  by (simp add: sb_closed_def)

lemma send_ok_live:
  "sb_inv S sb \<Longrightarrow> sb_error sb = None \<Longrightarrow> sb_max_data sb < 2 ^ 62 \<Longrightarrow> send_ok sb"
  using send_off_bounds(2) [of sb] sb_invD(1,3) [of S sb] unfolding send_ok_def by (auto simp: sb_bounds_def)

lemma send_ok_bounds:
  assumes "send_ok sb"
  shows "sb_unsent_off sb \<le> sb_write_off sb" "sb_write_off sb \<le> sb_max_data sb" "sb_max_data sb < 2 ^ 62"
    "rs_inv (sb_acked sb)" "rs_nums (sb_acked sb) \<subseteq> {..<sb_unsent_off sb}" "sb_send_off sb \<le> sb_unsent_off sb"
  using assms sb_inv_facts sb_closed_facts unfolding send_ok_def by blast+

lemma small_u64: "n < 2 ^ 62 \<Longrightarrow> n < u64_mod"
  by (simp add: u64_mod_def)

lemma send_ok_new: "m < 2 ^ 62 \<Longrightarrow> send_ok (sb_new m)"
  using sb_new_inv [of m] small_u64 [of m] by (auto intro: send_ok_live simp: sb_new_def)

lemma sb_inv_blocked [simp]: "sb_inv S (sb\<lparr>sb_blocked_at := b\<rparr>) \<longleftrightarrow> sb_inv S sb"
  by (simp add: sb_inv_def sb_bounds_def sb_sets_def sb_base_def sb_send_off_def split: option.split)

lemma send_off_upd [simp]:
  "sb_send_off (sb\<lparr>sb_blocked_at := b\<rparr>) = sb_send_off sb" "sb_send_off (sb\<lparr>sb_max_data := m\<rparr>) = sb_send_off sb"
  "sb_send_off (sb\<lparr>sb_error := e\<rparr>) = sb_send_off sb" "sb_send_off (sb\<lparr>sb_shut := h\<rparr>) = sb_send_off sb"
  by (simp_all add: sb_send_off_def split: option.split)

lemma send_ok_blocked [simp]: "send_ok (sb_update_blocked_at b sb) \<longleftrightarrow> send_ok sb"
  by (simp add: send_ok_def sb_update_blocked_at_def sb_closed_def)

lemma sb_write_off_blocked [simp]: "sb_write_off (sb_update_blocked_at b sb) = sb_write_off sb"
  by (simp add: sb_update_blocked_at_def)

lemma send_ok_max_data:
  assumes "send_ok sb" "m < 2 ^ 62"
  shows "send_ok (sb_update_max_data m sb)" "sb_write_off (sb_update_max_data m sb) = sb_write_off sb"
proof -
  have m: "max (sb_max_data sb) m < 2 ^ 62" using assms by (simp add: send_ok_def)
  have "sb_inv S (sb_update_max_data m sb)" if "sb_inv S sb" for S
    using that small_u64 [OF m] by (simp add: sb_update_max_data_def sb_inv_def sb_bounds_def sb_sets_def le_max_iff_disj)
  moreover have "sb_closed (sb_update_max_data m sb)" if "sb_closed sb"
    using that small_u64 [OF m] by (simp add: sb_closed_def sb_update_max_data_def le_max_iff_disj)
  ultimately show "send_ok (sb_update_max_data m sb)"
    using assms(1) m unfolding send_ok_def by (auto simp: sb_update_max_data_def)
  show "sb_write_off (sb_update_max_data m sb) = sb_write_off sb" by (simp add: sb_update_max_data_def)
qed

lemma send_ok_write:
  assumes ok: "send_ok sb" and len: "length data < 2 ^ 62" and w: "sb_write data fin sb = (sb', res)"
  shows "case res of Inl e \<Rightarrow> sb' = sb
    | Inr n \<Rightarrow> n \<le> length data \<and> send_ok sb' \<and> sb_write_off sb' = sb_write_off sb + n"
proof -
  have wrap: "sb_write_off sb + length data < u64_mod"
    using send_ok_bounds [OF ok] len by (simp add: u64_mod_def)
  from ok consider (live) S where "sb_inv S sb" "sb_error sb = None" | (closed) "sb_closed sb" unfolding send_ok_def by blast
  then show ?thesis
  proof cases
    case live
    note wr = sb_write_ok [OF live wrap, of fin]
    let ?n = "min (length data) (sb_max_data sb - sb_write_off sb)"
    show ?thesis
    proof (cases "write_refused (length data) fin sb")
      case True
      then show ?thesis using wr(1) w by simp
    next
      case False
      from wr(2) [OF False] obtain sb1 wo da ul fo
        where w1: "sb_write data fin sb = (sb1, Inr ?n)" "sb_inv (S @ take ?n data) sb1"
          "sb1 = sb\<lparr>sb_write_off := wo, sb_data := da, sb_unacked_len := ul, sb_fin_off := fo\<rparr>" by blast
      have len1: "length S = sb_write_off sb" "length (S @ take ?n data) = sb_write_off sb1"
        using live(1) w1(2) by (simp_all only: sb_inv_def sb_bounds_def)
      have "sb_error sb1 = None" "sb_max_data sb1 = sb_max_data sb" using live(2) by (simp_all add: w1(3))
      then have "send_ok sb1" using send_ok_live [OF w1(2)] ok by (simp add: send_ok_def)
      moreover have "sb_write_off sb1 = sb_write_off sb + ?n" using len1 by simp
      ultimately show ?thesis using w w1(1) by auto
    qed
  next
    case closed
    with sb_closed_write [OF closed wrap, of fin] w have "sb' = sb" "\<forall>n. res = Inr n \<longrightarrow> n = 0" by auto
    with ok show ?thesis by (cases res) auto
  qed
qed

lemma send_ok_reset:
  assumes ok: "send_ok sb"
  shows "\<exists>sb'. sb_reset sb = (sb', sb_unsent_off sb, sb_write_off sb - sb_unsent_off sb) \<and> send_ok (sb'\<lparr>sb_error := e\<rparr>) \<and> send_ok sb'
     \<and> sb_write_off sb' + (sb_write_off sb - sb_unsent_off sb) = sb_write_off sb"
proof -
  note b = send_ok_bounds [OF ok]
  from sb_reset_closed [OF b(4,5,1,2) small_u64 [OF b(3)]] obtain sb'
    where r: "sb_reset sb = (sb', sb_unsent_off sb, sb_write_off sb - sb_unsent_off sb)" "sb_closed sb'"
      "sb_write_off sb' = sb_unsent_off sb" by blast
  have "sb_max_data sb' = sb_max_data sb" "sb_unsent_off sb' = sb_unsent_off sb" "sb_retransmits sb' = sb_retransmits sb"
    using r(1) by (auto simp: sb_reset_def sb_ack_def Let_def)
  then have "sb_max_data sb' = sb_max_data sb" "sb_send_off sb' \<le> sb_unsent_off sb'"
    using b(6) by (simp_all add: sb_send_off_def split: option.splits)
  then have "send_ok sb'" "send_ok (sb'\<lparr>sb_error := e\<rparr>)" using r(2) b(3) by (simp_all add: send_ok_def)
  with r b(1) show ?thesis by auto
qed

lemma send_ok_shut [simp]: "send_ok (sb\<lparr>sb_shut := b\<rparr>) \<longleftrightarrow> send_ok sb"
  by (simp add: send_ok_def sb_closed_def sb_inv_def sb_bounds_def sb_sets_def sb_base_def sb_send_off_def split: option.split)

lemma send_ok_stop:
  assumes "send_ok sb" "sb_stop e sb = (sb', res)"
  shows "case res of Inl _ \<Rightarrow> sb' = sb | Inr (f, u) \<Rightarrow> send_ok sb' \<and> sb_write_off sb' + u = sb_write_off sb"
  using send_ok_reset [OF assms(1), of "Some e"] assms(2) by (auto simp: sb_stop_def split: if_splits)

lemma send_ok_shutdown:
  assumes "send_ok sb" "sb_shutdown sb = (sb', res)"
  shows "case res of Inl _ \<Rightarrow> sb' = sb | Inr (f, u) \<Rightarrow> send_ok sb' \<and> sb_write_off sb' + u = sb_write_off sb"
  using send_ok_reset [of "sb\<lparr>sb_shut := True\<rparr>" None] assms by (auto simp: sb_shutdown_def split: if_splits)

lemma send_ok_ack:
  assumes ok: "send_ok sb" and le: "off + len \<le> sb_unsent_off sb"
  shows "\<exists>sb'. sb_ack_and_drop off len sb = Some sb' \<and> send_ok sb' \<and> sb_write_off sb' = sb_write_off sb"
proof -
  from ok consider (live) S where "sb_inv S sb" "sb_error sb = None" | (closed) "sb_closed sb" unfolding send_ok_def by blast
  then show ?thesis
  proof cases
    case live
    from sb_ack_and_drop_ok [OF live(1) le] obtain sb'
      where a: "sb_ack_and_drop off len sb = Some sb'" "sb_inv S sb'" "ack_ok off len sb sb'" by blast
    from a(3) obtain A R d u p where "sb' = sb\<lparr>sb_acked := A, sb_retransmits := R, sb_data := d, sb_unacked_len := u, sb_pos := p\<rparr>"
      unfolding ack_ok_def by blast
    then have "sb_error sb' = None" "sb_max_data sb' = sb_max_data sb" "sb_write_off sb' = sb_write_off sb" using live(2) by simp_all
    then show ?thesis using a(1) send_ok_live [OF a(2)] ok by (simp add: send_ok_def)
  next
    case closed
    have "sb_send_off (sb\<lparr>sb_retransmits := rs_clear (sb_retransmits sb)\<rparr>) = sb_unsent_off sb"
      by (simp add: sb_send_off_def rs_clear_def rs_min_def)
    with sb_closed_ops(1) [OF closed, of off len] closed ok show ?thesis by (simp add: send_ok_def sb_closed_def)
  qed
qed

lemma send_ok_lost:
  assumes ok: "send_ok sb" and le: "off + len \<le> sb_unsent_off sb"
  shows "send_ok (sb_retransmit off len sb)" "sb_write_off (sb_retransmit off len sb) = sb_write_off sb"
proof -
  from ok consider (live) S where "sb_inv S sb" "sb_error sb = None" | (closed) "sb_closed sb" unfolding send_ok_def by blast
  then have "send_ok (sb_retransmit off len sb) \<and> sb_write_off (sb_retransmit off len sb) = sb_write_off sb"
  proof cases
    case live
    note l = sb_retransmit_ok [OF live(1) le]
    from l(2) obtain R p where sb': "sb_retransmit off len sb = sb\<lparr>sb_retransmits := R, sb_pos := p\<rparr>" unfolding lost_ok_def by blast
    with l(1) have "sb_inv S (sb\<lparr>sb_retransmits := R, sb_pos := p\<rparr>)" by simp
    then have "send_ok (sb\<lparr>sb_retransmits := R, sb_pos := p\<rparr>)" by (rule send_ok_live) (use live(2) ok in \<open>simp_all add: send_ok_def\<close>)
    then show ?thesis using sb' by simp
  next
    case closed
    with sb_closed_ops(2) [OF closed, of off len] ok show ?thesis by simp
  qed
  then show "send_ok (sb_retransmit off len sb)" "sb_write_off (sb_retransmit off len sb) = sb_write_off sb" by blast+
qed

lemma send_ok_read:
  assumes ok: "send_ok sb"
  shows "\<exists>sb' bs fin. sb_read cap sb = Some (sb', bs, length bs, fin) \<and> length bs \<le> cap \<and> send_ok sb' \<and> sb_write_off sb' = sb_write_off sb"
proof -
  from ok consider (live) S where "sb_inv S sb" "sb_error sb = None" | (closed) "sb_closed sb" unfolding send_ok_def by blast
  then show ?thesis
  proof cases
    case live
    from sb_read_ok [OF live(1), of cap] obtain n sb'
      where rd: "sb_read cap sb = Some (sb', segm (sb_send_off sb) (sb_send_off sb + n) S, n, sb_fin_off sb = Some (sb_send_off sb + n))"
        "read_ok S (sb_send_off sb) n sb sb'" "n \<le> cap" by metis
    from rd(2) obtain p R u where sb': "sb' = sb\<lparr>sb_pos := p, sb_retransmits := R, sb_unsent_off := u\<rparr>" unfolding read_ok_def by blast
    have inv: "sb_inv S sb'" and len: "sb_send_off sb + n \<le> length S" using rd(2) by (simp_all add: read_ok_def)
    have "send_ok sb'" by (rule send_ok_live [OF inv]) (use live(2) ok in \<open>simp_all add: sb' send_ok_def\<close>)
    moreover have "length (segm (sb_send_off sb) (sb_send_off sb + n) S) = n" using len by simp
    moreover have "sb_write_off sb' = sb_write_off sb" by (simp add: sb')
    ultimately show ?thesis using rd(1,3) by auto
  next
    case closed
    with sb_closed_ops(3) [OF closed, of cap] ok show ?thesis by simp
  qed
qed

subsection \<open>The abstract table\<close>

record table =
  tb_server :: bool
  tb_sends :: "u64 \<rightharpoonup> send_buf"
  tb_cc :: concurrency_control
  tb_max :: nat
  tb_tx :: nat
  tb_cap :: nat
  tb_peer :: stream_params
  tb_ids :: "u64 list"

definition params_ok :: "stream_params \<Rightarrow> bool" where
  "params_ok tp \<longleftrightarrow> sp_initial_max_data tp < 2 ^ 62 \<and> sp_initial_max_stream_data_bidi_local tp < 2 ^ 62
     \<and> sp_initial_max_stream_data_bidi_remote tp < 2 ^ 62 \<and> sp_initial_max_stream_data_uni tp < 2 ^ 62
     \<and> sp_initial_max_streams_bidi tp < 2 ^ 62 \<and> sp_initial_max_streams_uni tp < 2 ^ 62"

text \<open>Only the notes about blocked streams differ.\<close>

definition cc_same :: "concurrency_control \<Rightarrow> concurrency_control \<Rightarrow> bool" where
  "cc_same cc cc' \<longleftrightarrow> (\<forall>l b. cc_limit l b cc' = cc_limit l b cc \<and> cc_next b cc' = cc_next b cc
     \<and> cc_opened l b cc' = cc_opened l b cc \<and> cc_avail l b cc' = cc_avail l b cc)"

text \<open>The steps, when no limit announced by the peer exceeds \<open>B\<close>.\<close>

inductive tstep :: "nat \<Rightarrow> table \<Rightarrow> table \<Rightarrow> bool" for B where
  t_send: "tb_sends t sid = Some sb \<Longrightarrow> (send_ok sb \<Longrightarrow> send_ok sb' \<and> sb_write_off sb' = sb_write_off sb) \<Longrightarrow>
     tstep B t (t\<lparr>tb_sends := (tb_sends t)(sid \<mapsto> sb')\<rparr>)"
| t_write: "tb_sends t sid = Some sb \<Longrightarrow> (send_ok sb \<Longrightarrow> send_ok sb' \<and> sb_write_off sb' = sb_write_off sb + w \<and> w \<le> tb_cap t) \<Longrightarrow>
     tstep B t (t\<lparr>tb_sends := (tb_sends t)(sid \<mapsto> sb'), tb_cap := sub64 (tb_cap t) w, tb_tx := add64 (tb_tx t) w\<rparr>)"
| t_reset: "tb_sends t sid = Some sb \<Longrightarrow> (send_ok sb \<Longrightarrow> send_ok sb' \<and> sb_write_off sb' + u = sb_write_off sb) \<Longrightarrow>
     tstep B t (t\<lparr>tb_sends := (tb_sends t)(sid \<mapsto> sb'), tb_tx := tb_tx t - u, tb_cap := sub64 (tb_max t) (tb_tx t - u)\<rparr>)"
| t_create: "tb_sends t sid = None \<Longrightarrow> sid < 2 ^ 62 \<Longrightarrow> is_available sid (tb_server t) (tb_cc t) \<Longrightarrow>
     check_concurrency_limits sid (tb_server t) (tb_cc t) = (cc, Inr ()) \<Longrightarrow> (params_ok (tb_peer t) \<Longrightarrow> m < 2 ^ 62) \<Longrightarrow>
     tstep B t (t\<lparr>tb_sends := (tb_sends t)(sid \<mapsto> sb_new m), tb_cc := remove_avail_id sid (tb_server t) cc, tb_ids := sid # tb_ids t\<rparr>)"
| t_destroy: "tstep B t (t\<lparr>tb_sends := (tb_sends t)(sid := None)\<rparr>)"
| t_peer_max: "n < u64_mod \<Longrightarrow> tstep B t (t\<lparr>tb_cc := update_peer_max_streams bidi n (tb_cc t)\<rparr>)"
| t_local_max: "tstep B t (t\<lparr>tb_cc := update_local_max_streams bidi (tb_cc t)\<rparr>)"
| t_credit: "tstep B t (t\<lparr>tb_cc := increase_max_streams_credits bidi d (tb_cc t)\<rparr>)"
| t_blocked: "cc_same (tb_cc t) cc \<Longrightarrow> tstep B t (t\<lparr>tb_cc := cc\<rparr>)"
| t_max_data: "m < 2 ^ 62 \<Longrightarrow> m \<le> B \<Longrightarrow> tstep B t (t\<lparr>tb_max := max (tb_max t) m, tb_cap := sub64 (max (tb_max t) m) (tb_tx t)\<rparr>)"
| t_params: "params_ok tp \<Longrightarrow> tstep B t (t\<lparr>tb_peer := tp\<rparr>)"

text \<open>The bytes written to the streams of the table.\<close>

definition total_written :: "(u64 \<rightharpoonup> send_buf) \<Rightarrow> nat" where
  "total_written m = (\<Sum>sid \<in> dom m. sb_write_off (the (m sid)))"

lemma total_written_upd:
  assumes "finite (dom m)"
  shows "total_written (m(sid \<mapsto> sb)) + (case m sid of None \<Rightarrow> 0 | Some sb0 \<Rightarrow> sb_write_off sb0) = total_written m + sb_write_off sb"
proof -
  have eq: "(\<Sum>x \<in> dom m - {sid}. sb_write_off (the ((m(sid \<mapsto> sb)) x))) = (\<Sum>x \<in> dom m - {sid}. sb_write_off (the (m x)))"
    by (rule sum.cong) auto
  have "total_written (m(sid \<mapsto> sb)) = sb_write_off sb + (\<Sum>x \<in> dom m - {sid}. sb_write_off (the (m x)))"
    using assms sum.insert_remove [of "dom m" "\<lambda>x. sb_write_off (the ((m(sid \<mapsto> sb)) x))" sid]
    by (simp add: total_written_def eq)
  moreover have "total_written m = (\<Sum>x \<in> dom m - {sid}. sb_write_off (the (m x))) + (case m sid of None \<Rightarrow> 0 | Some sb0 \<Rightarrow> sb_write_off sb0)"
  proof (cases "m sid")
    case None
    then have "dom m - {sid} = dom m" by auto
    with None show ?thesis by (simp add: total_written_def)
  next
    case (Some sb0)
    then have "sid \<in> dom m" by blast
    with Some assms show ?thesis by (simp add: total_written_def sum.remove [of "dom m" sid])
  qed
  ultimately show ?thesis by simp
qed

lemma total_written_del:
  assumes "finite (dom m)"
  shows "total_written (m(sid := None)) \<le> total_written m"
proof -
  have "total_written (m(sid := None)) = (\<Sum>x \<in> dom m - {sid}. sb_write_off (the (m x)))"
    by (simp add: total_written_def)
  also have "\<dots> \<le> total_written m" unfolding total_written_def using assms by (intro sum_mono2) auto
  finally show ?thesis .
qed

definition credit_inv :: "table \<Rightarrow> bool" where
  "credit_inv t \<longleftrightarrow> finite (dom (tb_sends t)) \<and> (\<forall>sb \<in> ran (tb_sends t). send_ok sb) \<and> params_ok (tb_peer t)
     \<and> tb_max t < 2 ^ 62 \<and> tb_tx t \<le> tb_max t \<and> tb_cap t = tb_max t - tb_tx t \<and> total_written (tb_sends t) \<le> tb_tx t"

definition ids_inv :: "table \<Rightarrow> bool" where
  "ids_inv t \<longleftrightarrow> cc_inv (tb_server t) (tb_cc t, tb_ids t) \<and> dom (tb_sends t) \<subseteq> set (tb_ids t) \<and> distinct (tb_ids t)
     \<and> (\<forall>sid \<in> set (tb_ids t). sid < 2 ^ 62)"

lemma ran_upd: "\<forall>sb \<in> ran m. P sb \<Longrightarrow> P sb' \<Longrightarrow> \<forall>sb \<in> ran (m(sid \<mapsto> sb')). P sb"
  by (auto simp: ran_def)

lemma credit_step: "tstep B t t' \<Longrightarrow> credit_inv t \<Longrightarrow> credit_inv t'"
proof (induction rule: tstep.induct)
  case (t_send t sid sb sb')
  have "send_ok sb" using t_send by (auto simp: credit_inv_def ran_def)
  with t_send.hyps have sb': "send_ok sb'" "sb_write_off sb' = sb_write_off sb" by auto
  have "total_written ((tb_sends t)(sid \<mapsto> sb')) = total_written (tb_sends t)"
    using total_written_upd [of "tb_sends t" sid sb'] t_send sb' by (simp add: credit_inv_def)
  moreover have "\<forall>sb \<in> ran ((tb_sends t)(sid \<mapsto> sb')). send_ok sb"
    using t_send.prems sb'(1) by (intro ran_upd) (simp_all add: credit_inv_def)
  ultimately show ?case using t_send.prems by (simp add: credit_inv_def)
next
  case (t_write t sid sb sb' w)
  have "send_ok sb" using t_write by (auto simp: credit_inv_def ran_def)
  with t_write.hyps have sb': "send_ok sb'" "sb_write_off sb' = sb_write_off sb + w" "w \<le> tb_cap t" by auto
  have c: "tb_max t < 2 ^ 62" "tb_tx t \<le> tb_max t" "tb_cap t = tb_max t - tb_tx t" "total_written (tb_sends t) \<le> tb_tx t"
    "finite (dom (tb_sends t))" "\<forall>sb \<in> ran (tb_sends t). send_ok sb" "params_ok (tb_peer t)"
    using t_write.prems by (simp_all add: credit_inv_def)
  have tot: "total_written ((tb_sends t)(sid \<mapsto> sb')) = total_written (tb_sends t) + w"
    using total_written_upd [OF c(5), of sid sb'] t_write.hyps(1) sb'(2) by simp
  have "add64 (tb_tx t) w = tb_tx t + w" using c sb'(3) by (intro add64_nowrap) (simp add: u64_mod_def)
  moreover have "sub64 (tb_cap t) w = tb_cap t - w" using sb'(3) by (rule sub64_nowrap)
  ultimately show ?case using c sb' tot ran_upd [OF c(6) sb'(1), of sid] by (simp add: credit_inv_def)
next
  case (t_reset t sid sb sb' u)
  have "send_ok sb" using t_reset by (auto simp: credit_inv_def ran_def)
  with t_reset.hyps have sb': "send_ok sb'" "sb_write_off sb' + u = sb_write_off sb" by auto
  have c: "tb_max t < 2 ^ 62" "tb_tx t \<le> tb_max t" "tb_cap t = tb_max t - tb_tx t" "total_written (tb_sends t) \<le> tb_tx t"
    "finite (dom (tb_sends t))" "\<forall>sb \<in> ran (tb_sends t). send_ok sb" "params_ok (tb_peer t)"
    using t_reset.prems by (simp_all add: credit_inv_def)
  have "total_written ((tb_sends t)(sid \<mapsto> sb')) + u = total_written (tb_sends t)"
    using total_written_upd [OF c(5), of sid sb'] t_reset.hyps(1) sb'(2) by simp
  then have "total_written ((tb_sends t)(sid \<mapsto> sb')) \<le> tb_tx t - u" "tb_tx t - u \<le> tb_max t" using c(2,4) by simp_all
  then show ?case using c(1,5,7) ran_upd [OF c(6) sb'(1), of sid] by (simp add: credit_inv_def sub64_nowrap)
next
  case (t_create t sid cc m)
  have c: "total_written (tb_sends t) \<le> tb_tx t" "finite (dom (tb_sends t))" "\<forall>sb \<in> ran (tb_sends t). send_ok sb" "params_ok (tb_peer t)"
    using t_create.prems by (simp_all add: credit_inv_def)
  have "total_written ((tb_sends t)(sid \<mapsto> sb_new m)) = total_written (tb_sends t)"
    using total_written_upd [OF c(2), of sid "sb_new m"] t_create.hyps(1) by (simp add: sb_new_def)
  moreover have "send_ok (sb_new m)" using t_create.hyps(5) c(4) by (intro send_ok_new) blast
  ultimately show ?case using t_create.prems ran_upd [OF c(3), of "sb_new m" sid] by (simp add: credit_inv_def)
next
  case (t_destroy t sid)
  have c: "total_written (tb_sends t) \<le> tb_tx t" "finite (dom (tb_sends t))" "\<forall>sb \<in> ran (tb_sends t). send_ok sb"
    using t_destroy by (simp_all add: credit_inv_def)
  have "\<forall>sb \<in> ran ((tb_sends t)(sid := None)). send_ok sb" using c(3) by (auto simp: ran_def)
  then show ?case using t_destroy total_written_del [OF c(2), of sid] by (simp add: credit_inv_def)
next
  case (t_max_data m t)
  then show ?case by (auto simp: credit_inv_def sub64_nowrap)
qed (simp_all add: credit_inv_def)

lemma cc_same_inv: "cc_same cc cc' \<Longrightarrow> cc_inv s (cc, ids) \<Longrightarrow> cc_inv s (cc', ids)"
  unfolding cc_same_def cc_inv_def kind_inv_def by simp

lemma is_available_seq:
  assumes "cc_inv s (cc, ids)"
  shows "is_available sid s cc \<longleftrightarrow> drop_bit 2 sid \<in> {..<cc_limit (is_local sid s) (is_bidi sid) cc} - seqs s (is_local sid s) (is_bidi sid) ids"
proof -
  have "kind_inv s cc ids (is_local sid s) (is_bidi sid)" using assms by (simp add: cc_inv_def)
  note k = kind_invD [OF this]
  show ?thesis unfolding is_available_kind urs.mem_iff [OF k(1)] k(7) ..
qed

lemma ids_step: "tstep B t t' \<Longrightarrow> ids_inv t \<Longrightarrow> ids_inv t'"
proof (induction rule: tstep.induct)
  case (t_create t sid cc m)
  have inv: "cc_inv (tb_server t) (tb_cc t, tb_ids t)" "distinct (tb_ids t)" using t_create.prems by (simp_all add: ids_inv_def)
  have "cc_inv (tb_server t) (cc_step (tb_server t) (tb_cc t, tb_ids t) (CcOpen sid))"
    using cc_open_inv [OF inv(1) t_create.hyps(2)] .
  then have "cc_inv (tb_server t) (remove_avail_id sid (tb_server t) cc, sid # tb_ids t)" using t_create.hyps(4) by simp
  moreover have "sid \<notin> set (tb_ids t)"
  proof
    assume "sid \<in> set (tb_ids t)"
    then have "drop_bit 2 sid \<in> seqs (tb_server t) (is_local sid (tb_server t)) (is_bidi sid) (tb_ids t)" by (auto simp: seqs_def)
    with t_create.hyps(3) is_available_seq [OF inv(1), of sid] show False by simp
  qed
  ultimately show ?case using t_create.prems t_create.hyps(2) by (auto simp: ids_inv_def)
next
  case (t_peer_max n t bidi)
  then show ?case by (simp add: ids_inv_def cc_peer_max_inv)
next
  case (t_local_max t bidi)
  then show ?case by (simp add: ids_inv_def cc_local_max_inv)
next
  case (t_credit t bidi d)
  then show ?case by (simp add: ids_inv_def cc_credit_inv)
next
  case (t_blocked t cc)
  then show ?case using cc_same_inv by (simp add: ids_inv_def)
qed (auto simp: ids_inv_def)

lemma tstep_ids: "tstep B t t' \<Longrightarrow> set (tb_ids t) \<subseteq> set (tb_ids t') \<and> tb_server t' = tb_server t"
  by (induction rule: tstep.induct) auto

lemma tstep_max: "tstep B t t' \<Longrightarrow> tb_max t \<le> B \<Longrightarrow> tb_max t' \<le> B"
  by (induction rule: tstep.induct) auto

text \<open>An identifier whose stream was removed is not used again.\<close>

lemma tstep_dead:
  "tstep B t t' \<Longrightarrow> ids_inv t \<Longrightarrow> sid \<in> set (tb_ids t) \<Longrightarrow> tb_sends t sid = None \<Longrightarrow> tb_sends t' sid = None"
proof (induction rule: tstep.induct)
  case (t_create t sid' cc m)
  have "sid' \<notin> set (tb_ids t)"
  proof
    assume "sid' \<in> set (tb_ids t)"
    then have "drop_bit 2 sid' \<in> seqs (tb_server t) (is_local sid' (tb_server t)) (is_bidi sid') (tb_ids t)" by (auto simp: seqs_def)
    with t_create.hyps(3) is_available_seq [of "tb_server t" "tb_cc t" "tb_ids t" sid'] t_create.prems(1) show False by (simp add: ids_inv_def)
  qed
  with t_create.prems show ?case by auto
qed auto

lemma tsteps_inv:
  assumes "(tstep B)\<^sup>*\<^sup>* t t'"
  shows "credit_inv t \<Longrightarrow> credit_inv t'" "ids_inv t \<Longrightarrow> ids_inv t'" "set (tb_ids t) \<subseteq> set (tb_ids t')" "tb_server t' = tb_server t"
    "tb_max t \<le> B \<Longrightarrow> tb_max t' \<le> B"
  using assms
proof (induction rule: rtranclp_induct)
  case (step t1 t2)
  { case 1 then show ?case using step credit_step by blast }
  { case 2 then show ?case using step ids_step by blast }
  { case 3 then show ?case using step tstep_ids by blast }
  { case 4 then show ?case using step tstep_ids by metis }
  { case 5 then show ?case using step tstep_max by blast }
qed auto

lemma tsteps_dead:
  assumes "(tstep B)\<^sup>*\<^sup>* t t'" "ids_inv t" "sid \<in> set (tb_ids t)" "tb_sends t sid = None"
  shows "tb_sends t' sid = None"
  using assms
proof (induction rule: rtranclp_induct)
  case (step t1 t2)
  then have "ids_inv t1" "sid \<in> set (tb_ids t1)" using tsteps_inv(2,3) [OF step.hyps(1)] by auto
  with step show ?case using tstep_dead by blast
qed

end
