(* ===== verification/StreamMapProps.thy ===== *)
theory StreamMapProps
  imports StreamTable
begin

text \<open>
  The properties of the stream table of \<open>src/connection/stream.rs\<close>: every operation is simulated by
  steps of the abstract table, so the table's invariants hold along every run.
\<close>

subsection \<open>Simulation\<close>

definition table_of :: "u64 list \<Rightarrow> stream_map \<Rightarrow> table" where
  "table_of ids sm =
     \<lparr>tb_server = sm_is_server sm, tb_sends = (\<lambda>sid. map_option st_send (sm_streams sm sid)),
      tb_cc = sm_concurrency sm, tb_max = sc_max_data (sm_send_capacity sm), tb_tx = sc_tx_data (sm_send_capacity sm),
      tb_cap = sc_capacity (sm_send_capacity sm), tb_peer = sm_peer_params sm, tb_ids = ids\<rparr>"

definition sim :: "nat \<Rightarrow> stream_map \<Rightarrow> stream_map \<Rightarrow> bool" where
  "sim B sm sm' \<longleftrightarrow> (\<forall>ids. \<exists>ids'. (tstep B)\<^sup>*\<^sup>* (table_of ids sm) (table_of ids' sm'))"

lemma sim_same: "(\<And>ids. table_of ids sm' = table_of ids sm) \<Longrightarrow> sim B sm sm'"
  by (auto simp: sim_def)

lemma sim_refl [simp]: "sim B sm sm"
  by (simp add: sim_same)

lemma sim_trans [trans]: "sim B a b \<Longrightarrow> sim B b c \<Longrightarrow> sim B a c"
  unfolding sim_def by (meson rtranclp_trans)

lemma sim_step: "(\<And>ids. \<exists>ids'. tstep B (table_of ids sm) (table_of ids' sm')) \<Longrightarrow> sim B sm sm'"
  unfolding sim_def by (meson r_into_rtranclp)

lemma sim_cong: "sim B sm sm1 \<Longrightarrow> (\<And>ids. table_of ids sm2 = table_of ids sm1) \<Longrightarrow> sim B sm sm2"
  unfolding sim_def by simp

lemma table_of_marks [simp]:
  "table_of ids (mark_readable sid b sm) = table_of ids sm" "table_of ids (mark_writable sid b sm) = table_of ids sm"
  "table_of ids (mark_almost_full sid b sm) = table_of ids sm" "table_of ids (mark_blocked sid b n sm) = table_of ids sm"
  "table_of ids (mark_reset sid b e f sm) = table_of ids sm" "table_of ids (mark_stopped sid b e sm) = table_of ids sm"
  "table_of ids (sm_push_sendable sid u inc sm) = table_of ids sm" "table_of ids (update_data_blocked_at x sm) = table_of ids sm"
  "table_of ids (consume_data n sm) = table_of ids sm" "table_of ids (sm\<lparr>sm_flow_control := fc\<rparr>) = table_of ids sm"
  "table_of ids (sm\<lparr>sm_rx_almost_full := b\<rparr>) = table_of ids sm" "table_of ids (sm\<lparr>sm_events := ev\<rparr>) = table_of ids sm"
  "table_of ids (sm\<lparr>sm_writable := w\<rparr>) = table_of ids sm" "table_of ids (sm\<lparr>sm_next_stream_id_bidi := n\<rparr>) = table_of ids sm"
  "table_of ids (sm\<lparr>sm_next_stream_id_uni := n\<rparr>) = table_of ids sm"
  by (simp_all add: table_of_def mark_readable_def mark_writable_def mark_almost_full_def mark_blocked_def mark_reset_def
      mark_stopped_def sm_push_sendable_def update_data_blocked_at_def sc_update_blocked_at_def consume_data_def Let_def)

lemma streams_marks [simp]:
  "sm_streams (mark_readable sid b sm) = sm_streams sm" "sm_streams (mark_writable sid b sm) = sm_streams sm"
  "sm_streams (mark_almost_full sid b sm) = sm_streams sm" "sm_streams (mark_blocked sid b n sm) = sm_streams sm"
  "sm_streams (sm_push_sendable sid u inc sm) = sm_streams sm" "sm_streams (update_data_blocked_at x sm) = sm_streams sm"
  "sm_streams (put_stream sid st sm) = (sm_streams sm)(sid \<mapsto> st)"
  by (simp_all add: mark_readable_def mark_writable_def mark_almost_full_def mark_blocked_def sm_push_sendable_def
      update_data_blocked_at_def put_stream_def)

lemma table_of_put: "table_of ids (put_stream sid st sm)
    = (table_of ids sm)\<lparr>tb_sends := (tb_sends (table_of ids sm))(sid \<mapsto> st_send st)\<rparr>"
  by (auto simp: table_of_def put_stream_def)

lemma tb_sends_of: "tb_sends (table_of ids sm) sid = map_option st_send (sm_streams sm sid)"
  by (simp add: table_of_def)

lemma table_of_put_same:
  assumes "sm_streams sm sid = Some st0" "st_send st = st_send st0"
  shows "table_of ids (put_stream sid st sm) = table_of ids sm"
  using assms by (simp add: table_of_put tb_sends_of fun_upd_idem)

lemma sim_put_send:
  assumes "sm_streams sm sid = Some st0"
    "send_ok (st_send st0) \<Longrightarrow> send_ok (st_send st) \<and> sb_write_off (st_send st) = sb_write_off (st_send st0)"
  shows "sim B sm (put_stream sid st sm)"
proof (rule sim_step)
  fix ids
  show "\<exists>ids'. tstep B (table_of ids sm) (table_of ids' (put_stream sid st sm))"
    unfolding table_of_put
    by (rule exI [of _ ids]) (rule t_send [where sb = "st_send st0"], use assms in \<open>auto simp: tb_sends_of\<close>)
qed

lemma table_of_destroy: "table_of ids (stream_destroy sid sm) = (table_of ids sm)\<lparr>tb_sends := (tb_sends (table_of ids sm))(sid := None)\<rparr>"
  by (auto simp: table_of_def stream_destroy_def)

lemma sim_destroy: "sim B sm (stream_destroy sid sm)"
  by (rule sim_step) (metis table_of_destroy t_destroy)

lemma sim_cc:
  assumes "\<And>t. tstep B t (t\<lparr>tb_cc := f (tb_cc t)\<rparr>)"
  shows "sim B sm (sm\<lparr>sm_concurrency := f (sm_concurrency sm)\<rparr>)"
proof (rule sim_step)
  fix ids
  have "table_of ids (sm\<lparr>sm_concurrency := f (sm_concurrency sm)\<rparr>) = (table_of ids sm)\<lparr>tb_cc := f (tb_cc (table_of ids sm))\<rparr>"
    by (simp add: table_of_def)
  then show "\<exists>ids'. tstep B (table_of ids sm) (table_of ids' (sm\<lparr>sm_concurrency := f (sm_concurrency sm)\<rparr>))"
    using assms [of "table_of ids sm"] by (intro exI [of _ ids]) simp
qed

lemma sim_mark_closed: "sim B sm (sm_mark_closed sid loc sm)"
proof (cases "sm_is_closed sid sm")
  case False
  define sm1 where "sm1 = (if \<not> loc then sm\<lparr>sm_concurrency := increase_max_streams_credits (is_bidi sid) 1 (sm_concurrency sm)\<rparr> else sm)"
  define sm2 where "sm2 = mark_writable sid False (mark_readable sid False sm1)"
  define sm3 where "sm3 = (case sm_streams sm2 sid of Some st \<Rightarrow> put_stream sid (st_mark_closed st) sm2 | None \<Rightarrow> sm2)"
  have s1: "sim B sm sm1" unfolding sm1_def
    by (cases loc) (use sim_cc [of _ "increase_max_streams_credits (is_bidi sid) 1" sm, OF t_credit] in simp_all)
  have t3: "table_of ids sm3 = table_of ids sm1" for ids
  proof (cases "sm_streams sm2 sid")
    case None
    then show ?thesis by (simp add: sm3_def sm2_def)
  next
    case (Some st)
    then have "table_of ids (put_stream sid (st_mark_closed st) sm2) = table_of ids sm2"
      by (rule table_of_put_same) (simp add: st_mark_closed_def)
    then show ?thesis using Some by (simp add: sm3_def sm2_def)
  qed
  have "sm_mark_closed sid loc sm = (case ev_add (StreamClosed sid) (sm_events sm3) of (ev, b) \<Rightarrow>
      if b then sm3\<lparr>sm_events := ev\<rparr> else stream_destroy sid (sm3\<lparr>sm_events := ev\<rparr>))"
    using False unfolding sm_mark_closed_def Let_def sm1_def sm2_def sm3_def by simp
  moreover have "sim B sm (sm3\<lparr>sm_events := ev\<rparr>)" for ev
    by (rule sim_cong [OF s1]) (simp add: t3)
  ultimately show ?thesis using sim_trans [OF _ sim_destroy] by (simp split: prod.split)
qed (simp add: sm_mark_closed_def)

lemma max_tx_small: "params_ok peer \<Longrightarrow> max_stream_data_limit loc bidi lp peer = (rx, tx) \<Longrightarrow> tx < 2 ^ 62"
  by (auto simp: max_stream_data_limit_def params_ok_def split: if_splits)

lemma check_ok_not_limited:
  assumes "check_concurrency_limits sid s cc = (cc', Inr ())"
  shows "\<not> is_limited sid s cc"
  using check_limits_kind(4) [OF assms] by (auto simp: is_limited_kind split: if_splits)

lemma check_err_same:
  assumes "check_concurrency_limits sid s cc = (cc', Inl e)"
  shows "cc_same cc cc'"
  unfolding cc_same_def using check_limits_kind(1,2,3,5) [OF assms] by simp

lemma sim_create:
  assumes none: "sm_streams sm sid = None" and nc: "\<not> sm_is_closed sid sm" and small: "sid \<le> VINT_MAX"
    and ck: "check_concurrency_limits sid (sm_is_server sm) (sm_concurrency sm) = (cc, Inr ())"
    and lim: "params_ok (sm_peer_params sm) \<Longrightarrow> tx < 2 ^ 62"
    and eq: "\<And>ids. table_of ids sm' = (table_of ids sm)\<lparr>tb_sends := (tb_sends (table_of ids sm))(sid \<mapsto> sb_new tx),
      tb_cc := remove_avail_id sid (sm_is_server sm) cc\<rparr>"
  shows "sim B sm sm'"
proof (rule sim_step)
  fix ids
  have "is_available sid (sm_is_server sm) (sm_concurrency sm)"
    using nc none check_ok_not_limited [OF ck] by (simp add: sm_is_closed_def)
  then have "tstep B (table_of ids sm) ((table_of ids sm)\<lparr>tb_sends := (tb_sends (table_of ids sm))(sid \<mapsto> sb_new tx),
      tb_cc := remove_avail_id sid (tb_server (table_of ids sm)) cc, tb_ids := sid # tb_ids (table_of ids sm)\<rparr>)"
    using none small ck lim by (intro t_create) (simp_all add: tb_sends_of table_of_def VINT_MAX_def)
  moreover have "table_of (sid # ids) sm' = (table_of ids sm')\<lparr>tb_ids := sid # ids\<rparr>" by (simp add: table_of_def)
  ultimately show "\<exists>ids'. tstep B (table_of ids sm) (table_of ids' sm')"
    by (intro exI [of _ "sid # ids"]) (simp add: eq, simp add: table_of_def)
qed

lemma sim_get_or_create:
  assumes g: "get_or_create sid loc sm = (sm1, res)"
  shows "sim B sm sm1" "\<And>st. res = Inr st \<Longrightarrow> sm_streams sm1 sid = Some st"
proof -
  have "sim B sm sm1 \<and> (\<forall>st. res = Inr st \<longrightarrow> sm_streams sm1 sid = Some st)"
  proof (cases "sid > VINT_MAX \<or> sm_streams sm sid \<noteq> None \<or> sm_is_closed sid sm \<or> loc \<noteq> is_local sid (sm_is_server sm)")
    case True
    then show ?thesis using g by (auto simp: get_or_create_def split: if_splits option.splits)
  next
    case False
    then have f: "sid \<le> VINT_MAX" "sm_streams sm sid = None" "\<not> sm_is_closed sid sm" "loc = is_local sid (sm_is_server sm)" by auto
    obtain cc r where ck: "check_concurrency_limits sid (sm_is_server sm) (sm_concurrency sm) = (cc, r)" by fastforce
    obtain rx tx where lim: "max_stream_data_limit loc (is_bidi sid) (sm_local_params sm) (sm_peer_params sm) = (rx, tx)" by fastforce
    show ?thesis
    proof (cases r)
      case (Inl e)
      then have "sm1 = sm\<lparr>sm_concurrency := cc\<rparr>" "res = Inl e" using g f ck lim by (simp_all add: get_or_create_def)
      moreover have "sim B sm (sm\<lparr>sm_concurrency := cc\<rparr>)"
      proof (rule sim_step)
        fix ids
        have "tstep B (table_of ids sm) ((table_of ids sm)\<lparr>tb_cc := cc\<rparr>)"
          using check_err_same [OF ck [unfolded Inl]] by (intro t_blocked) (simp add: table_of_def)
        then show "\<exists>ids'. tstep B (table_of ids sm) (table_of ids' (sm\<lparr>sm_concurrency := cc\<rparr>))"
          by (intro exI [of _ ids]) (simp add: table_of_def)
      qed
      ultimately show ?thesis by simp
    next
      case (Inr u)
      then have ck': "check_concurrency_limits sid (sm_is_server sm) (sm_concurrency sm) = (cc, Inr ())" using ck by simp
      let ?st = "st_new (is_bidi sid) loc tx rx (sm_max_stream_window sm)"
      let ?a = "sm\<lparr>sm_concurrency := remove_avail_id sid (sm_is_server sm) cc\<rparr>"
      have res: "res = Inr ?st" using g f ck' lim by (simp add: get_or_create_def Let_def)
      have eqs: "sm_is_server sm1 = sm_is_server sm" "sm_streams sm1 = (sm_streams sm)(sid \<mapsto> ?st)"
        "sm_concurrency sm1 = remove_avail_id sid (sm_is_server sm) cc" "sm_send_capacity sm1 = sm_send_capacity sm"
        "sm_peer_params sm1 = sm_peer_params sm"
        using g f ck' lim by (cases "is_bidi sid"; cases "st_is_writable ?st"; force simp: get_or_create_def Let_def put_stream_def)+
      have "sim B sm sm1"
        by (rule sim_create [OF f(2,3,1) ck', of tx])
          (use max_tx_small [OF _ lim] in \<open>auto simp: table_of_def eqs st_new_def\<close>)
      then show ?thesis using res eqs(2) by simp
    qed
  qed
  then show "sim B sm sm1" "\<And>st. res = Inr st \<Longrightarrow> sm_streams sm1 sid = Some st" by blast+
qed

subsection \<open>Every operation is simulated\<close>

lemma ignore_closed:
  "(case g of (sm1, Inl (Err Done)) \<Rightarrow> (sm1, Inr ()) | (sm1, Inl e) \<Rightarrow> (sm1, Inl e) | (sm1, Inr st) \<Rightarrow> k sm1 st)
   = (case g of (sm1, Inl e) \<Rightarrow> (sm1, if e = Err Done then Inr () else Inl e) | (sm1, Inr st) \<Rightarrow> k sm1 st)"
  by (cases g; cases "snd g"; simp split: fault.split error.split)

lemma sim_goc:
  assumes "\<And>sm1 st. sm_streams sm1 sid = Some st \<Longrightarrow> sim B sm1 (fst (k sm1 st))"
  shows "sim B sm (fst (case get_or_create sid loc sm of (sm1, Inl e) \<Rightarrow> (sm1, f e) | (sm1, Inr st) \<Rightarrow> k sm1 st))"
proof -
  obtain sm1 res where g: "get_or_create sid loc sm = (sm1, res)" by fastforce
  note s = sim_get_or_create [OF g]
  show ?thesis
  proof (cases res)
    case (Inl e)
    then show ?thesis using s(1) g by simp
  next
    case (Inr st)
    then show ?thesis using sim_trans [OF s(1) assms [OF s(2) [OF Inr]]] g by simp
  qed
qed

lemma sim_guard: "sim B sm (fst y) \<Longrightarrow> sim B sm (fst (if c then (sm, x) else y))"
  by simp

lemma sim_set_priority: "sim B sm (fst (stream_set_priority sid u inc sm))"
  unfolding stream_set_priority_def ignore_closed
  by (rule sim_goc) (auto intro!: sim_same simp: table_of_put_same)

lemma sim_bidi_new: "sim B sm (fst (stream_bidi_new u inc sm))" "sim B sm (fst (stream_uni_new u inc sm))"
proof -
  have "fst (stream_bidi_new u inc sm) = fst (stream_set_priority (sm_next_stream_id_bidi sm) u inc sm)"
    "fst (stream_uni_new u inc sm) = fst (stream_set_priority (sm_next_stream_id_uni sm) u inc sm)"
    by (simp_all add: stream_bidi_new_def stream_uni_new_def Let_def split: prod.split sum.split)
  then show "sim B sm (fst (stream_bidi_new u inc sm))" "sim B sm (fst (stream_uni_new u inc sm))"
    by (simp_all add: sim_set_priority)
qed

lemma sim_want: "sim B sm (fst (want_write sid b sm))" "sim B sm (fst (want_read sid b sm))"
  by (auto intro!: sim_same table_of_put_same simp: want_write_def want_read_def st_mark_wantwrite_def st_mark_wantread_def
      split: option.split prod.split)

lemma sim_close_if:
  "sim B sm sm1 \<Longrightarrow> sim B sm (if c then sm_mark_closed sid loc sm1 else sm1)"
  using sim_trans [OF _ sim_mark_closed] by simp

lemma sim_read: "sim B sm (fst (stream_read sid cap sm))"
proof (cases "sm_streams sm sid")
  case None
  then show ?thesis by (simp add: stream_read_def)
next
  case (Some st)
  obtain rv res where rd: "rv_read cap (st_recv st) = (rv, res)" by fastforce
  let ?st = "st\<lparr>st_recv := rv\<rparr>"
  have p: "table_of ids (put_stream sid ?st sm) = table_of ids sm" for ids by (rule table_of_put_same [OF Some]) simp
  show ?thesis
  proof (cases "(\<not> is_bidi sid \<and> is_local sid (sm_is_server sm)) \<or> \<not> st_is_readable st")
    case True
    then show ?thesis using Some by (auto simp: stream_read_def)
  next
    case go: False
    show ?thesis
    proof (cases res)
      case (Inl e)
      have "sim B sm (if st_is_complete ?st then sm_mark_closed sid (st_local st) (put_stream sid ?st sm) else put_stream sid ?st sm)"
        by (rule sim_close_if) (rule sim_same, rule p)
      from sim_cong [OF this] show ?thesis using Some go rd Inl by (cases e) (simp_all add: stream_read_def Let_def)
    next
      case (Inr x)
      obtain bs fin where x: "x = (bs, fin)" by (cases x)
      let ?a = "if rv_should_send_max_data rv then mark_almost_full sid True (put_stream sid ?st sm) else put_stream sid ?st sm"
      let ?b = "consume_data (length bs) ?a"
      let ?c = "if \<not> st_is_readable ?st then mark_readable sid False ?b else ?b"
      have "sim B sm (if st_is_complete ?st then sm_mark_closed sid (st_local st) ?c else ?c)"
        by (rule sim_close_if) (rule sim_same, simp add: p)
      then show ?thesis using Some go rd Inr x by (simp add: stream_read_def Let_def)
    qed
  qed
qed

lemma table_of_note_blocked:
  assumes "sm_streams sm sid = Some st0"
  obtains sb where "\<And>ids. table_of ids (note_blocked sid st short sm) = (table_of ids sm)\<lparr>tb_sends := (tb_sends (table_of ids sm))(sid \<mapsto> sb)\<rparr>"
    "send_ok sb \<longleftrightarrow> send_ok (st_send st)" "sb_write_off sb = sb_write_off (st_send st)"
  by (rule that [of "st_send (if short then if sb_blocked_at (st_send st) \<noteq> Some (sb_max_data (st_send st))
        then st\<lparr>st_send := sb_update_blocked_at (Some (sb_max_data (st_send st))) (st_send st)\<rparr> else st
        else st\<lparr>st_send := sb_update_blocked_at None (st_send st)\<rparr>)"])
    (simp_all add: note_blocked_def table_of_put Let_def)

lemma goc_capacity: "get_or_create sid loc sm = (sm1, res) \<Longrightarrow> sm_send_capacity sm1 = sm_send_capacity sm"
  unfolding get_or_create_def Let_def put_stream_def
  by (auto split: if_splits option.splits prod.splits sum.splits)

lemma sim_written:
  assumes st: "sm_streams sm sid = Some st" and len: "length buf < 2 ^ 62"
    and w: "sb_write buf fin (st_send st) = (sb, Inr written)"
    and cap: "length buf \<le> sc_capacity (sm_send_capacity sm)"
    and eq: "\<And>ids. table_of ids sm' = (table_of ids (note_blocked sid (st\<lparr>st_send := sb\<rparr>) short sm))
      \<lparr>tb_cap := sub64 (sc_capacity (sm_send_capacity sm)) written, tb_tx := add64 (sc_tx_data (sm_send_capacity sm)) written\<rparr>"
  shows "sim B sm sm'"
proof (rule sim_step)
  fix ids
  obtain sb' where nb: "\<And>ids. table_of ids (note_blocked sid (st\<lparr>st_send := sb\<rparr>) short sm)
      = (table_of ids sm)\<lparr>tb_sends := (tb_sends (table_of ids sm))(sid \<mapsto> sb')\<rparr>"
    "send_ok sb' \<longleftrightarrow> send_ok sb" "sb_write_off sb' = sb_write_off sb"
    using table_of_note_blocked [OF st, of "st\<lparr>st_send := sb\<rparr>" short] by auto
  have c: "tb_cap (table_of ids sm) = sc_capacity (sm_send_capacity sm)" "tb_tx (table_of ids sm) = sc_tx_data (sm_send_capacity sm)"
    by (simp_all add: table_of_def)
  have "tstep B (table_of ids sm) ((table_of ids sm)\<lparr>tb_sends := (tb_sends (table_of ids sm))(sid \<mapsto> sb'),
      tb_cap := sub64 (tb_cap (table_of ids sm)) written, tb_tx := add64 (tb_tx (table_of ids sm)) written\<rparr>)"
  proof (rule t_write)
    show "tb_sends (table_of ids sm) sid = Some (st_send st)" using st by (simp add: tb_sends_of)
    assume "send_ok (st_send st)"
    from send_ok_write [OF this len w] show "send_ok sb' \<and> sb_write_off sb' = sb_write_off (st_send st) + written \<and> written \<le> tb_cap (table_of ids sm)"
      using nb(2,3) cap c(1) by simp
  qed
  then show "\<exists>ids'. tstep B (table_of ids sm) (table_of ids' sm')"
    by (intro exI [of _ ids]) (simp add: eq nb(1) c)
qed

lemma note_blocked_capacity: "sm_send_capacity (note_blocked sid st short sm) = sm_send_capacity sm"
  by (simp add: note_blocked_def Let_def mark_blocked_def put_stream_def)

lemma sim_write:
  assumes len: "length buf < 2 ^ 62"
  shows "sim B sm (fst (stream_write sid buf fin sm))"
proof (cases "\<not> is_bidi sid \<and> \<not> is_local sid (sm_is_server sm)")
  case True
  then show ?thesis by (simp add: stream_write_def)
next
  case dir: False
  define sm0 where "sm0 = (if max_tx_data_left sm < length buf
    then update_data_blocked_at (Some (sc_max_data (sm_send_capacity sm))) sm else sm)"
  have s0: "sim B sm sm0" by (rule sim_same) (simp add: sm0_def)
  obtain sm1 res where g: "get_or_create sid True sm0 = (sm1, res)" by fastforce
  have s1: "sim B sm sm1" using sim_trans [OF s0 sim_get_or_create(1) [OF g]] .
  have cap: "sc_capacity (sm_send_capacity sm0) = sc_capacity (sm_send_capacity sm1)" using goc_capacity [OF g] by simp
  show ?thesis
  proof (cases res)
    case (Inl e)
    then show ?thesis using dir g s1 by (simp add: stream_write_def Let_def sm0_def [symmetric])
  next
    case (Inr st)
    have st: "sm_streams sm1 sid = Some st" using sim_get_or_create(2) [OF g Inr] .
    let ?c = "sc_capacity (sm_send_capacity sm1)"
    define b where "b = (if ?c < length buf then take ?c buf else buf)"
    define f where "f = (if ?c < length buf then False else fin)"
    have bl: "length b \<le> ?c" "length b < 2 ^ 62" using len by (auto simp: b_def)
    show ?thesis
    proof (cases "?c = 0 \<and> buf \<noteq> []")
      case True
      let ?a = "if st_is_writable st then mark_writable sid True sm1 else sm1"
      have "sim B sm ?a" by (rule sim_cong [OF s1]) simp
      then have "sim B sm (fst (want_write sid True ?a))" using sim_trans sim_want(1) by blast
      then show ?thesis using dir g Inr True cap by (simp add: stream_write_def Let_def sm0_def [symmetric])
    next
      case go: False
      obtain sb r where w: "sb_write b f (st_send st) = (sb, r)" by fastforce
      show ?thesis
      proof (cases r)
        case (Inl e)
        have "send_ok (st_send st) \<Longrightarrow> sb = st_send st" using send_ok_write [OF _ bl(2) w] Inl by simp
        then have "sim B sm1 (put_stream sid (st\<lparr>st_send := sb\<rparr>) sm1)" by (intro sim_put_send [OF st]) auto
        from sim_cong [OF sim_trans [OF s1 this]] have "sim B sm (mark_writable sid False (put_stream sid (st\<lparr>st_send := sb\<rparr>) sm1))" by simp
        then show ?thesis
          unfolding stream_write_def Let_def sm0_def [symmetric] if_not_P [OF dir] g \<open>res = Inr st\<close> prod.case sum.case cap
            if_not_P [OF go] b_def [symmetric] f_def [symmetric] w Inl by simp
      next
        case (Inr written)
        let ?st = "st\<lparr>st_send := sb\<rparr>"
        let ?m2 = "note_blocked sid ?st (written < length b) sm1"
        define m3 where "m3 = (if (st_is_sendable ?st \<or> length b = 0 \<and> f) \<and> \<not> st_is_sendable st
          then sm_push_sendable sid (st_urgency st) (st_incremental st) ?m2 else ?m2)"
        define m4 where "m4 = (if \<not> st_is_writable ?st then mark_writable sid False m3
          else if st_is_writable st \<and> ?c < length buf then mark_writable sid True m3 else m3)"
        define m5 where "m5 = m4\<lparr>sm_send_capacity := (sm_send_capacity m4)\<lparr>sc_capacity := sub64 (sc_capacity (sm_send_capacity m4)) written,
          sc_tx_data := add64 (sc_tx_data (sm_send_capacity m4)) written\<rparr>\<rparr>"
        have c4: "sm_send_capacity m4 = sm_send_capacity sm1" "table_of ids m4 = table_of ids ?m2" for ids
          by (simp_all add: m4_def m3_def mark_writable_def sm_push_sendable_def note_blocked_capacity table_of_def)
        have "sim B sm1 m5"
          by (rule sim_written [OF st bl(2) w [unfolded Inr] bl(1), where short = "written < length b"])
            (simp add: m5_def c4 [symmetric], simp add: table_of_def)
        with s1 have s5: "sim B sm m5" by (rule sim_trans)
        then have "sim B sm (if written < length buf then fst (want_write sid True m5) else m5)"
          using sim_trans [OF _ sim_want(1)] by simp
        then show ?thesis
          unfolding stream_write_def Let_def sm0_def [symmetric] if_not_P [OF dir] g \<open>res = Inr st\<close> prod.case sum.case cap
            if_not_P [OF go] b_def [symmetric] f_def [symmetric] w Inr m3_def [symmetric] m4_def [symmetric] m5_def [symmetric]
          by (auto split: if_splits)
      qed
    qed
  qed
qed

lemma sim_claw_back:
  assumes st: "sm_streams sm sid = Some st"
    and sb: "send_ok (st_send st) \<Longrightarrow> send_ok sb \<and> sb_write_off sb + u = sb_write_off (st_send st)"
  shows "sim B sm (claw_back u (put_stream sid (st\<lparr>st_send := sb\<rparr>) sm))"
proof (rule sim_step)
  fix ids
  have "tstep B (table_of ids sm) ((table_of ids sm)\<lparr>tb_sends := (tb_sends (table_of ids sm))(sid \<mapsto> sb),
      tb_tx := tb_tx (table_of ids sm) - u, tb_cap := sub64 (tb_max (table_of ids sm)) (tb_tx (table_of ids sm) - u)\<rparr>)"
    by (rule t_reset [where sb = "st_send st"]) (use st sb in \<open>simp_all add: tb_sends_of\<close>)
  moreover have "table_of ids (claw_back u (put_stream sid (st\<lparr>st_send := sb\<rparr>) sm))
      = (table_of ids sm)\<lparr>tb_sends := (tb_sends (table_of ids sm))(sid \<mapsto> sb),
      tb_tx := tb_tx (table_of ids sm) - u, tb_cap := sub64 (tb_max (table_of ids sm)) (tb_tx (table_of ids sm) - u)\<rparr>"
    by (auto simp: claw_back_def put_stream_def table_of_def sc_update_capacity_def Let_def)
  ultimately show "\<exists>ids'. tstep B (table_of ids sm) (table_of ids' (claw_back u (put_stream sid (st\<lparr>st_send := sb\<rparr>) sm)))"
    by (intro exI [of _ ids]) simp
qed

lemma sim_shutdown: "sim B sm (fst (stream_shutdown sid dir err sm))"
proof (cases "sm_streams sm sid")
  case None
  then show ?thesis by (simp add: stream_shutdown_def)
next
  case (Some st)
  show ?thesis
  proof (cases dir)
    case ShutdownRead
    obtain rv r where rs: "rv_shutdown (st_recv st) = (rv, r)" by fastforce
    have p: "table_of ids (put_stream sid (st\<lparr>st_recv := rv\<rparr>) sm) = table_of ids sm" for ids
      by (rule table_of_put_same [OF Some]) simp
    have "table_of ids (fst (stream_shutdown sid dir err sm)) = table_of ids sm" for ids
      using Some ShutdownRead rs p by (cases r) (simp_all add: stream_shutdown_def Let_def)
    then show ?thesis by (rule sim_same)
  next
    case ShutdownWrite
    obtain sb r where ss: "sb_shutdown (st_send st) = (sb, r)" by fastforce
    show ?thesis
    proof (cases "\<not> is_local sid (sm_is_server sm) \<and> \<not> is_bidi sid")
      case True
      then show ?thesis using Some ShutdownWrite by (simp add: stream_shutdown_def)
    next
      case False
      show ?thesis
      proof (cases r)
        case (Inl e)
        have "sim B sm (put_stream sid (st\<lparr>st_send := sb\<rparr>) sm)"
          by (rule sim_put_send [OF Some]) (use send_ok_shutdown [OF _ ss] Inl in simp)
        then show ?thesis using Some ShutdownWrite False ss Inl by (auto simp: stream_shutdown_def)
      next
        case (Inr x)
        obtain f u where x: "x = (f, u)" by (cases x)
        have "sim B sm (claw_back u (put_stream sid (st\<lparr>st_send := sb\<rparr>) sm))"
          by (rule sim_claw_back [OF Some]) (use send_ok_shutdown [OF _ ss] Inr x in simp)
        from sim_cong [OF this] show ?thesis using Some ShutdownWrite False ss Inr x
          by (simp add: stream_shutdown_def Let_def)
      qed
    qed
  qed
qed

lemma sim_writable: "sim B sm (fst (stream_writable sid len sm))"
proof (cases "sm_streams sm sid")
  case None
  then show ?thesis by (simp add: stream_writable_def stream_capacity_def)
next
  case (Some st)
  define sm1 where "sm1 = (if max_tx_data_left sm < len then update_data_blocked_at (Some (sc_max_data (sm_send_capacity sm))) sm else sm)"
  have s1: "sm_streams sm1 sid = Some st" "table_of ids sm1 = table_of ids sm" for ids using Some by (simp_all add: sm1_def)
  let ?st = "st\<lparr>st_write_thresh := max 1 len\<rparr>"
  let ?sm2 = "put_stream sid ?st sm1"
  have s2: "sm_streams ?sm2 sid = Some ?st" "table_of ids ?sm2 = table_of ids sm" for ids
    using table_of_put_same [OF s1(1), of ?st] s1(2) by simp_all
  have blk: "sim B sm (put_stream sid (?st\<lparr>st_send := sb_update_blocked_at x (st_send st)\<rparr>) ?sm2)" for x
    using sim_trans [OF sim_same sim_put_send [OF s2(1)]] s2(2) by simp
  have same: "sim B sm ?sm2" by (rule sim_same) (rule s2(2))
  have "sim B sm (fst (case sb_capacity (st_send ?st) of Inl e \<Rightarrow> (?sm2, Inl e)
     | Inr cap \<Rightarrow> if cap < len then
          let max_data = sb_max_data (st_send ?st)
          in if sb_blocked_at (st_send ?st) \<noteq> Some max_data then
               (mark_blocked sid True max_data
                  (put_stream sid (?st\<lparr>st_send := sb_update_blocked_at (Some max_data) (st_send ?st)\<rparr>) ?sm2), Inr False)
             else (?sm2, Inr False)
        else if st_is_writable ?st then (mark_writable sid True ?sm2, Inr False) else (?sm2, Inr False)))"
    using same sim_cong [OF blk] sim_cong [OF same] by (auto simp: Let_def split: sum.split)
  then show ?thesis
    unfolding stream_writable_def Let_def sm1_def [symmetric] s1(1) by (simp add: Let_def split: sum.split)
qed

subsection \<open>Frames received, acknowledged and lost\<close>

lemma sim_max_data: "max_data < 2 ^ 62 \<Longrightarrow> max_data \<le> B \<Longrightarrow> sim B sm (on_max_data_frame_received max_data sm)"
proof (rule sim_step)
  fix ids
  assume "max_data < 2 ^ 62" "max_data \<le> B"
  from t_max_data [OF this, of "table_of ids sm"]
  show "\<exists>ids'. tstep B (table_of ids sm) (table_of ids' (on_max_data_frame_received max_data sm))"
    by (intro exI [of _ ids])
      (simp add: on_max_data_frame_received_def Let_def table_of_def sc_update_capacity_def sc_update_max_data_def)
qed

lemma sim_max_stream_data:
  assumes "max_data < 2 ^ 62"
  shows "sim B sm (fst (on_max_stream_data_frame_received sid max_data sm))"
proof -
  have put: "sim B sm1 (put_stream sid (st\<lparr>st_send := sb_update_max_data max_data (st_send st)\<rparr>) sm1)"
    if "sm_streams sm1 sid = Some st" for sm1 st
    by (rule sim_put_send [OF that]) (use send_ok_max_data [OF _ assms] in simp)
  have "sim B sm1 (if a then mark_writable sid True (if b then sm_push_sendable sid u i (put_stream sid (st\<lparr>st_send := sb_update_max_data max_data (st_send st)\<rparr>) sm1)
      else put_stream sid (st\<lparr>st_send := sb_update_max_data max_data (st_send st)\<rparr>) sm1)
      else if b then sm_push_sendable sid u i (put_stream sid (st\<lparr>st_send := sb_update_max_data max_data (st_send st)\<rparr>) sm1)
      else put_stream sid (st\<lparr>st_send := sb_update_max_data max_data (st_send st)\<rparr>) sm1)"
    if "sm_streams sm1 sid = Some st" for sm1 st a b u i
    by (rule sim_cong [OF put [OF that]]) simp
  then show ?thesis
    unfolding on_max_stream_data_frame_received_def ignore_closed Let_def
    by (auto intro: sim_goc)
qed

lemma sim_max_streams: "max_streams < u64_mod \<Longrightarrow> sim B sm (fst (on_max_streams_frame_received max_streams bidi sm))"
  using sim_cc [of _ "update_peer_max_streams bidi max_streams" sm, OF t_peer_max]
  by (simp add: on_max_streams_frame_received_def)

lemma sim_blocked_frames:
  "sim B sm (fst (on_stream_data_blocked_frame_received sid n sm))" "sim B sm (fst (on_streams_blocked_frame_received n bidi sm))"
  by (simp_all add: on_stream_data_blocked_frame_received_def on_streams_blocked_frame_received_def)

lemma sim_reset: "sim B sm (fst (on_reset_stream_frame_received sid ec fs sm))"
proof -
  have put: "table_of ids (put_stream sid (st\<lparr>st_recv := rv\<rparr>) sm1) = table_of ids sm1"
    if "sm_streams sm1 sid = Some st" for ids sm1 st rv
    by (rule table_of_put_same [OF that]) simp
  have cl: "sim B sm1 (consume_data d ((if c then sm_mark_closed sid l (if b then mark_readable sid True
        (put_stream sid (st\<lparr>st_recv := rv\<rparr>) sm1) else put_stream sid (st\<lparr>st_recv := rv\<rparr>) sm1)
      else if b then mark_readable sid True (put_stream sid (st\<lparr>st_recv := rv\<rparr>) sm1) else put_stream sid (st\<lparr>st_recv := rv\<rparr>) sm1)
      \<lparr>sm_flow_control := fc\<rparr>))"
    if "sm_streams sm1 sid = Some st" for sm1 st rv c b d fc l
    by (rule sim_cong [OF sim_close_if [where c = c and loc = l and sid = sid
      and ?sm1.0 = "if b then mark_readable sid True (put_stream sid (st\<lparr>st_recv := rv\<rparr>) sm1) else put_stream sid (st\<lparr>st_recv := rv\<rparr>) sm1", OF sim_same]])
      (simp_all add: put [OF that])
  have sp: "sim B sm1 (put_stream sid (st\<lparr>st_recv := rv\<rparr>) sm1)" if "sm_streams sm1 sid = Some st" for sm1 st rv
    by (rule sim_same) (rule put [OF that])
  show ?thesis
    unfolding on_reset_stream_frame_received_def ignore_closed Let_def
  proof (rule sim_guard, rule sim_goc, goal_cases)
    case (1 sm1 st)
    obtain rv r where r: "rv_reset ec fs (st_recv st) = (rv, r)" by fastforce
    show ?case unfolding r prod.case
      by (cases r) (use sp [OF 1] cl [OF 1] in \<open>simp_all only: sum.case fst_conv if_distrib [of fst] if_cancel if_True if_False split: if_split, blast\<close>)
  qed
qed

lemma sim_stop_sending: "sim B sm (fst (on_stop_sending_frame_received sid ec sm))"
proof -
  have stop: "sim B sm1 (fst (case sb_stop ec (st_send st) of
         (sb, Inl _) \<Rightarrow> (put_stream sid (st\<lparr>st_send := sb\<rparr>) sm1, Inr ())
       | (sb, Inr (final_size, unsent)) \<Rightarrow>
           let sm2 = claw_back unsent (put_stream sid (st\<lparr>st_send := sb\<rparr>) sm1);
               sm3 = mark_reset sid True ec final_size sm2
           in (if \<not> st_is_writable st then mark_writable sid True sm3 else sm3, Inr () :: unit result)))"
    if st: "sm_streams sm1 sid = Some st" for sm1 st
  proof -
    obtain sb r where s: "sb_stop ec (st_send st) = (sb, r)" by fastforce
    show ?thesis
    proof (cases r)
      case (Inl e)
      have "sim B sm1 (put_stream sid (st\<lparr>st_send := sb\<rparr>) sm1)"
        by (rule sim_put_send [OF st]) (use send_ok_stop [OF _ s] Inl in simp)
      then show ?thesis using s Inl by simp
    next
      case (Inr x)
      obtain f u where x: "x = (f, u)" by (cases x)
      have "sim B sm1 (claw_back u (put_stream sid (st\<lparr>st_send := sb\<rparr>) sm1))"
        by (rule sim_claw_back [OF st]) (use send_ok_stop [OF _ s] Inr x in simp)
      from sim_cong [OF this] show ?thesis using s Inr x by (simp add: Let_def)
    qed
  qed
  show ?thesis
    unfolding on_stop_sending_frame_received_def ignore_closed Let_def
    by (rule sim_guard, rule sim_goc, rule stop [unfolded Let_def])
qed

lemma sim_stream_frame: "sim B sm (fst (on_stream_frame_received sid off len fin data sm))"
proof -
  have put: "table_of ids (put_stream sid (st\<lparr>st_recv := rv\<rparr>) sm1) = table_of ids sm1"
    if "sm_streams sm1 sid = Some st" for ids sm1 st rv
    by (rule table_of_put_same [OF that]) simp
  show ?thesis
    unfolding on_stream_frame_received_def ignore_closed Let_def
    by (rule sim_guard, rule sim_goc, rule sim_guard, rule sim_same) (simp add: put split: prod.split sum.split)
qed

lemma sim_close_if_done: "sim B sm sm1 \<Longrightarrow> sim B sm (close_if_done sid st sm1)"
  unfolding close_if_done_def by (rule sim_close_if)

definition sent_range :: "u64 \<Rightarrow> u64 \<Rightarrow> usize \<Rightarrow> stream_map \<Rightarrow> bool" where
  "sent_range sid off len sm = (case sm_streams sm sid of None \<Rightarrow> True | Some st \<Rightarrow> off + len \<le> sb_unsent_off (st_send st))"

lemma sim_acked:
  assumes "sent_range sid off len sm"
  shows "sim B sm (fst (on_stream_frame_acked sid off len sm))"
proof (cases "sm_streams sm sid")
  case None
  then show ?thesis by (simp add: on_stream_frame_acked_def)
next
  case (Some st)
  then have le: "off + len \<le> sb_unsent_off (st_send st)" using assms by (simp add: sent_range_def)
  show ?thesis
  proof (cases "sb_ack_and_drop off len (st_send st)")
    case None
    then show ?thesis using Some by (simp add: on_stream_frame_acked_def)
  next
    case a: (Some sb)
    have "sim B sm (put_stream sid (st\<lparr>st_send := sb\<rparr>) sm)"
      by (rule sim_put_send [OF Some]) (use send_ok_ack [OF _ le] a in auto)
    then show ?thesis using Some a by (simp add: on_stream_frame_acked_def Let_def sim_close_if_done)
  qed
qed

lemma sim_reset_acked: "sim B sm (on_reset_stream_frame_acked sid sm)"
  by (simp add: on_reset_stream_frame_acked_def sim_close_if_done split: option.split)

lemma sim_lost:
  assumes "sent_range sid off len sm"
  shows "sim B sm (on_stream_frame_lost sid off len fin sm)"
proof (cases "sm_streams sm sid")
  case None
  then show ?thesis by (simp add: on_stream_frame_lost_def)
next
  case (Some st)
  then have le: "off + len \<le> sb_unsent_off (st_send st)" using assms by (simp add: sent_range_def)
  have "sim B sm (put_stream sid (st\<lparr>st_send := sb_retransmit off len (st_send st)\<rparr>) sm)"
    by (rule sim_put_send [OF Some]) (use send_ok_lost [OF _ le] in simp)
  from sim_cong [OF this] show ?thesis using Some by (simp add: on_stream_frame_lost_def Let_def)
qed

lemma sim_lost_notes:
  "sim B sm (on_reset_stream_frame_lost sid ec fs sm)" "sim B sm (on_stop_sending_frame_lost sid ec sm)"
  "sim B sm (on_max_stream_data_frame_lost sid sm)" "sim B sm (on_max_data_frame_lost sm)"
  "sim B sm (on_stream_data_blocked_frame_lost sid n sm)" "sim B sm (on_data_blocked_frame_lost n sm)"
  by (auto intro!: sim_same simp: on_reset_stream_frame_lost_def on_stop_sending_frame_lost_def on_max_stream_data_frame_lost_def
      on_max_data_frame_lost_def on_stream_data_blocked_frame_lost_def on_data_blocked_frame_lost_def split: option.split)

lemma sim_streams_blocked_lost: "sim B sm (on_streams_blocked_frame_lost bidi n sm)"
proof -
  have "sim B sm (sm\<lparr>sm_concurrency := update_streams_blocked_at bidi (Some n) (sm_concurrency sm)\<rparr>)"
    by (rule sim_cc, rule t_blocked) (cases bidi; simp add: cc_same_def update_streams_blocked_at_def cc_limit_def cc_next_def cc_opened_def cc_avail_def)
  then show ?thesis unfolding on_streams_blocked_frame_lost_def by (cases "n = peer_max_streams bidi (sm_concurrency sm)") simp_all
qed

subsection \<open>Parameters, windows and sending\<close>

lemma sim_params:
  assumes tp: "params_ok tp" "sp_initial_max_data tp \<le> B"
  shows "sim B sm (update_peer_stream_transport_params tp sm)"
proof -
  let ?a = "sm\<lparr>sm_peer_params := tp\<rparr>"
  let ?b = "?a\<lparr>sm_send_capacity := sc_update_capacity (sc_update_max_data (sp_initial_max_data tp) (sm_send_capacity sm))\<rparr>"
  let ?c = "?b\<lparr>sm_concurrency := update_peer_max_streams True (sp_initial_max_streams_bidi tp) (sm_concurrency ?b)\<rparr>"
  let ?d = "?c\<lparr>sm_concurrency := update_peer_max_streams False (sp_initial_max_streams_uni tp) (sm_concurrency ?c)\<rparr>"
  have small: "sp_initial_max_data tp < 2 ^ 62" "sp_initial_max_streams_bidi tp < u64_mod" "sp_initial_max_streams_uni tp < u64_mod"
    using tp(1) small_u64 by (simp_all add: params_ok_def)
  have a: "sim B sm ?a"
  proof (rule sim_step)
    fix ids
    show "\<exists>ids'. tstep B (table_of ids sm) (table_of ids' ?a)"
      using t_params [OF tp(1), of _ "table_of ids sm"] by (intro exI [of _ ids]) (simp add: table_of_def)
  qed
  have b: "sim B ?a ?b"
  proof (rule sim_step)
    fix ids
    show "\<exists>ids'. tstep B (table_of ids ?a) (table_of ids' ?b)"
      using t_max_data [OF small(1) tp(2), of "table_of ids ?a"]
      by (intro exI [of _ ids]) (simp add: table_of_def sc_update_capacity_def sc_update_max_data_def)
  qed
  have c: "sim B ?b ?c" by (rule sim_cc) (rule t_peer_max [OF small(2)])
  have d: "sim B ?c ?d" by (rule sim_cc) (rule t_peer_max [OF small(3)])
  have "update_peer_stream_transport_params tp sm = ?d" by (simp add: update_peer_stream_transport_params_def)
  with sim_trans [OF sim_trans [OF sim_trans [OF a b] c] d] show ?thesis by simp
qed

lemma sim_local_max_streams: "sim B sm (sm_update_local_max_streams bidi sm)"
  unfolding sm_update_local_max_streams_def by (rule sim_cc) (rule t_local_max)

lemma sim_windows:
  "sim B sm (sm_autotune_window now srtt sm)" "sim B sm (update_max_rx_data now sm)" "sim B sm (sm_ensure_window_lower_bound n sm)"
  by (auto intro!: sim_same simp: sm_autotune_window_def update_max_rx_data_def sm_ensure_window_lower_bound_def)

lemma sim_frames_sent:
  assumes "sm_streams sm sid = Some st" "sb_read cap (st_send st) = Some (sb, bs, n, fin)"
  shows "sim B sm (put_stream sid (st\<lparr>st_send := sb\<rparr>) sm)"
  by (rule sim_put_send [OF assms(1)]) (use send_ok_read [of "st_send st" cap] assms(2) in auto)

end
