(* ===== verification/StreamWriter.thy ===== *)
theory StreamWriter
  imports StreamMapProps FrameWire
begin

text \<open>
  Filling a packet with STREAM frames: \<open>try_write_stream_frames\<close> of \<open>src/connection/connection.rs\<close>
  with the header functions of \<open>src/frame.rs\<close>, on the stream table, its queue of sendable streams and
  their send buffers.
\<close>

definition MAX_STREAM_OVERHEAD :: usize where
  "MAX_STREAM_OVERHEAD = 19"

text \<open>
  The loop: \<open>out\<close> is the output buffer, of which \<open>len\<close> bytes are written and \<open>cap\<close> are left, and \<open>frames\<close> is the
  record of the frames; \<open>retain\<close> says that the frame keeps its data for another path.  The data is read
  into the buffer behind the space reserved for the header, and the header is then written into that
  space.  A slice of the buffer out of range is a panic.  The result is the table, the buffer, the
  number of bytes written, the frames, and how the call ended.
\<close>

type_synonym written = "stream_map \<times> byte list \<times> usize \<times> frame list \<times> unit result"

partial_function (option) write_stream_loop ::
    "bool \<Rightarrow> usize \<Rightarrow> byte list \<Rightarrow> usize \<Rightarrow> frame list \<Rightarrow> stream_map \<Rightarrow> written option" where
  "write_stream_loop retain cap out len frames sm =
     (case peek_sendable (sm_sendable sm) of
        (queue, None) \<Rightarrow> Some (sm\<lparr>sm_sendable := queue\<rparr>, out, len, frames, Inr ())
      | (queue, Some stream_id) \<Rightarrow>
          (case sm_streams sm stream_id of
             None \<Rightarrow> write_stream_loop retain cap out len frames (sm\<lparr>sm_sendable := remove_sendable queue\<rparr>)
           | Some st \<Rightarrow>
               if sb_is_stopped (st_send st) then
                 write_stream_loop retain cap out len frames (sm\<lparr>sm_sendable := remove_sendable queue\<rparr>)
               else
                 let stream_off = sb_send_off (st_send st)
                 in case stream_header_wire_len stream_id stream_off of
                      None \<Rightarrow> Some (sm\<lparr>sm_sendable := queue\<rparr>, out, len, frames, Inl Panic)
                    | Some frame_hdr_len \<Rightarrow>
                        let start = len + frame_hdr_len
                        in if length out < start then Some (sm\<lparr>sm_sendable := queue\<rparr>, out, len, frames, Inl Panic)
                        else
                          (case sb_read (length out - start) (st_send st) of
                             None \<Rightarrow> Some (sm\<lparr>sm_sendable := queue\<rparr>, out, len, frames, Inl Panic)
                           | Some (sb, bs, frame_data_len, fin) \<Rightarrow>
                               let st1 = st\<lparr>st_send := sb\<rparr>;
                                   sm1 = put_stream stream_id st1 (sm\<lparr>sm_sendable := queue\<rparr>);
                                   out1 = splice start bs out
                               in case (if retain then slice start (start + frame_data_len) out1 else Some []) of
                                    None \<Rightarrow> Some (sm1, out1, len, frames, Inl Panic)
                                  | Some data \<Rightarrow>
                                      (case encode_stream_header stream_id stream_off frame_data_len fin (wb_new frame_hdr_len) of
                                         Inl e \<Rightarrow> Some (sm1, out1, len, frames, Inl e)
                                       | Inr hdr \<Rightarrow>
                                           let out2 = splice len (wb_out hdr) out1;
                                               frame_len = frame_hdr_len + frame_data_len;
                                               len1 = len + frame_len;
                                               cap1 = sub64 cap frame_len;
                                               frames1 = frames @ [Stream stream_id stream_off frame_data_len fin data];
                                               sm2 = (if \<not> st_is_sendable st1
                                                      then sm1\<lparr>sm_sendable := remove_sendable (sm_sendable sm1)\<rparr> else sm1)
                                           in if cap1 \<le> MAX_STREAM_OVERHEAD then Some (sm2, out2, len1, frames1, Inr ())
                                              else write_stream_loop retain cap1 out2 len1 frames1 sm2))))"

definition try_write_stream_frames ::
    "bool \<Rightarrow> packet_type \<Rightarrow> bool \<Rightarrow> bool result \<Rightarrow> byte list \<Rightarrow> stream_map \<Rightarrow> written option" where
  "try_write_stream_frames retain pkt_type is_closing path_active out sm =
     (if pkt_type \<noteq> OneRTT \<and> pkt_type \<noteq> ZeroRTT \<or> is_closing \<or> length out \<le> MAX_STREAM_OVERHEAD
      then Some (sm, out, 0, [], Inr ())
      else case path_active of
             Inl e \<Rightarrow> Some (sm, out, 0, [], Inl e)
           | Inr active \<Rightarrow>
               if \<not> active then Some (sm, out, 0, [], Inr ())
               else write_stream_loop retain (length out) out 0 [] sm)"

subsection \<open>Headers\<close>

lemma header_wire_len:
  assumes "sid \<le> VINT_MAX" "off \<le> VINT_MAX"
  shows "stream_header_wire_len sid off = Some (3 + vlen sid + vlen off)" "3 + vlen sid + vlen off \<le> MAX_STREAM_OVERHEAD"
proof -
  show "stream_header_wire_len sid off = Some (3 + vlen sid + vlen off)"
    using assms by (simp add: stream_header_wire_len_def encode_varint_len_eq)
  show "3 + vlen sid + vlen off \<le> MAX_STREAM_OVERHEAD" by (simp add: MAX_STREAM_OVERHEAD_def vlen_cases)
qed

definition header_bytes :: "u64 \<Rightarrow> u64 \<Rightarrow> nat \<Rightarrow> bool \<Rightarrow> byte list" where
  "header_bytes sid off n fin = varint_bytes (if fin then 0x0f else 0x0e) @ varint_bytes sid @ varint_bytes off
     @ be_bytes 2 (unat ((word_of_nat n :: 16 word) OR 0x4000))"

lemma header_emit:
  assumes "sid \<le> VINT_MAX" "off \<le> VINT_MAX"
  shows "encode_stream_header sid off n fin = emit (header_bytes sid off n fin)" "length (header_bytes sid off n fin) = 3 + vlen sid + vlen off"
proof -
  let ?l = "be_bytes 2 (unat ((word_of_nat n :: 16 word) OR 0x4000))"
  have "write_varint_with_len n 2 = emit ?l"
    by (rule ext) (simp add: write_varint_with_len_def emit_def be_bytes_def)
  then have last: "seqw [write_varint_with_len n 2] = emit ?l" using seqw_emit [OF _ seqw_Nil] by fastforce
  have "unat (if fin then (0x0e :: byte) OR 0x01 else 0x0e) = (if fin then 0x0f else 0x0e)" by simp
  then show "encode_stream_header sid off n fin = emit (header_bytes sid off n fin)"
    unfolding encode_stream_header_def header_bytes_def Let_def using last assms
    by (simp del: seqw.simps) (intro conjI impI seqw_write_varint; simp del: seqw.simps)
  show "length (header_bytes sid off n fin) = 3 + vlen sid + vlen off"
    by (simp add: header_bytes_def vlen_def [symmetric] be_bytes_def)
qed

lemma write_stream_frame_emit:
  assumes "sid \<le> VINT_MAX" "off \<le> VINT_MAX"
  shows "write_frame (Stream sid off n fin bs) = emit (header_bytes sid off n fin @ bs)"
  using seqw_emit [OF header_emit(1) [OF assms] seqw_write_bytes(1) [OF seqw_Nil, of bs]] by (simp del: seqw.simps)

subsection \<open>The loop ends\<close>

text \<open>The number of entries of the queue: the loop only removes entries.\<close>

definition sq_size :: "sendable \<Rightarrow> nat" where
  "sq_size s = sum_list (map (\<lambda>(u, q). length (pq_non_incremental q) + length (pq_incremental q)) s)"

lemma peek_size: "peek_sendable s = (q, r) \<Longrightarrow> sq_size q = sq_size s"
  by (auto simp: peek_sendable_def sq_size_def split: list.splits prod.splits)

lemma remove_size:
  assumes "peek_sendable s = (q, Some sid)"
  shows "sq_size (remove_sendable q) < sq_size s"
  using assms
  by (auto simp: peek_sendable_def remove_sendable_def sq_size_def Let_def split: list.splits prod.splits if_splits)

lemma remove_size_le: "sq_size (remove_sendable s) \<le> sq_size s"
  by (auto simp: remove_sendable_def sq_size_def Let_def split: list.splits prod.splits)

lemma peek_none: "peek_sendable s = (q, None) \<Longrightarrow> snd (peek_sendable q) = None"
  by (auto simp: peek_sendable_def split: list.splits prod.splits)

definition tbl_ok :: "stream_map \<Rightarrow> bool" where
  "tbl_ok sm \<longleftrightarrow> (\<forall>sid st. sm_streams sm sid = Some st \<longrightarrow> send_ok (st_send st) \<and> sid \<le> VINT_MAX)"

text \<open>The frame as it is kept with the sent packet.\<close>

fun kept :: "bool \<Rightarrow> frame \<Rightarrow> frame" where
  "kept retain (Stream sid off n fin bs) = Stream sid off n fin (if retain then bs else [])"
| "kept retain f = f"

definition loop_post ::
    "nat \<Rightarrow> bool \<Rightarrow> usize \<Rightarrow> byte list \<Rightarrow> usize \<Rightarrow> frame list \<Rightarrow> stream_map \<Rightarrow> written option \<Rightarrow> bool" where
  "loop_post B retain cap out len frames sm res \<longleftrightarrow> (\<exists>sm' o' fs.
     res = Some (sm', splice len o' out, len + length o', frames @ map (kept retain) fs, Inr ()) \<and> sim B sm sm' \<and> length o' \<le> cap
     \<and> (snd (peek_sendable (sm_sendable sm')) = None \<or> cap - length o' \<le> MAX_STREAM_OVERHEAD)
     \<and> seqw (map write_frame fs) = emit o')"

lemma loop_postI:
  "res = Some (sm', splice len o' out, len + length o', frames @ map (kept retain) fs, Inr ()) \<Longrightarrow> sim B sm sm' \<Longrightarrow> length o' \<le> cap \<Longrightarrow>
   snd (peek_sendable (sm_sendable sm')) = None \<or> cap - length o' \<le> MAX_STREAM_OVERHEAD \<Longrightarrow>
   seqw (map write_frame fs) = emit o' \<Longrightarrow> loop_post B retain cap out len frames sm res"
  unfolding loop_post_def by blast

lemma table_of_sendable [simp]: "table_of ids (sm\<lparr>sm_sendable := q\<rparr>) = table_of ids sm"
  by (simp add: table_of_def)

lemma tbl_ok_put: "tbl_ok sm \<Longrightarrow> send_ok (st_send st) \<Longrightarrow> sid \<le> VINT_MAX \<Longrightarrow> tbl_ok (put_stream sid st sm)"
  by (auto simp: tbl_ok_def)

lemma tbl_ok_sendable [simp]: "tbl_ok (sm\<lparr>sm_sendable := q\<rparr>) \<longleftrightarrow> tbl_ok sm"
  by (simp add: tbl_ok_def)

lemma loop_post_trans:
  assumes "loop_post B retain cap1 (splice len o1 out) (len + length o1) (frames @ [kept retain f]) sm1 res" "sim B sm sm1"
    "write_frame f = emit o1" "length o1 \<le> cap" "cap1 = cap - length o1" "len + cap = length out"
  shows "loop_post B retain cap out len frames sm res"
proof -
  from assms(1) obtain sm' o' fs
    where p: "res = Some (sm', splice (len + length o1) o' (splice len o1 out), len + length o1 + length o',
        (frames @ [kept retain f]) @ map (kept retain) fs, Inr ())"
      "sim B sm1 sm'" "length o' \<le> cap1" "snd (peek_sendable (sm_sendable sm')) = None \<or> cap1 - length o' \<le> MAX_STREAM_OVERHEAD"
      "seqw (map write_frame fs) = emit o'" unfolding loop_post_def by blast
  have sp: "splice (len + length o1) o' (splice len o1 out) = splice len (o1 @ o') out"
    using assms(4,6) by (intro splice_append) simp
  show ?thesis
  proof (rule loop_postI [where o' = "o1 @ o'" and fs = "f # fs"])
    show "res = Some (sm', splice len (o1 @ o') out, len + length (o1 @ o'), frames @ map (kept retain) (f # fs), Inr ())"
      using p(1) sp by simp
    show "sim B sm sm'" using assms(2) p(2) by (rule sim_trans)
    show "seqw (map write_frame (f # fs)) = emit (o1 @ o')"
      using seqw_emit [OF assms(3) p(5)] by (simp del: seqw.simps)
  qed (use p(3,4) assms(4,5) in auto)
qed

text \<open>One round: header and data of a frame are in place and the space reserved for the header is filled.\<close>

lemma write_stream_round:
  assumes pk: "peek_sendable (sm_sendable sm) = (queue, Some sid)" and st: "sm_streams sm sid = Some st"
    and live: "\<not> sb_is_stopped (st_send st)" and sid: "sid \<le> VINT_MAX" and off: "sb_send_off (st_send st) \<le> VINT_MAX"
    and cap: "len + cap = length out" "MAX_STREAM_OVERHEAD < cap"
    and rd: "sb_read (cap - (3 + vlen sid + vlen (sb_send_off (st_send st)))) (st_send st) = Some (sb, bs, length bs, fin)"
      "length bs \<le> cap - (3 + vlen sid + vlen (sb_send_off (st_send st)))"
    and o: "o1 = header_bytes sid (sb_send_off (st_send st)) (length bs) fin @ bs"
    and m1: "m1 = put_stream sid (st\<lparr>st_send := sb\<rparr>) (sm\<lparr>sm_sendable := queue\<rparr>)"
    and m2: "m2 = (if \<not> st_is_sendable (st\<lparr>st_send := sb\<rparr>) then m1\<lparr>sm_sendable := remove_sendable (sm_sendable m1)\<rparr> else m1)"
    and f: "f = kept retain (Stream sid (sb_send_off (st_send st)) (length bs) fin bs)"
  shows "write_stream_loop retain cap out len frames sm =
    (if cap - length o1 \<le> MAX_STREAM_OVERHEAD then Some (m2, splice len o1 out, len + length o1, frames @ [f], Inr ())
     else write_stream_loop retain (cap - length o1) (splice len o1 out) (len + length o1) (frames @ [f]) m2)"
    "length o1 \<le> cap" "0 < length o1"
proof -
  let ?off = "sb_send_off (st_send st)"
  define h where "h = 3 + vlen sid + vlen ?off"
  have h: "stream_header_wire_len sid ?off = Some h" "h \<le> cap" "0 < h"
    using header_wire_len [OF sid off] cap(2) by (simp_all add: h_def)
  have hl: "length (header_bytes sid ?off (length bs) fin) = h" using header_emit(2) [OF sid off] by (simp add: h_def)
  have enc: "encode_stream_header sid ?off (length bs) fin (wb_new h) = Inr \<lparr>wb_out = header_bytes sid ?off (length bs) fin, wb_room = 0\<rparr>"
    using header_emit [OF sid off] by (simp add: emit_def wb_new_def h_def)
  have l: "length o1 = h + length bs" using hl by (simp add: o)
  then show le: "length o1 \<le> cap" "0 < length o1" using rd(2) h(2,3) by (simp_all add: h_def [symmetric])
  have c: "\<not> length out < len + h" "length out - (len + h) = cap - h" using cap(1) h(2) by simp_all
  have sub: "sub64 cap (h + length bs) = cap - length o1" using le(1) l by (simp add: sub64_nowrap)
  have "slice (len + h) (len + h + length bs) (splice (len + h) bs out) = Some bs"
    using rd(2) cap(1) h(2) by (simp add: segm_splice h_def [symmetric])
  then have data: "(if retain then slice (len + h) (len + h + length bs) (splice (len + h) bs out) else Some []) = Some (if retain then bs else [])"
    by simp
  have sp: "splice len (header_bytes sid ?off (length bs) fin) (splice (len + h) bs out) = splice len o1 out"
    using splice_adjacent [of len "header_bytes sid ?off (length bs) fin" bs out] hl le(1) l cap(1) by (simp add: o)
  show "write_stream_loop retain cap out len frames sm =
    (if cap - length o1 \<le> MAX_STREAM_OVERHEAD then Some (m2, splice len o1 out, len + length o1, frames @ [f], Inr ())
     else write_stream_loop retain (cap - length o1) (splice len o1 out) (len + length o1) (frames @ [f]) m2)"
    by (subst write_stream_loop.simps)
      (simp add: pk st live h(1) c rd(1) [folded h_def] data enc sp sub l f m2 m1 Let_def)
qed

lemma write_stream_loop_ok:
  assumes "tbl_ok sm" "MAX_STREAM_OVERHEAD < cap" "len + cap = length out"
  shows "loop_post B retain cap out len frames sm (write_stream_loop retain cap out len frames sm)"
  using assms
proof (induction "cap + sq_size (sm_sendable sm)" arbitrary: cap out len frames sm rule: less_induct)
  case less
  obtain queue r where pk: "peek_sendable (sm_sendable sm) = (queue, r)" by fastforce
  show ?case
  proof (cases r)
    case None
    have "write_stream_loop retain cap out len frames sm = Some (sm\<lparr>sm_sendable := queue\<rparr>, out, len, frames, Inr ())"
      by (subst write_stream_loop.simps) (simp add: pk None)
    then show ?thesis
      by (intro loop_postI [where o' = "[]" and fs = "[]"]) (use peek_none pk None seqw_Nil in \<open>auto intro: sim_same\<close>)
  next
    case (Some sid)
    have skip: "loop_post B retain cap out len frames sm (write_stream_loop retain cap out len frames (sm\<lparr>sm_sendable := remove_sendable queue\<rparr>))"
    proof -
      have "loop_post B retain cap out len frames (sm\<lparr>sm_sendable := remove_sendable queue\<rparr>)
          (write_stream_loop retain cap out len frames (sm\<lparr>sm_sendable := remove_sendable queue\<rparr>))"
        by (rule less.hyps) (use remove_size [OF pk [unfolded Some]] less.prems in simp_all)
      moreover have "sim B sm (sm\<lparr>sm_sendable := remove_sendable queue\<rparr>)" by (rule sim_same) simp
      ultimately show ?thesis unfolding loop_post_def using sim_trans by blast
    qed
    have drop: "write_stream_loop retain cap out len frames sm = write_stream_loop retain cap out len frames (sm\<lparr>sm_sendable := remove_sendable queue\<rparr>)"
      if "case sm_streams sm sid of None \<Rightarrow> True | Some st \<Rightarrow> sb_is_stopped (st_send st)"
      using that by (subst write_stream_loop.simps) (auto simp: pk Some split: option.splits)
    show ?thesis
    proof (cases "case sm_streams sm sid of None \<Rightarrow> True | Some st \<Rightarrow> sb_is_stopped (st_send st)")
      case True
      from skip show ?thesis unfolding drop [OF True] .
    next
      case False
      then obtain st where st: "sm_streams sm sid = Some st" and live: "\<not> sb_is_stopped (st_send st)"
        by (auto split: option.splits)
      have ok: "send_ok (st_send st)" and sid: "sid \<le> VINT_MAX" using less.prems st by (auto simp: tbl_ok_def)
      have off: "sb_send_off (st_send st) \<le> VINT_MAX" using send_ok_bounds [OF ok] by (simp add: VINT_MAX_def)
      from send_ok_read [OF ok, of "cap - (3 + vlen sid + vlen (sb_send_off (st_send st)))"] obtain sb bs fin
        where rd: "sb_read (cap - (3 + vlen sid + vlen (sb_send_off (st_send st)))) (st_send st) = Some (sb, bs, length bs, fin)"
          "length bs \<le> cap - (3 + vlen sid + vlen (sb_send_off (st_send st)))" "send_ok sb" by blast
      define o1 where "o1 = header_bytes sid (sb_send_off (st_send st)) (length bs) fin @ bs"
      define f where "f = Stream sid (sb_send_off (st_send st)) (length bs) fin bs"
      define m1 where "m1 = put_stream sid (st\<lparr>st_send := sb\<rparr>) (sm\<lparr>sm_sendable := queue\<rparr>)"
      define m2 where "m2 = (if \<not> st_is_sendable (st\<lparr>st_send := sb\<rparr>) then m1\<lparr>sm_sendable := remove_sendable (sm_sendable m1)\<rparr> else m1)"
      note rounds = write_stream_round [OF pk [unfolded Some] st live sid off less.prems(3,2) rd(1,2) o1_def m1_def m2_def refl]
      note round = rounds(1) [of retain frames, folded f_def] rounds(2,3)
      have wf: "write_frame f = emit o1" using write_stream_frame_emit [OF sid off] by (simp add: f_def o1_def)
      have "sim B sm (put_stream sid (st\<lparr>st_send := sb\<rparr>) sm)" by (rule sim_frames_sent [OF st rd(1)])
      then have sim2: "sim B sm m2" by (rule sim_cong) (simp add: m1_def m2_def table_of_put)
      have ok2: "tbl_ok m2" using less.prems(1) rd(3) sid by (simp add: m1_def m2_def tbl_ok_put)
      have size2: "sq_size (sm_sendable m2) \<le> sq_size (sm_sendable sm)"
        using peek_size [OF pk] remove_size_le [of queue] by (simp add: m1_def m2_def put_stream_def)
      show ?thesis
      proof (cases "cap - length o1 \<le> MAX_STREAM_OVERHEAD")
        case True
        show ?thesis unfolding round(1) if_P [OF True]
          by (rule loop_postI [where o' = o1 and fs = "[f]"])
            (use sim2 round(2) True seqw_emit [OF wf seqw_Nil] in \<open>simp_all del: seqw.simps\<close>)
      next
        case more: False
        have less_size: "cap - length o1 + sq_size (sm_sendable m2) < cap + sq_size (sm_sendable sm)"
          using size2 round(2,3) by linarith
        have "loop_post B retain (cap - length o1) (splice len o1 out) (len + length o1) (frames @ [kept retain f]) m2
            (write_stream_loop retain (cap - length o1) (splice len o1 out) (len + length o1) (frames @ [kept retain f]) m2)"
          by (rule less.hyps [OF less_size ok2]) (use more round(2) less.prems(3) in simp_all)
        then show ?thesis unfolding round(1) if_not_P [OF more]
          by (rule loop_post_trans [OF _ sim2 wf round(2) refl less.prems(3)])
      qed
    qed
  qed
qed

end
