(* ===== verification/StreamRun.thy ===== *)
theory StreamRun
  imports StreamWriter
begin

text \<open>
  Runs of the stream table of \<open>src/connection/stream.rs\<close>: the calls of the application, the frames
  received, acknowledged and lost, and the packets filled with STREAM frames, in any order.
\<close>

datatype sm_op =
    MNewBidi nat bool | MNewUni nat bool | MSetPriority u64 nat bool
  | MWrite u64 "byte list" bool | MRead u64 usize | MShutdown u64 shutdown_dir u64
  | MWritable u64 usize | MWantWrite u64 bool | MWantRead u64 bool | MDestroy u64
  | MMaxData u64 | MMaxStreamData u64 u64 | MMaxStreams u64 bool
  | MStreamDataBlocked u64 u64 | MStreamsBlocked u64 bool
  | MResetFrame u64 u64 u64 | MStopSending u64 u64 | MStreamFrame u64 u64 usize bool "byte list"
  | MAcked u64 u64 usize | MResetAcked u64 | MLost u64 u64 usize bool | MResetLost u64 u64 u64
  | MStopLost u64 u64 | MMaxStreamDataLost u64 | MMaxDataLost | MStreamDataBlockedLost u64 u64
  | MDataBlockedLost u64 | MStreamsBlockedLost bool u64
  | MParams stream_params | MLocalMaxStreams bool | MAutotune instant duration
  | MUpdateMaxRx instant | MEnsureWindow u64 | MSend bool "byte list"

fun sm_step :: "stream_map \<Rightarrow> sm_op \<Rightarrow> stream_map" where
  "sm_step sm (MNewBidi u i) = fst (stream_bidi_new u i sm)"
| "sm_step sm (MNewUni u i) = fst (stream_uni_new u i sm)"
| "sm_step sm (MSetPriority sid u i) = fst (stream_set_priority sid u i sm)"
| "sm_step sm (MWrite sid buf fin) = fst (stream_write sid buf fin sm)"
| "sm_step sm (MRead sid cap) = fst (stream_read sid cap sm)"
| "sm_step sm (MShutdown sid dir err) = fst (stream_shutdown sid dir err sm)"
| "sm_step sm (MWritable sid len) = fst (stream_writable sid len sm)"
| "sm_step sm (MWantWrite sid b) = fst (want_write sid b sm)"
| "sm_step sm (MWantRead sid b) = fst (want_read sid b sm)"
| "sm_step sm (MDestroy sid) = stream_destroy sid sm"
| "sm_step sm (MMaxData m) = on_max_data_frame_received m sm"
| "sm_step sm (MMaxStreamData sid m) = fst (on_max_stream_data_frame_received sid m sm)"
| "sm_step sm (MMaxStreams m bidi) = fst (on_max_streams_frame_received m bidi sm)"
| "sm_step sm (MStreamDataBlocked sid m) = fst (on_stream_data_blocked_frame_received sid m sm)"
| "sm_step sm (MStreamsBlocked m bidi) = fst (on_streams_blocked_frame_received m bidi sm)"
| "sm_step sm (MResetFrame sid e f) = fst (on_reset_stream_frame_received sid e f sm)"
| "sm_step sm (MStopSending sid e) = fst (on_stop_sending_frame_received sid e sm)"
| "sm_step sm (MStreamFrame sid off len fin data) = fst (on_stream_frame_received sid off len fin data sm)"
| "sm_step sm (MAcked sid off len) = fst (on_stream_frame_acked sid off len sm)"
| "sm_step sm (MResetAcked sid) = on_reset_stream_frame_acked sid sm"
| "sm_step sm (MLost sid off len fin) = on_stream_frame_lost sid off len fin sm"
| "sm_step sm (MResetLost sid e f) = on_reset_stream_frame_lost sid e f sm"
| "sm_step sm (MStopLost sid e) = on_stop_sending_frame_lost sid e sm"
| "sm_step sm (MMaxStreamDataLost sid) = on_max_stream_data_frame_lost sid sm"
| "sm_step sm MMaxDataLost = on_max_data_frame_lost sm"
| "sm_step sm (MStreamDataBlockedLost sid n) = on_stream_data_blocked_frame_lost sid n sm"
| "sm_step sm (MDataBlockedLost n) = on_data_blocked_frame_lost n sm"
| "sm_step sm (MStreamsBlockedLost bidi n) = on_streams_blocked_frame_lost bidi n sm"
| "sm_step sm (MParams tp) = update_peer_stream_transport_params tp sm"
| "sm_step sm (MLocalMaxStreams bidi) = sm_update_local_max_streams bidi sm"
| "sm_step sm (MAutotune now srtt) = sm_autotune_window now srtt sm"
| "sm_step sm (MUpdateMaxRx now) = update_max_rx_data now sm"
| "sm_step sm (MEnsureWindow n) = sm_ensure_window_lower_bound n sm"
| "sm_step sm (MSend retain out) =
     (case write_stream_loop retain (length out) out 0 [] sm of Some (sm', _) \<Rightarrow> sm' | None \<Rightarrow> sm)"

text \<open>
  Limits received from the peer were decoded as variable-length integers, only data that was sent is
  acknowledged or lost, and a packet is filled only when there is room for a frame.
\<close>

fun sm_ok :: "stream_map \<Rightarrow> sm_op \<Rightarrow> bool" where
  "sm_ok sm (MWrite sid buf fin) \<longleftrightarrow> length buf < 2 ^ 62"
| "sm_ok sm (MMaxData m) \<longleftrightarrow> m < 2 ^ 62"
| "sm_ok sm (MMaxStreamData sid m) \<longleftrightarrow> m < 2 ^ 62"
| "sm_ok sm (MMaxStreams m bidi) \<longleftrightarrow> m < 2 ^ 62"
| "sm_ok sm (MAcked sid off len) \<longleftrightarrow> sent_range sid off len sm"
| "sm_ok sm (MLost sid off len fin) \<longleftrightarrow> sent_range sid off len sm"
| "sm_ok sm (MParams tp) \<longleftrightarrow> params_ok tp"
| "sm_ok sm (MSend retain out) \<longleftrightarrow> length out > MAX_STREAM_OVERHEAD"
| "sm_ok sm _ \<longleftrightarrow> True"

text \<open>The connection-level limit that the peer announces with an operation.\<close>

fun announced :: "sm_op \<Rightarrow> nat" where
  "announced (MMaxData m) = m"
| "announced (MParams tp) = sp_initial_max_data tp"
| "announced _ = 0"

definition sm_inv :: "stream_map \<Rightarrow> bool" where
  "sm_inv sm \<longleftrightarrow> (\<exists>ids. credit_inv (table_of ids sm) \<and> ids_inv (table_of ids sm))"

lemma sm_inv_tbl:
  assumes "sm_inv sm"
  shows "tbl_ok sm"
  unfolding tbl_ok_def
proof (intro allI impI)
  fix sid st assume st: "sm_streams sm sid = Some st"
  from assms obtain ids where i: "credit_inv (table_of ids sm)" "ids_inv (table_of ids sm)" unfolding sm_inv_def by blast
  have "tb_sends (table_of ids sm) sid = Some (st_send st)" using st by (simp add: tb_sends_of)
  then have "st_send st \<in> ran (tb_sends (table_of ids sm))" "sid \<in> dom (tb_sends (table_of ids sm))" by (auto simp: ran_def)
  then have "send_ok (st_send st)" "sid < 2 ^ 62" using i unfolding credit_inv_def ids_inv_def by blast+
  then show "send_ok (st_send st) \<and> sid \<le> VINT_MAX" by (simp add: VINT_MAX_def)
qed

lemma sim_send:
  assumes "tbl_ok sm" "MAX_STREAM_OVERHEAD < length out"
  shows "sim B sm (sm_step sm (MSend retain out))"
  using write_stream_loop_ok [OF assms, of 0 out B retain "[]"] unfolding loop_post_def by auto

lemmas sim_ops = sim_bidi_new sim_set_priority sim_write sim_read sim_shutdown sim_writable sim_want sim_destroy sim_max_data
  sim_max_stream_data sim_max_streams sim_blocked_frames sim_reset sim_stop_sending sim_stream_frame sim_acked sim_reset_acked
  sim_lost sim_lost_notes sim_streams_blocked_lost sim_params sim_local_max_streams sim_windows

lemma sim_sm_step:
  assumes "sm_inv sm" "sm_ok sm x" "announced x \<le> B"
  shows "sim B sm (sm_step sm x)"
proof (cases x)
  case (MMaxStreams m bidi)
  then show ?thesis using assms(2) small_u64 by (simp add: sim_max_streams)
next
  case (MSend retain out)
  then show ?thesis using assms(2) sim_send [OF sm_inv_tbl [OF assms(1)]] by (simp only: sm_ok.simps)
qed (use assms(2,3) in \<open>simp_all add: sim_ops\<close>)

lemma sm_inv_sim:
  assumes "sim B sm sm'" "sm_inv sm"
  shows "sm_inv sm'"
proof -
  from assms(2) obtain ids where i: "credit_inv (table_of ids sm)" "ids_inv (table_of ids sm)" unfolding sm_inv_def by blast
  from assms(1) obtain ids' where "(tstep B)\<^sup>*\<^sup>* (table_of ids sm) (table_of ids' sm')" unfolding sim_def by blast
  from tsteps_inv(1,2) [OF this] i show ?thesis unfolding sm_inv_def by blast
qed

interpretation smm: inv_machine sm_step sm_ok sm_inv
proof unfold_locales
  fix sm x assume "sm_inv sm" "sm_ok sm x"
  from sm_inv_sim [OF sim_sm_step [OF this order_refl] this(1)] show "sm_inv (sm_step sm x)" .
qed

lemma sm_new_inv:
  assumes "params_ok lp"
  shows "ids_inv (table_of [] (sm_new s w v lp))" "credit_inv (table_of [] (sm_new s w v lp))" "sm_inv (sm_new s w v lp)"
proof -
  have "sp_initial_max_streams_bidi lp < u64_mod" "sp_initial_max_streams_uni lp < u64_mod"
    using assms small_u64 by (simp_all add: params_ok_def)
  from cc_new_inv [OF this, of s] show "ids_inv (table_of [] (sm_new s w v lp))"
    by (simp add: ids_inv_def table_of_def sm_new_def dom_def)
  show "credit_inv (table_of [] (sm_new s w v lp))"
    by (simp add: credit_inv_def table_of_def sm_new_def sc_default_def params_ok_def sp_default_def total_written_def)
  then show "sm_inv (sm_new s w v lp)" using \<open>ids_inv (table_of [] (sm_new s w v lp))\<close> unfolding sm_inv_def by blast
qed

lemma sim_run:
  assumes "sm_inv sm" "ok_run sm_step sm_ok sm ops" "\<forall>x \<in> set ops. announced x \<le> B"
  shows "sim B sm (foldl sm_step sm ops)"
  using assms
proof (induction ops arbitrary: sm)
  case (Cons x xs)
  have "sim B sm (sm_step sm x)" using Cons.prems by (intro sim_sm_step) simp_all
  moreover have "sim B (sm_step sm x) (foldl sm_step (sm_step sm x) xs)"
    using Cons.prems by (intro Cons.IH smm.inv_step) simp_all
  ultimately show ?case using sim_trans by simp
qed simp

lemma run_table:
  assumes "params_ok lp" "ok_run sm_step sm_ok (sm_new s w v lp) ops" "\<forall>x \<in> set ops. announced x \<le> B"
    "sm = foldl sm_step (sm_new s w v lp) ops"
  obtains ids where "credit_inv (table_of ids sm)" "ids_inv (table_of ids sm)" "sc_max_data (sm_send_capacity sm) \<le> B"
proof -
  note new = sm_new_inv [OF assms(1), of s w v]
  from sim_run [OF new(3) assms(2,3)] obtain ids
    where t: "(tstep B)\<^sup>*\<^sup>* (table_of [] (sm_new s w v lp)) (table_of ids sm)" unfolding sim_def assms(4) by blast
  have "tb_max (table_of [] (sm_new s w v lp)) \<le> B" by (simp add: table_of_def sm_new_def sc_default_def)
  from tsteps_inv(5) [OF t this] have "sc_max_data (sm_send_capacity sm) \<le> B" by (simp add: table_of_def)
  with tsteps_inv(1,2) [OF t] new that show ?thesis by blast
qed

end
