(* ===== verification/StreamTheorems.thy ===== *)
theory StreamTheorems
  imports StreamRun
begin

text \<open>
  What holds of every run of the stream table of \<open>src/connection/stream.rs\<close>: the credit for sending,
  the use of stream identifiers, the errors for frames that a stream cannot receive, and the filling of
  packets with STREAM frames.
\<close>

subsection \<open>Credit for sending\<close>

text \<open>
  C6.  For every sequence of calls of the application and frames of the peer: the bytes accepted on
  the open streams together never exceed the data counted against the connection, that never exceeds
  the limit, the remaining capacity is exactly the difference, and the limit is one that the peer
  announced.
\<close>

theorem stream_credit:
  assumes "params_ok lp" and "ok_run sm_step sm_ok (sm_new s w v lp) ops" and "sm = foldl sm_step (sm_new s w v lp) ops"
  shows "(\<Sum>sid \<in> dom (sm_streams sm). sb_write_off (st_send (the (sm_streams sm sid)))) \<le> sc_tx_data (sm_send_capacity sm)
    \<and> sc_tx_data (sm_send_capacity sm) \<le> sc_max_data (sm_send_capacity sm)
    \<and> sc_capacity (sm_send_capacity sm) = sc_max_data (sm_send_capacity sm) - sc_tx_data (sm_send_capacity sm)
    \<and> sc_max_data (sm_send_capacity sm) \<le> Max (insert 0 (announced ` set ops))"
proof -
  have "\<forall>x \<in> set ops. announced x \<le> Max (insert 0 (announced ` set ops))" by simp
  from run_table [OF assms(1,2) this assms(3)] obtain ids
    where c: "credit_inv (table_of ids sm)" "sc_max_data (sm_send_capacity sm) \<le> Max (insert 0 (announced ` set ops))" by blast
  have d: "dom (tb_sends (table_of ids sm)) = dom (sm_streams sm)" by (auto simp: tb_sends_of dom_def)
  have "total_written (tb_sends (table_of ids sm)) = (\<Sum>sid \<in> dom (sm_streams sm). sb_write_off (st_send (the (sm_streams sm sid))))"
    unfolding total_written_def d by (rule sum.cong) (auto simp: tb_sends_of)
  with c show ?thesis by (simp add: credit_inv_def) (simp add: table_of_def)
qed

definition demo_params :: stream_params where
  "demo_params =
     \<lparr>sp_initial_max_data = 10, sp_initial_max_stream_data_bidi_local = 5,
      sp_initial_max_stream_data_bidi_remote = 5, sp_initial_max_stream_data_uni = 5,
      sp_initial_max_streams_bidi = 3, sp_initial_max_streams_uni = 3\<rparr>"

definition demo_map :: stream_map where
  "demo_map = sm_new False 20 20 demo_params"

definition demo_ops :: "sm_op list" where
  "demo_ops = [MParams demo_params, MWrite 0 [1, 2, 3] False, MSend True (replicate 40 0), MShutdown 0 ShutdownWrite 9]"

lemma demo_params_ok: "params_ok demo_params"
  by (simp add: params_ok_def demo_params_def)

lemma demo_ops_ok: "ok_run sm_step sm_ok demo_map demo_ops"
  by (simp add: demo_ops_def demo_params_ok MAX_STREAM_OVERHEAD_def del: sm_step.simps)

theorem stream_credit_witness:
  "(\<lambda>sm. sc_tx_data (sm_send_capacity sm) \<le> sc_max_data (sm_send_capacity sm) \<and> sc_max_data (sm_send_capacity sm) \<le> 10)
     (foldl sm_step demo_map demo_ops)"
proof -
  have "announced ` set demo_ops = {10, 0}" by (auto simp: demo_ops_def demo_params_def)
  then have "Max (insert 0 (announced ` set demo_ops)) = 10" by simp
  with stream_credit [OF demo_params_ok demo_ops_ok [unfolded demo_map_def] refl] show ?thesis by (simp add: demo_map_def)
qed

subsection \<open>Identifiers\<close>

lemma dead_closed:
  assumes inv: "ids_inv (table_of ids sm)" and mem: "sid \<in> set ids" and none: "sm_streams sm sid = None"
  shows "sm_is_closed sid sm" "get_or_create sid loc sm = (sm, Inl (Err Done))"
proof -
  have c: "cc_inv (sm_is_server sm) (sm_concurrency sm, ids)" "sid < 2 ^ 62"
    using inv mem by (auto simp: ids_inv_def table_of_def)
  let ?l = "is_local sid (sm_is_server sm)" and ?b = "is_bidi sid"
  have seq: "drop_bit 2 sid \<in> seqs (sm_is_server sm) ?l ?b ids" using mem by (auto simp: seqs_def)
  have "kind_inv (sm_is_server sm) (sm_concurrency sm) ids ?l ?b" using c(1) by (simp add: cc_inv_def)
  note k = kind_invD [OF this]
  have lt: "drop_bit 2 sid < cc_limit ?l ?b (sm_concurrency sm)" using k(5,6) seq by (auto dest: subsetD)
  have "drop_bit 2 sid + 1 < u64_mod" using c(2) by (simp add: drop_bit_eq_div u64_mod_def)
  then have "\<not> is_limited sid (sm_is_server sm) (sm_concurrency sm)" using lt by (simp add: is_limited_kind add64_nowrap)
  moreover have "\<not> is_available sid (sm_is_server sm) (sm_concurrency sm)" using is_available_seq [OF c(1)] seq by blast
  ultimately show cl: "sm_is_closed sid sm" using none by (simp add: sm_is_closed_def)
  then show "get_or_create sid loc sm = (sm, Inl (Err Done))" using none c(2) by (simp add: get_or_create_def VINT_MAX_def)
qed

lemma run_dead:
  assumes inv: "ids_inv (table_of ids sm)" "credit_inv (table_of ids sm)" "ok_run sm_step sm_ok sm ops"
  obtains ids' where "ids_inv (table_of ids' (foldl sm_step sm ops))" "credit_inv (table_of ids' (foldl sm_step sm ops))"
    "set ids \<subseteq> set ids'"
    "\<forall>sid \<in> set ids. sm_streams sm sid = None \<longrightarrow> sm_streams (foldl sm_step sm ops) sid = None"
proof -
  let ?B = "Max (insert 0 (announced ` set ops))"
  have "\<forall>x \<in> set ops. announced x \<le> ?B" by simp
  from sim_run [OF _ inv(3) this] inv obtain ids'
    where t: "(tstep ?B)\<^sup>*\<^sup>* (table_of ids sm) (table_of ids' (foldl sm_step sm ops))" unfolding sim_def sm_inv_def by blast
  have ids: "tb_ids (table_of i m) = i" for i m by (simp add: table_of_def)
  have "sm_streams (foldl sm_step sm ops) sid = None" if "sid \<in> set ids" "sm_streams sm sid = None" for sid
    using tsteps_dead [OF t inv(1), of sid] that by (simp add: tb_sends_of ids)
  moreover have "set ids \<subseteq> set ids'" using tsteps_inv(3) [OF t] by (simp only: ids)
  ultimately show ?thesis using that tsteps_inv(1,2) [OF t] inv(1,2) by blast
qed

text \<open>
  C7.  A stream identifier is used at most once: when a stream was open and has been collected, no
  later call of the application and no frame of the peer opens it again; the lookup answers that the
  stream is done, and frames for it change nothing: they are ignored, except that a frame that the
  kind of the stream never allows (one for the receiver of a stream that only sends, or for the sender
  of a stream that only receives) is still answered with a stream state error.
\<close>

theorem stream_id_not_reused:
  assumes "params_ok lp"
    and "ok_run sm_step sm_ok (sm_new s w v lp) ops1" and "sm1 = foldl sm_step (sm_new s w v lp) ops1"
    and "ok_run sm_step sm_ok sm1 ops2" and "sm2 = foldl sm_step sm1 ops2"
    and "ok_run sm_step sm_ok sm2 ops3" and "sm3 = foldl sm_step sm2 ops3"
    and "sm_streams sm1 sid \<noteq> None" and "sm_streams sm2 sid = None"
  shows "sm_streams sm3 sid = None \<and> sm_is_closed sid sm3 \<and> get_or_create sid loc sm3 = (sm3, Inl (Err Done))
    \<and> (let refused = (\<lambda>b. if b then Inl (Err StreamStateError) else Inr ());
            send_only = (is_local sid (sm_is_server sm3) \<and> \<not> is_bidi sid);
            receive_only = (\<not> is_local sid (sm_is_server sm3) \<and> \<not> is_bidi sid)
        in on_stream_frame_received sid off len fin data sm3 = (sm3, refused send_only)
           \<and> on_reset_stream_frame_received sid ec fs sm3 = (sm3, refused send_only)
           \<and> on_stream_data_blocked_frame_received sid m sm3 = (sm3, refused send_only)
           \<and> on_stop_sending_frame_received sid ec sm3 = (sm3, refused receive_only)
           \<and> on_max_stream_data_frame_received sid m sm3 = (sm3, refused receive_only))"
proof -
  obtain ids1 where i1: "ids_inv (table_of ids1 sm1)" "credit_inv (table_of ids1 sm1)"
    by (rule run_dead [OF sm_new_inv(1,2) [OF assms(1)] assms(2), folded assms(3)])
  have "sid \<in> dom (tb_sends (table_of ids1 sm1))" using assms(8) by (auto simp: tb_sends_of)
  then have m1: "sid \<in> set ids1" using i1(1) by (auto simp: ids_inv_def table_of_def)
  obtain ids2 where i2: "ids_inv (table_of ids2 sm2)" "credit_inv (table_of ids2 sm2)" "set ids1 \<subseteq> set ids2"
    by (rule run_dead [OF i1 assms(4), folded assms(5)])
  have m2: "sid \<in> set ids2" by (rule subsetD [OF i2(3) m1])
  obtain ids3 where i3: "ids_inv (table_of ids3 sm3)" "set ids2 \<subseteq> set ids3"
    "\<forall>sid \<in> set ids2. sm_streams sm2 sid = None \<longrightarrow> sm_streams sm3 sid = None"
    by (rule run_dead [OF i2(1,2) assms(6), folded assms(7)])
  have m3: "sid \<in> set ids3" "sm_streams sm3 sid = None"
    using subsetD [OF i3(2) m2] i3(3) m2 assms(9) by simp_all
  note d = dead_closed [OF i3(1) m3]
  have g: "get_or_create sid l sm3 = (sm3, Inl (Err Done))" for l by (rule d(2))
  let ?so = "is_local sid (sm_is_server sm3) \<and> \<not> is_bidi sid" and ?ro = "\<not> is_local sid (sm_is_server sm3) \<and> \<not> is_bidi sid"
  let ?ref = "\<lambda>b. (sm3, if b then Inl (Err StreamStateError) else Inr () :: unit result)"
  have "on_stream_frame_received sid off len fin data sm3 = ?ref ?so"
    using d(1) by (auto simp: on_stream_frame_received_def g)
  moreover have "on_reset_stream_frame_received sid ec fs sm3 = ?ref ?so"
    by (auto simp: on_reset_stream_frame_received_def g)
  moreover have "on_stream_data_blocked_frame_received sid m sm3 = ?ref ?so"
    by (simp add: on_stream_data_blocked_frame_received_def)
  moreover have "on_stop_sending_frame_received sid ec sm3 = ?ref ?ro"
    by (simp add: on_stop_sending_frame_received_def g)
  moreover have "on_max_stream_data_frame_received sid m sm3 = ?ref ?ro"
    by (simp add: on_max_stream_data_frame_received_def g)
  ultimately show ?thesis using m3(2) d(1) g unfolding Let_def by blast
qed

text \<open>A server with room for three streams of either kind.\<close>

definition demo_server :: stream_map where
  "demo_server = sm_new True 20 20 demo_params"

lemma demo_available: "drop_bit 2 sid < 3 \<Longrightarrow> is_available sid True (cc_new 3 3) \<or> is_local sid True"
  using is_available_seq [OF cc_new_inv [of 3 3 True], of sid]
  by (auto simp: cc_limit_def seqs_def cc_new_def u64_mod_def)

lemma demo_accept:
  assumes "drop_bit 2 sid < 3" "sid < 12" "\<not> is_local sid True" "is_bidi sid"
  shows "\<exists>sm st. get_or_create sid False demo_server = (sm, Inr st) \<and> sm_streams sm sid = Some st"
proof -
  have "is_available sid True (cc_new 3 3)" using demo_available assms by blast
  moreover have "check_concurrency_limits sid True (cc_new 3 3) = ((cc_new 3 3)\<lparr>peer_opened_streams_bidi := drop_bit 2 sid + 1\<rparr>, Inr ())"
    using assms by (simp add: check_concurrency_limits_def cc_new_def Let_def u64_eval)
  ultimately show ?thesis using assms
    by (simp add: get_or_create_def demo_server_def sm_new_def sm_is_closed_def demo_params_def VINT_MAX_def
        max_stream_data_limit_def put_stream_def Let_def)
qed

lemma demo_kinds: "\<not> is_local 4 True" "is_bidi 4" "drop_bit 2 (4 :: nat) = 1"
  by (simp_all add: is_local_def is_bidi_def)

lemma demo_step: "sm_streams (sm_step demo_server (MMaxStreamData 4 7)) 4 \<noteq> None"
proof -
  obtain sm st where g: "get_or_create 4 False demo_server = (sm, Inr st)" "sm_streams sm 4 = Some st"
    using demo_accept [of 4] demo_kinds by auto
  then show ?thesis using demo_kinds
    by (simp add: on_max_stream_data_frame_received_def demo_server_def sm_new_def Let_def)
qed

theorem stream_id_not_reused_witness:
  "sm_streams (foldl sm_step demo_server [MMaxStreamData 4 7, MDestroy 4, MStreamFrame 4 0 1 False [1], MMaxStreamData 4 9]) 4 = None"
proof -
  have a: "ok_run sm_step sm_ok demo_server [MMaxStreamData 4 7]" by simp
  have b: "ok_run sm_step sm_ok sm [MDestroy 4]" "ok_run sm_step sm_ok sm [MStreamFrame 4 0 1 False [1], MMaxStreamData 4 9]" for sm by simp_all
  have c: "sm_streams (foldl sm_step demo_server [MMaxStreamData 4 7]) 4 \<noteq> None" using demo_step by simp
  have d: "sm_streams (foldl sm_step sm [MDestroy 4]) 4 = None" for sm by (simp add: stream_destroy_def)
  from stream_id_not_reused [OF demo_params_ok a [unfolded demo_server_def] refl b(1) refl b(2) refl c [unfolded demo_server_def] d]
  show ?thesis by (simp only: foldl_Cons foldl_Nil demo_server_def)
qed

text \<open>
  When the peer opens a bidirectional stream whose identifier is not below the next local one,
  the next local identifier becomes one of the peer's: from then on opening a stream does not yield a
  locally initiated stream.
\<close>

theorem next_stream_id_taken_from_peer:
  assumes "get_or_create sid False sm = (sm1, Inr st)" and "sm_streams sm sid = None" and "is_bidi sid"
    and "sm_next_stream_id_bidi sm \<le> sid"
  shows "sm_next_stream_id_bidi sm1 = sid + 4 \<and> \<not> is_local (sid + 4) (sm_is_server sm1)
    \<and> (\<forall>s. snd (stream_bidi_new u i sm1) = Inr s \<longrightarrow> \<not> is_local s (sm_is_server sm1))"
proof -
  have sid: "sid \<le> VINT_MAX" "\<not> is_local sid (sm_is_server sm)"
    using assms(1,2) by (auto simp: get_or_create_def split: if_splits)
  have "sm_next_stream_id_bidi sm1 = next_id (sm_next_stream_id_bidi sm) sid \<and> sm_is_server sm1 = sm_is_server sm"
    using assms(1,2,3) unfolding get_or_create_def Let_def put_stream_def
    by (auto split: if_splits prod.splits sum.splits)
  then have n: "sm_next_stream_id_bidi sm1 = sid + 4" "sm_is_server sm1 = sm_is_server sm"
    using sid(1) assms(4) by (simp_all add: next_id_def sat_add64_def u64_max_def u64_mod_def VINT_MAX_def max_def)
  have "(sid + 4) mod 2 = sid mod 2" by presburger
  then have l: "\<not> is_local (sid + 4) (sm_is_server sm1)" using sid(2) n(2) by (simp add: is_local_def and_one_eq)
  have "snd (stream_bidi_new u i sm1) = Inr s \<Longrightarrow> s = sid + 4" for s
    by (auto simp: stream_bidi_new_def Let_def n(1) split: prod.splits sum.splits)
  with n l show ?thesis by auto
qed

theorem next_stream_id_taken_from_peer_witness:
  "\<exists>sm st. get_or_create 4 False demo_server = (sm, Inr st) \<and> (\<forall>s. snd (stream_bidi_new 1 False sm) = Inr s \<longrightarrow> \<not> is_local s (sm_is_server sm))"
proof -
  obtain sm st where g: "get_or_create 4 False demo_server = (sm, Inr st)" using demo_accept [of 4] demo_kinds by auto
  have "sm_streams demo_server 4 = None" "sm_next_stream_id_bidi demo_server \<le> 4" by (simp_all add: demo_server_def sm_new_def)
  with next_stream_id_taken_from_peer [OF g] demo_kinds(2) g show ?thesis by blast
qed

subsection \<open>Frames that a stream cannot receive\<close>

text \<open>
  C40.  A frame that the stream's kind does not allow is answered with a stream state error and changes
  nothing: frames for the sender on a stream that only receives and frames for the receiver on a stream
  that only sends; and on a local stream that was not opened STREAM, RESET_STREAM, STOP_SENDING and
  MAX_STREAM_DATA frames.  STREAM_DATA_BLOCKED is the exception: on a local bidirectional stream it is
  accepted without effect, whether or not the stream was opened.
\<close>

theorem wrong_direction_refused:
  assumes "sid \<le> VINT_MAX"
  shows "(\<not> is_local sid (sm_is_server sm) \<and> \<not> is_bidi sid \<longrightarrow>
      on_max_stream_data_frame_received sid m sm = (sm, Inl (Err StreamStateError))
      \<and> on_stop_sending_frame_received sid ec sm = (sm, Inl (Err StreamStateError))
      \<and> stream_write sid buf fin sm = (sm, Inl (Err StreamStateError)))
    \<and> (is_local sid (sm_is_server sm) \<and> \<not> is_bidi sid \<longrightarrow>
      on_stream_frame_received sid off len fin data sm = (sm, Inl (Err StreamStateError))
      \<and> on_reset_stream_frame_received sid ec fs sm = (sm, Inl (Err StreamStateError))
      \<and> on_stream_data_blocked_frame_received sid m sm = (sm, Inl (Err StreamStateError)))
    \<and> (is_local sid (sm_is_server sm) \<and> sm_streams sm sid = None \<and> \<not> sm_is_closed sid sm \<longrightarrow>
      on_stream_frame_received sid off len fin data sm = (sm, Inl (Err StreamStateError))
      \<and> on_reset_stream_frame_received sid ec fs sm = (sm, Inl (Err StreamStateError))
      \<and> on_stop_sending_frame_received sid ec sm = (sm, Inl (Err StreamStateError))
      \<and> on_max_stream_data_frame_received sid m sm = (sm, Inl (Err StreamStateError)))
    \<and> (is_local sid (sm_is_server sm) \<and> is_bidi sid \<longrightarrow> on_stream_data_blocked_frame_received sid m sm = (sm, Inr ()))"
proof (intro conjI impI; elim conjE)
  assume k: "is_local sid (sm_is_server sm)" "sm_streams sm sid = None" "\<not> sm_is_closed sid sm"
  have g: "get_or_create sid False sm = (sm, Inl (Err StreamStateError))" using k assms by (simp add: get_or_create_def)
  show "on_stream_frame_received sid off len fin data sm = (sm, Inl (Err StreamStateError))"
    using k by (simp add: on_stream_frame_received_def)
  show "on_reset_stream_frame_received sid ec fs sm = (sm, Inl (Err StreamStateError))"
    using k by (simp add: on_reset_stream_frame_received_def g)
  show "on_stop_sending_frame_received sid ec sm = (sm, Inl (Err StreamStateError))"
    using k by (simp add: on_stop_sending_frame_received_def g)
  show "on_max_stream_data_frame_received sid m sm = (sm, Inl (Err StreamStateError))"
    using k by (simp add: on_max_stream_data_frame_received_def g)
qed (simp_all add: on_max_stream_data_frame_received_def on_stop_sending_frame_received_def stream_write_def
    on_stream_frame_received_def on_reset_stream_frame_received_def on_stream_data_blocked_frame_received_def)

theorem wrong_direction_refused_witness:
  "on_stop_sending_frame_received 2 7 demo_server = (demo_server, Inl (Err StreamStateError))
   \<and> on_stream_frame_received 3 0 1 False [1] demo_server = (demo_server, Inl (Err StreamStateError))"
proof -
  have "sm_is_server demo_server" by (simp add: demo_server_def sm_new_def)
  moreover have "\<not> is_local 2 True" "\<not> is_bidi 2" "is_local 3 True" "\<not> is_bidi 3" "2 \<le> VINT_MAX" "3 \<le> VINT_MAX"
    by (simp_all add: is_local_def is_bidi_def VINT_MAX_def)
  ultimately show ?thesis
    using wrong_direction_refused [of 2 demo_server] wrong_direction_refused [of 3 demo_server] by simp
qed

subsection \<open>Filling packets\<close>

text \<open>
  C8.  For every table that a run reaches, filling a packet with STREAM frames ends, without a panic
  and within the room of the packet; when it was allowed to write, it stops only when no stream has
  anything to send or no further frame header is sure to fit.
\<close>

theorem write_stream_frames_ends:
  assumes "params_ok lp" and "ok_run sm_step sm_ok (sm_new s w v lp) ops" and "sm = foldl sm_step (sm_new s w v lp) ops"
  shows "\<exists>sm' out' n frames. try_write_stream_frames retain pkt_type is_closing (Inr active) out sm = Some (sm', out', n, frames, Inr ())
    \<and> n \<le> length out
    \<and> ((pkt_type = OneRTT \<or> pkt_type = ZeroRTT) \<and> \<not> is_closing \<and> active \<longrightarrow>
        snd (peek_sendable (sm_sendable sm')) = None \<or> length out - n \<le> MAX_STREAM_OVERHEAD)"
proof (cases "pkt_type \<noteq> OneRTT \<and> pkt_type \<noteq> ZeroRTT \<or> is_closing \<or> length out \<le> MAX_STREAM_OVERHEAD \<or> \<not> active")
  case True
  then show ?thesis by (auto simp: try_write_stream_frames_def)
next
  case False
  have "tbl_ok sm" using smm.run_inv [OF sm_new_inv(3) [OF assms(1)] assms(2)] sm_inv_tbl assms(3) by simp
  from write_stream_loop_ok [OF this, of "length out" 0 out 0 retain "[]"] False show ?thesis
    by (auto simp: try_write_stream_frames_def loop_post_def)
qed

theorem write_stream_frames_ends_witness:
  "\<exists>sm' out n frames. try_write_stream_frames True OneRTT False (Inr True) (replicate 40 0) (foldl sm_step demo_map demo_ops)
      = Some (sm', out, n, frames, Inr ())
    \<and> n \<le> 40 \<and> (snd (peek_sendable (sm_sendable sm')) = None \<or> 40 - n \<le> MAX_STREAM_OVERHEAD)"
  using write_stream_frames_ends [OF demo_params_ok demo_ops_ok [unfolded demo_map_def] refl, of True OneRTT False True "replicate 40 0"]
  by (simp add: demo_map_def)

text \<open>
  C9.  A packet is filled in place: the data of a frame is read into the buffer behind the space reserved
  for the longest header, the header is then written into that space, and the result is byte for byte
  what encoding the recorded frames with their data one after the other gives, with no gap and no
  overlap; the rest of the buffer is not touched, and the record keeps the data only when it is to be retained.
\<close>

theorem write_stream_frames_bytes:
  assumes "params_ok lp" and "ok_run sm_step sm_ok (sm_new s w v lp) ops" and "sm = foldl sm_step (sm_new s w v lp) ops"
    and "try_write_stream_frames retain pkt_type is_closing path_active out sm = Some (sm', out', n, frames, res)"
  shows "\<exists>fs. frames = map (kept retain) fs
    \<and> seqw (map write_frame fs) (wb_new (length out)) = Inr \<lparr>wb_out = take n out', wb_room = length out - n\<rparr>
    \<and> n \<le> length out \<and> length out' = length out \<and> drop n out' = drop n out"
proof (cases "pkt_type \<noteq> OneRTT \<and> pkt_type \<noteq> ZeroRTT \<or> is_closing \<or> length out \<le> MAX_STREAM_OVERHEAD \<or> path_active \<noteq> Inr True")
  case True
  then have "out' = out" "n = 0" "frames = []" using assms(4) by (auto simp: try_write_stream_frames_def split: if_splits sum.splits)
  then show ?thesis by (simp add: wb_new_def)
next
  case False
  have "tbl_ok sm" using smm.run_inv [OF sm_new_inv(3) [OF assms(1)] assms(2)] sm_inv_tbl assms(3) by simp
  from write_stream_loop_ok [OF this, of "length out" 0 out 0 retain "[]"] False assms(4) obtain fs o1
    where fs: "frames = map (kept retain) fs" "seqw (map write_frame fs) = emit o1" "length o1 \<le> length out"
      "out' = splice 0 o1 out" "n = length o1"
    by (auto simp: try_write_stream_frames_def loop_post_def)
  then show ?thesis by (intro exI [of _ fs]) (simp add: emit_def wb_new_def splice_def)
qed

theorem write_stream_frames_bytes_witness:
  "\<exists>sm' out n frames fs. try_write_stream_frames False OneRTT False (Inr True) (replicate 40 0) (foldl sm_step demo_map demo_ops)
      = Some (sm', out, n, frames, Inr ())
    \<and> frames = map (kept False) fs \<and> seqw (map write_frame fs) (wb_new 40) = Inr \<lparr>wb_out = take n out, wb_room = 40 - n\<rparr>"
proof -
  have "tbl_ok (foldl sm_step demo_map demo_ops)"
    using smm.run_inv [OF sm_new_inv(3) [OF demo_params_ok] demo_ops_ok [unfolded demo_map_def]] sm_inv_tbl by (simp add: demo_map_def)
  from write_stream_loop_ok [OF this, of 40 0 "replicate 40 0" 0 False "[]"] obtain sm' out n frames
    where w: "try_write_stream_frames False OneRTT False (Inr True) (replicate 40 0) (foldl sm_step demo_map demo_ops) = Some (sm', out, n, frames, Inr ())"
    by (auto simp: try_write_stream_frames_def loop_post_def MAX_STREAM_OVERHEAD_def)
  with write_stream_frames_bytes [OF demo_params_ok demo_ops_ok [unfolded demo_map_def] refl w [unfolded demo_map_def]]
  show ?thesis by auto
qed

lemma shutdown_sends_fin:
  assumes ok: "tbl_ok sm1" and cap: "MAX_STREAM_OVERHEAD < length buf" and pk: "peek_sendable (sm_sendable sm1) = (queue, Some sid)"
    and st: "sm_streams sm1 sid = Some st" and cl: "sb_closed (st_send st)" and err: "sb_error (st_send st) = None"
    and off: "sb_send_off (st_send st) = sb_unsent_off (st_send st)"
  shows "\<exists>sm' out n frames. write_stream_loop retain (length buf) buf 0 [] sm1
     = Some (sm', out, n, Stream sid (sb_unsent_off (st_send st)) 0 True [] # frames, Inr ())"
proof -
  let ?u = "sb_unsent_off (st_send st)"
  have s: "send_ok (st_send st)" "sid \<le> VINT_MAX" using ok st by (auto simp: tbl_ok_def)
  have u: "sb_send_off (st_send st) \<le> VINT_MAX" using send_ok_bounds [OF s(1)] by (simp add: VINT_MAX_def)
  have fin: "sb_fin_off (st_send st) = Some ?u" using cl by (simp add: sb_closed_def)
  have rd: "sb_read c (st_send st) = Some (st_send st, [], length ([] :: byte list), True)" for c
    using sb_closed_ops(3) [OF cl, of c] fin off by simp
  have live: "\<not> sb_is_stopped (st_send st)" using err by (simp add: sb_is_stopped_def)
  define o1 where "o1 = header_bytes sid (sb_send_off (st_send st)) (length ([] :: byte list)) True @ []"
  define m1 where "m1 = put_stream sid (st\<lparr>st_send := st_send st\<rparr>) (sm1\<lparr>sm_sendable := queue\<rparr>)"
  define m2 where "m2 = (if \<not> st_is_sendable (st\<lparr>st_send := st_send st\<rparr>) then m1\<lparr>sm_sendable := remove_sendable (sm_sendable m1)\<rparr> else m1)"
  have "0 + length buf = length buf" "length ([] :: byte list) \<le> length buf - (3 + vlen sid + vlen (sb_send_off (st_send st)))" by simp_all
  note rounds = write_stream_round [OF pk st live s(2) u this(1) cap rd this(2) o1_def m1_def m2_def refl]
  have ok2: "tbl_ok m2" using ok s by (simp add: m1_def m2_def tbl_ok_put)
  have f: "kept retain (Stream sid (sb_send_off (st_send st)) (length ([] :: byte list)) True []) = Stream sid ?u 0 True []" using off by simp
  show ?thesis
  proof (cases "length buf - length o1 \<le> MAX_STREAM_OVERHEAD")
    case True
    then show ?thesis using rounds(1) [of retain "[]"] f by simp
  next
    case False
    have c: "MAX_STREAM_OVERHEAD < length buf - length o1" "0 + length o1 + (length buf - length o1) = length (splice 0 o1 buf)"
      using False rounds(2) by simp_all
    have e: "write_stream_loop retain (length buf) buf 0 [] sm1
        = write_stream_loop retain (length buf - length o1) (splice 0 o1 buf) (0 + length o1) ([] @ [Stream sid ?u 0 True []]) m2"
      unfolding rounds(1) [of retain "[]", unfolded f] using False by (simp only: if_False)
    show ?thesis
      unfolding e using write_stream_loop_ok [OF ok2 c, of 0 retain "[] @ [Stream sid ?u 0 True []]"] unfolding loop_post_def by auto
  qed
qed

text \<open>
  Shutting down the sending side of a stream that still has unsent data announces a reset at the
  offset reached, and leaves the stream in the queue of sendable streams: the next packet carries a
  STREAM frame that ends the stream at that same offset, as if it had been completed.
\<close>

theorem shutdown_write_finishes_stream:
  assumes "params_ok lp" and "ok_run sm_step sm_ok (sm_new s w v lp) ops" and "sm = foldl sm_step (sm_new s w v lp) ops"
    and "peek_sendable (sm_sendable sm) = (queue, Some sid)" and "sm_streams sm sid = Some st"
    and "sb_error (st_send st) = None" and "rs_min (sb_retransmits (st_send st)) = None"
    and "stream_shutdown sid ShutdownWrite err sm = (sm1, Inr ())" and "MAX_STREAM_OVERHEAD < length buf"
  shows "sm_reset sm1 sid = Some (err, sb_unsent_off (st_send st))
    \<and> (\<exists>sm' out n frames. write_stream_loop retain (length buf) buf 0 [] sm1
         = Some (sm', out, n, Stream sid (sb_unsent_off (st_send st)) 0 True [] # frames, Inr ()))"
proof -
  have inv: "sm_inv sm" using smm.run_inv [OF sm_new_inv(3) [OF assms(1)] assms(2)] assms(3) by simp
  have ok: "send_ok (st_send st)" using sm_inv_tbl [OF inv] assms(5) by (simp add: tbl_ok_def)
  let ?sb = "(st_send st)\<lparr>sb_shut := True\<rparr>"
  note b = send_ok_bounds [OF ok]
  from sb_reset_closed [of ?sb] b small_u64 obtain sb
    where r: "sb_reset ?sb = (sb, sb_unsent_off (st_send st), sb_write_off (st_send st) - sb_unsent_off (st_send st))" "sb_closed sb"
      "sb_write_off sb = sb_unsent_off (st_send st)" "sb_error sb = sb_error (st_send st)" by auto
  have u: "sb_unsent_off sb = sb_unsent_off (st_send st)" using r(2,3) by (simp add: sb_closed_def)
  have "sb_retransmits sb = sb_retransmits (st_send st)" using r(1) by (auto simp: sb_reset_def sb_ack_def Let_def)
  then have off: "sb_send_off sb = sb_unsent_off sb" using assms(7) by (simp add: sb_send_off_def)
  have sm1: "sm_streams sm1 sid = Some (st\<lparr>st_send := sb\<rparr>)" "sm_sendable sm1 = sm_sendable sm" "sm_reset sm1 sid = Some (err, sb_unsent_off (st_send st))"
    using assms(5,8) r(1) by (auto simp: stream_shutdown_def sb_shutdown_def Let_def put_stream_def claw_back_def mark_reset_def
        mark_writable_def split: if_splits)
  have "sm_inv sm1" using sm_inv_sim [OF sim_shutdown inv] assms(8) by (metis fst_conv)
  from shutdown_sends_fin [OF sm_inv_tbl [OF this] assms(9), of queue sid "st\<lparr>st_send := sb\<rparr>" retain]
  show ?thesis using sm1 assms(4,6) r(2,4) off u by simp
qed

definition demo_writes :: "sm_op list" where
  "demo_writes = [MMaxStreamData 4 7, MMaxData 10, MWrite 4 [1, 2, 3] False]"

lemma demo_writes_ok: "ok_run sm_step sm_ok demo_server demo_writes"
  by (simp add: demo_writes_def del: sm_step.simps)

lemma demo_accept_fields:
  assumes "get_or_create 4 False demo_server = (sm, Inr st)"
  shows "sm_streams sm 4 = Some st" "sm_sendable sm = []" "sm_send_capacity sm = sc_default" "sm_is_server sm"
    "st = st_new True False 0 5 20"
proof -
  have "is_available 4 True (cc_new 3 3)" using demo_available [of 4] demo_kinds by simp
  moreover have "check_concurrency_limits 4 True (cc_new 3 3) = ((cc_new 3 3)\<lparr>peer_opened_streams_bidi := 2\<rparr>, Inr ())"
    using demo_kinds by (simp add: check_concurrency_limits_def cc_new_def Let_def u64_eval)
  ultimately have "sm_streams sm 4 = Some st \<and> sm_sendable sm = [] \<and> sm_send_capacity sm = sc_default \<and> sm_is_server sm \<and> st = st_new True False 0 5 20"
    using assms demo_kinds
    by (auto simp: get_or_create_def demo_server_def sm_new_def sm_is_closed_def demo_params_def VINT_MAX_def
        max_stream_data_limit_def put_stream_def Let_def sp_default_def)
  then show "sm_streams sm 4 = Some st" "sm_sendable sm = []" "sm_send_capacity sm = sc_default" "sm_is_server sm"
    "st = st_new True False 0 5 20" by blast+
qed

lemma demo_buffer:
  "\<exists>sb. sb_write [1, 2, 3] False (sb_update_max_data 7 (sb_new 0)) = (sb, Inr 3) \<and> sb_ready sb \<and> sb_error sb = None
     \<and> rs_min (sb_retransmits sb) = None \<and> \<not> sb_shut sb"
  "\<not> sb_ready (sb_update_max_data 7 (sb_new 0))"
  by (simp_all add: sb_update_max_data_def sb_eval)

lemma demo_written:
  assumes "sm = foldl sm_step demo_server demo_writes"
  shows "\<exists>queue st. peek_sendable (sm_sendable sm) = (queue, Some 4) \<and> sm_streams sm 4 = Some st \<and> sb_error (st_send st) = None
     \<and> rs_min (sb_retransmits (st_send st)) = None \<and> \<not> sb_shut (st_send st)"
proof -
  obtain sm0 st where g: "get_or_create 4 False demo_server = (sm0, Inr st)" using demo_accept [of 4] demo_kinds by auto
  note f = demo_accept_fields [OF g]
  let ?sb = "sb_update_max_data 7 (sb_new 0)"
  let ?st = "st\<lparr>st_send := ?sb\<rparr>"
  have snd: "st_send st = sb_new 0" using f(5) by (simp add: st_new_def)
  define sma where "sma = sm_step demo_server (MMaxStreamData 4 7)"
  have a: "sm_streams sma 4 = Some ?st" "sm_sendable sma = []" "sm_send_capacity sma = sc_default"
    unfolding sma_def using g f(1-4) snd demo_kinds demo_buffer(2)
    by (auto simp: on_max_stream_data_frame_received_def demo_server_def sm_new_def Let_def st_is_sendable_def mark_writable_def put_stream_def)
  define smb where "smb = sm_step sma (MMaxData 10)"
  have b: "sm_streams smb 4 = Some ?st" "sm_sendable smb = []" "sc_capacity (sm_send_capacity smb) = 10" "sc_max_data (sm_send_capacity smb) = 10" "sc_tx_data (sm_send_capacity smb) = 0"
    unfolding smb_def using a by (auto simp: on_max_data_frame_received_def Let_def sc_default_def sc_update_max_data_def
      sc_update_capacity_def sub64_nowrap)
  obtain sb where w: "sb_write [1, 2, 3] False ?sb = (sb, Inr 3)" "sb_ready sb" "sb_error sb = None" "rs_min (sb_retransmits sb) = None" "\<not> sb_shut sb"
    using demo_buffer(1) by blast
  have goc: "get_or_create 4 True smb = (smb, Inr ?st)" using b(1) by (simp add: get_or_create_def VINT_MAX_def)
  have mx: "\<not> max_tx_data_left smb < 3" using b(4,5) by (simp add: max_tx_data_left_def sub64_nowrap)
  have nb: "sb_ready (sb_update_blocked_at None sb) = sb_ready sb" by (simp add: sb_update_blocked_at_def sb_ready_def)
  have sm: "sm = sm_step smb (MWrite 4 [1, 2, 3] False)" using assms by (simp add: demo_writes_def sma_def smb_def)
  have "sm_streams sm 4 = Some (?st\<lparr>st_send := sb_update_blocked_at None sb\<rparr>) \<and> sm_sendable sm = push_sendable 4 127 True []"
    unfolding sm using b(1,2,3) goc mx w(1,2) demo_kinds demo_buffer(2) f(5)
    by (simp add: stream_write_def Let_def note_blocked_def st_is_sendable_def sm_push_sendable_def mark_writable_def mark_blocked_def
        put_stream_def st_new_def)
  then show ?thesis using w by (simp add: sb_update_blocked_at_def push_sendable_def peek_sendable_def pq_default_def)
qed

theorem shutdown_write_finishes_stream_witness:
  "\<exists>sm st sm1. sm = foldl sm_step demo_server demo_writes \<and> sm_streams sm 4 = Some st \<and> stream_shutdown 4 ShutdownWrite 9 sm = (sm1, Inr ())
     \<and> sm_reset sm1 4 = Some (9, sb_unsent_off (st_send st))"
proof -
  let ?sm = "foldl sm_step demo_server demo_writes"
  obtain queue st where d: "peek_sendable (sm_sendable ?sm) = (queue, Some 4)" "sm_streams ?sm 4 = Some st" "sb_error (st_send st) = None"
    "rs_min (sb_retransmits (st_send st)) = None" "\<not> sb_shut (st_send st)" using demo_written [OF refl] by blast
  obtain sm1 where s: "stream_shutdown 4 ShutdownWrite 9 ?sm = (sm1, Inr ())"
    using d(2,5) demo_kinds by (cases "sb_reset ((st_send st)\<lparr>sb_shut := True\<rparr>)") (simp add: stream_shutdown_def sb_shutdown_def Let_def)
  have "MAX_STREAM_OVERHEAD < length (replicate 40 (0 :: byte))" by (simp add: MAX_STREAM_OVERHEAD_def)
  from shutdown_write_finishes_stream [OF demo_params_ok demo_writes_ok [unfolded demo_server_def] refl d(1-4) [unfolded demo_server_def] s [unfolded demo_server_def] this]
  show ?thesis using d(2) s by (auto simp: demo_server_def)
qed

end
