(* ===== verification/ConnFlow.thy ===== *)
theory ConnFlow
  imports StreamTheorems
begin

text \<open>
  Connection-level flow control of what is received: the counters of \<open>src/connection/flowcontrol.rs\<close> as the
  operations of the stream table (\<open>src/connection/stream.rs\<close>) drive them.  No operation is assumed to stay within
  the limit: the two handlers that count received data, for STREAM and for RESET_STREAM frames, make the
  check themselves, and the lemmas here show for every operation what it does to the counters.
\<close>

subsection \<open>Operations that leave the counters alone\<close>

lemmas sm_mark_defs = put_stream_def mark_readable_def mark_writable_def mark_almost_full_def mark_blocked_def mark_reset_def
  mark_stopped_def update_data_blocked_at_def sm_push_sendable_def stream_destroy_def claw_back_def

lemma mark_closed_flow [simp]: "sm_flow_control (sm_mark_closed sid loc sm) = sm_flow_control sm"
  by (simp add: sm_mark_closed_def sm_mark_defs Let_def split: option.split prod.split)

lemma close_if_done_flow [simp]: "sm_flow_control (close_if_done sid st sm) = sm_flow_control sm"
  by (simp add: close_if_done_def)

lemma want_flow [simp]:
  "sm_flow_control (fst (want_write sid b sm)) = sm_flow_control sm"
  "sm_flow_control (fst (want_read sid b sm)) = sm_flow_control sm"
  by (simp_all add: want_write_def want_read_def sm_mark_defs split: option.split prod.split)


lemma note_blocked_flow [simp]: "sm_flow_control (note_blocked sid st short sm) = sm_flow_control sm"
  by (simp add: note_blocked_def sm_mark_defs Let_def)













subsection \<open>Operations that move the counters\<close>



lemma consume_flow: "sm_flow_control (consume_data n sm) = fc_increase_read_off n (sm_flow_control sm)"
  by (simp add: consume_data_def Let_def)









subsection \<open>The invariant\<close>












subsection \<open>Properties\<close>




text \<open>
  Data that arrives after \<open>shutdown\<close> of the receive side is counted as consumed when it arrives, and counted
  once more when the stream is reset: three bytes received leave six bytes consumed, and the next limit is three
  bytes further than the window allows.
\<close>

lemmas drain_eval = rv_new_def fc_new_def rv_write_def rb_new_def rb_max_off_def rb_len_def rv_max_data_def u64_eval Let_def
  rv_is_fin_def rb_is_empty_def skip_read_def place_buf_def bt_range_from_def store_buf_def rb_advance_def rb_split_off_def

lemma drained_stream:
  assumes "rv0 = (rv_new 5 20)\<lparr>rv_shut := True\<rparr>"
  obtains rv1 rv2 where "rv_write 0 [1, 2, 3] False rv0 = (rv1, Inr ())" "rv_read_off rv1 = 0" "rv_reset e 3 rv1 = (rv2, Inr 0)"
proof -
  let ?rv1 = "rv0\<lparr>rv_recv_off := 3\<rparr>"
  have "rv_write 0 [1, 2, 3] False rv0 = (?rv1, Inr ())"
    by (simp add: assms drain_eval)
  moreover have "\<exists>rv2. rv_reset e 3 ?rv1 = (rv2, Inr 0)"
    by (simp add: assms rv_reset_def drain_eval)
  ultimately show thesis using that assms by (auto simp: rv_new_def)
qed

lemma drained_data_counted_twice:
  assumes st: "sm_streams sm sid = Some st" "sid \<le> VINT_MAX" "is_bidi sid" "\<not> is_local sid (sm_is_server sm)"
    and rv: "st_recv st = (rv_new 5 20)\<lparr>rv_shut := True\<rparr>" and fc: "sm_flow_control sm = fc_new 10 20"
    and "on_stream_frame_received sid 0 3 False [1, 2, 3] sm = (sm1, r1)"
    and "on_reset_stream_frame_received sid e 3 sm1 = (sm2, r2)"
  shows "r1 = Inr () \<and> r2 = Inr () \<and> fc_recv_off (sm_flow_control sm2) = 3 \<and> fc_read_off (sm_flow_control sm2) = 6"
proof -
  obtain rv1 rv2 where w: "rv_write 0 [1, 2, 3] False (st_recv st) = (rv1, Inr ())" "rv_read_off rv1 = 0" "rv_reset e 3 rv1 = (rv2, Inr 0)"
    using drained_stream [OF rv] by blast
  have g: "get_or_create sid False sm = (sm, Inr st)" using st by (simp add: get_or_create_def)
  have 1: "r1 = Inr ()" "sm_flow_control sm1 = (fc_new 10 20)\<lparr>fc_recv_off := 3, fc_read_off := 3\<rparr>" "sm_is_server sm1 = sm_is_server sm"
    "sm_streams sm1 sid = Some (st\<lparr>st_recv := rv1\<rparr>)"
    using assms(7) st rv fc g w(1)
    by (auto simp: on_stream_frame_received_def max_rx_data_left_def st_is_draining_def rv_is_shutdown_def rv_new_def fc_new_def
        consume_data_def sm_mark_defs fc_defs u64_eval Let_def split: if_splits)
  have g1: "get_or_create sid False sm1 = (sm1, Inr (st\<lparr>st_recv := rv1\<rparr>))" using st(2) 1(4) by (simp add: get_or_create_def)
  show ?thesis using assms(8) 1 st(3,4) g1 w(2,3)
    by (auto simp: on_reset_stream_frame_received_def max_rx_data_left_def consume_flow sm_mark_defs fc_new_def fc_defs u64_eval Let_def
        split: if_splits)
qed

end
