(* ===== verification/Packet.thy ===== *)
theory Packet
  imports FrameWire
begin

text \<open>
  \<open>src/packet.rs\<close>: packet headers with their encoding and decoding, packet numbers, and header
  protection.  The masks come from the cryptographic library: a function from a sample to a mask of five
  octets is a parameter; so is the length of the integrity tag of a Retry packet.
\<close>

unbundle bit_operations_syntax

subsection \<open>Types\<close>

datatype level = LvInitial | LvZeroRTT | LvHandshake | LvOneRTT

datatype space_id = SpInitial | SpHandshake | SpData | SpDataExt u64

fun to_level :: "packet_type \<Rightarrow> level result" where
  "to_level Initial = Inr LvInitial"
| "to_level ZeroRTT = Inr LvZeroRTT"
| "to_level Handshake = Inr LvHandshake"
| "to_level OneRTT = Inr LvOneRTT"
| "to_level _ = Inl (Err InternalError)"

fun to_space :: "packet_type \<Rightarrow> space_id result" where
  "to_space Initial = Inr SpInitial"
| "to_space Handshake = Inr SpHandshake"
| "to_space ZeroRTT = Inr SpData"
| "to_space OneRTT = Inr SpData"
| "to_space _ = Inl (Err InternalError)"

record packet_header =
  ph_pkt_type :: packet_type
  ph_version :: "32 word"
  ph_dcid :: "byte list"
  ph_scid :: "byte list"
  ph_pkt_num_len :: usize
  ph_pkt_num :: u64
  ph_token :: "byte list option"
  ph_key_phase :: bool

definition HEADER_LONG_FORM_BIT :: byte where
  "HEADER_LONG_FORM_BIT = 0x80"

definition HEADER_FIXED_BIT :: byte where
  "HEADER_FIXED_BIT = 0x40"

definition HEADER_KEY_PHASE_BIT :: byte where
  "HEADER_KEY_PHASE_BIT = 0x04"

definition PKT_TYPE_MASK :: byte where
  "PKT_TYPE_MASK = 0x30"

definition PKT_NUM_LEN_MASK :: byte where
  "PKT_NUM_LEN_MASK = 0x03"

definition MAX_PKT_NUM_LEN :: usize where
  "MAX_PKT_NUM_LEN = 4"

definition SAMPLE_LEN :: usize where
  "SAMPLE_LEN = 16"

definition QUIC_VERSION_V1 :: "32 word" where
  "QUIC_VERSION_V1 = 1"

definition version_is_supported :: "32 word \<Rightarrow> bool" where
  "version_is_supported version \<longleftrightarrow> version = QUIC_VERSION_V1"

definition long_header :: "byte \<Rightarrow> bool" where
  "long_header header_first_byte \<longleftrightarrow> header_first_byte AND HEADER_LONG_FORM_BIT \<noteq> 0"

subsection \<open>Headers\<close>

text \<open>The two bits of the long packet type; the other types have no long header of this form.\<close>

fun long_type_bits :: "packet_type \<Rightarrow> byte option" where
  "long_type_bits Initial = Some 0x00"
| "long_type_bits ZeroRTT = Some 0x01"
| "long_type_bits Handshake = Some 0x02"
| "long_type_bits Retry = Some 0x03"
| "long_type_bits _ = None"

definition ph_write :: "packet_header \<Rightarrow> wbuf \<Rightarrow> wbuf result" where
  "ph_write h =
     (if ph_pkt_type h = OneRTT then
        let first = (if ph_key_phase h then HEADER_FIXED_BIT OR HEADER_KEY_PHASE_BIT else HEADER_FIXED_BIT)
                      OR word_of_nat (ph_pkt_num_len h - 1)
        in seqw [write_u8 first, write_bytes (ph_dcid h)]
      else case long_type_bits (ph_pkt_type h) of
             None \<Rightarrow> (\<lambda>b. Inl (Err InternalError))
           | Some pkt_type \<Rightarrow>
               let first = HEADER_LONG_FORM_BIT OR HEADER_FIXED_BIT OR push_bit 4 pkt_type OR word_of_nat (ph_pkt_num_len h - 1)
               in seqw ([write_u8 first, write_u32 (ph_version h), write_u8 (word_of_nat (length (ph_dcid h))),
                         write_bytes (ph_dcid h), write_u8 (word_of_nat (length (ph_scid h))), write_bytes (ph_scid h)]
                        @ (case ph_pkt_type h of
                             Initial \<Rightarrow> (case ph_token h of
                                           Some v \<Rightarrow> [write_varint (length v), write_bytes v]
                                         | None \<Rightarrow> [write_varint 0])
                           | Retry \<Rightarrow> (case ph_token h of Some v \<Rightarrow> [write_bytes v] | None \<Rightarrow> [\<lambda>b. Inl Panic])
                           | _ \<Rightarrow> [])))"

definition ph_to_bytes :: "packet_header \<Rightarrow> usize \<Rightarrow> (byte list \<times> usize) result" where
  "ph_to_bytes h room = rbind (ph_write h (wb_new room)) (\<lambda>b. Inr (wb_out b, room - wb_room b))"

definition read_cid :: "32 word \<Rightarrow> byte list reader" where
  "read_cid version b =
     rbind (read_u8 b) (\<lambda>(len, b).
       if version_is_supported version \<and> len > word_of_nat MAX_CID_LEN then Inl (Err InvalidPacket)
       else read_bytes (unat len) b)"

definition read_token :: "usize \<Rightarrow> packet_type \<Rightarrow> byte list option reader" where
  "read_token tag_len pkt_type b =
     (case pkt_type of
        Initial \<Rightarrow>
          rbind (read_varint b) (\<lambda>(token_len, b).
            if token_len > 0 then rbind (read_bytes token_len b) (\<lambda>(t, b). Inr (Some t, b)) else Inr (None, b))
      | Retry \<Rightarrow>
          if length b < tag_len then Inl (Err InvalidPacket)
          else rbind (read_bytes (length b - tag_len) b) (\<lambda>(t, b). Inr (Some t, b))
      | _ \<Rightarrow> Inr (None, b))"

definition long_type :: "32 word \<Rightarrow> byte \<Rightarrow> packet_type result" where
  "long_type version first =
     (if version = 0 then Inr VersionNegotiation
      else let t = drop_bit 4 (first AND PKT_TYPE_MASK)
           in if t = 0x00 then Inr Initial else if t = 0x01 then Inr ZeroRTT else if t = 0x02 then Inr Handshake
              else if t = 0x03 then Inr Retry else Inl (Err InvalidPacket))"

definition ph_parse :: "usize \<Rightarrow> usize \<Rightarrow> packet_header reader" where
  "ph_parse tag_len dcid_len b =
     rbind (read_u8 b) (\<lambda>(first, b).
       if \<not> long_header first then
         rbind (read_bytes dcid_len b) (\<lambda>(dcid, b).
           Inr (\<lparr>ph_pkt_type = OneRTT, ph_version = 0, ph_dcid = cid_new dcid, ph_scid = [], ph_pkt_num_len = 0,
                 ph_pkt_num = 0, ph_token = None, ph_key_phase = False\<rparr>, b))
       else
         rbind (read_u32 b) (\<lambda>(version, b).
         rbind (long_type version first) (\<lambda>pkt_type.
         rbind (read_cid version b) (\<lambda>(dcid, b).
         rbind (read_cid version b) (\<lambda>(scid, b).
         rbind (read_token tag_len pkt_type b) (\<lambda>(token, b).
           Inr (\<lparr>ph_pkt_type = pkt_type, ph_version = version, ph_dcid = cid_new dcid, ph_scid = cid_new scid,
                 ph_pkt_num_len = 0, ph_pkt_num = 0, ph_token = token, ph_key_phase = False\<rparr>, b)))))))"

definition ph_from_bytes :: "usize \<Rightarrow> byte list \<Rightarrow> usize \<Rightarrow> (packet_header \<times> usize) result" where
  "ph_from_bytes tag_len buf dcid_len = rbind (ph_parse tag_len dcid_len buf) (\<lambda>(h, b). Inr (h, length buf - length b))"

definition header_info :: "byte list \<Rightarrow> usize \<Rightarrow> (bool \<times> 32 word \<times> byte list) result" where
  "header_info buf dcid_len =
     rbind (read_u8 buf) (\<lambda>(first, b).
       if \<not> long_header first then rbind (read_bytes dcid_len b) (\<lambda>(dcid, _). Inr (False, 0, cid_new dcid))
       else
         rbind (read_u32 b) (\<lambda>(version, b).
         rbind (read_u8 b) (\<lambda>(dcid_len, b).
         rbind (read_bytes (unat dcid_len) b) (\<lambda>(dcid, _). Inr (True, version, cid_new dcid)))))"

text \<open>The first octet of a Version Negotiation packet is random.\<close>

definition version_negotiation :: "byte \<Rightarrow> byte list \<Rightarrow> byte list \<Rightarrow> wbuf \<Rightarrow> wbuf result" where
  "version_negotiation random scid dcid =
     seqw [write_u8 (random OR HEADER_LONG_FORM_BIT), write_u32 0,
           write_u8 (word_of_nat (length dcid)), write_bytes dcid, write_u8 (word_of_nat (length scid)), write_bytes scid,
           write_u32 QUIC_VERSION_V1]"

subsection \<open>Packet numbers\<close>

definition decode_packet_num :: "u64 \<Rightarrow> u64 \<Rightarrow> usize \<Rightarrow> u64" where
  "decode_packet_num largest_pn truncated_pn pkt_num_len =
     (let pn_nbits = pkt_num_len * 8;
          expected_pn = add64 largest_pn 1;
          pn_win = 2 ^ pn_nbits;
          pn_hwin = pn_win div 2;
          pn_mask = pn_win - 1;
          candidate_pn = unat (((word_of_nat expected_pn :: 64 word) AND NOT (word_of_nat pn_mask)) OR word_of_nat truncated_pn)
      in if add64 candidate_pn pn_hwin \<le> expected_pn \<and> candidate_pn < sub64 (2 ^ 62) pn_win then add64 candidate_pn pn_win
         else if candidate_pn > add64 expected_pn pn_hwin \<and> candidate_pn \<ge> pn_win then sub64 candidate_pn pn_win
         else candidate_pn)"

definition encode_packet_num :: "u64 \<Rightarrow> usize \<Rightarrow> wbuf \<Rightarrow> wbuf result" where
  "encode_packet_num pkt_num len =
     (if len = 1 then write_u8 (word_of_nat pkt_num)
      else if len = 2 then write_u16 (word_of_nat pkt_num)
      else if len = 3 then write_u24 (word_of_nat pkt_num)
      else if len = 4 then write_u32 (word_of_nat pkt_num)
      else (\<lambda>b. Inl (Err InvalidPacket)))"

text \<open>The position of the highest bit; a number has \<open>64 - bit_length n\<close> leading zeros.\<close>

fun bit_length :: "nat \<Rightarrow> nat" where
  "bit_length n = (if n = 0 then 0 else 1 + bit_length (n div 2))"

declare bit_length.simps [simp del]

definition leading_zeros :: "u64 \<Rightarrow> nat" where
  "leading_zeros n = 64 - bit_length n"

definition packet_num_len :: "u64 \<Rightarrow> u64 option \<Rightarrow> usize" where
  "packet_num_len pkt_num largest_acked =
     (let num_unacked = (case largest_acked of Some la \<Rightarrow> pkt_num - la | None \<Rightarrow> sat_add64 pkt_num 1);
          min_bits = 64 - leading_zeros num_unacked + 1
      in (min_bits + 7) div 8)"

subsection \<open>Header protection\<close>

definition first_mask :: "byte \<Rightarrow> byte list \<Rightarrow> byte" where
  "first_mask first msk = (if long_header first then first XOR (msk ! 0 AND 0x0f) else first XOR (msk ! 0 AND 0x1f))"

definition mask_pkt_num :: "usize \<Rightarrow> usize \<Rightarrow> byte list \<Rightarrow> byte list \<Rightarrow> byte list" where
  "mask_pkt_num off n msk buf = take off buf @ map2 (XOR) (take n (drop off buf)) (take n (drop 1 msk)) @ drop (off + n) buf"

definition encrypt_header :: "(byte list \<Rightarrow> byte list result) \<Rightarrow> byte list \<Rightarrow> usize \<Rightarrow> byte list \<Rightarrow> byte list result" where
  "encrypt_header new_mask hdr_buf pkt_num_len payload =
     (let sample_start = sub64 MAX_PKT_NUM_LEN pkt_num_len;
          sample_end = add64 sample_start SAMPLE_LEN
      in if sample_start > sample_end \<or> sample_end > length payload then Inl Panic
         else
           rbind (new_mask (take SAMPLE_LEN (drop sample_start payload))) (\<lambda>msk.
             case hdr_buf of
               [] \<Rightarrow> Inl Panic
             | first # rest \<Rightarrow>
                 if length rest < pkt_num_len then Inl Panic
                 else Inr (first_mask first msk # mask_pkt_num (length rest - pkt_num_len) pkt_num_len msk rest)))"

definition read_pkt_num :: "usize \<Rightarrow> byte list \<Rightarrow> u64 result" where
  "read_pkt_num n b =
     (if n = 1 then rbind (read_u8 b) (\<lambda>(x, _). Inr (unat x))
      else if n = 2 then rbind (read_u16 b) (\<lambda>(x, _). Inr (unat x))
      else if n = 3 then rbind (read_u24 b) (\<lambda>(x, _). Inr (unat x))
      else if n = 4 then rbind (read_u32 b) (\<lambda>(x, _). Inr (unat x))
      else Inl (Err InvalidPacket))"

definition decrypt_header ::
    "(byte list \<Rightarrow> byte list result) \<Rightarrow> byte list \<Rightarrow> usize \<Rightarrow> packet_header \<Rightarrow> bool \<Rightarrow> (byte list \<times> packet_header) result" where
  "decrypt_header new_mask pkt_buf pkt_num_offset hdr plaintext_mode =
     (let pkt_buf_min = (if \<not> plaintext_mode then pkt_num_offset + MAX_PKT_NUM_LEN + SAMPLE_LEN
                         else pkt_num_offset + MAX_PKT_NUM_LEN)
      in if length pkt_buf < pkt_buf_min then Inl (Err BufferTooShort)
         else
           rbind (if \<not> plaintext_mode then
                    rbind (new_mask (take SAMPLE_LEN (drop (pkt_num_offset + MAX_PKT_NUM_LEN) pkt_buf))) (\<lambda>msk.
                      let first = first_mask (pkt_buf ! 0) msk;
                          pkt_num_len = unat ((first AND PKT_NUM_LEN_MASK) + 1)
                      in Inr (first, pkt_num_len, mask_pkt_num pkt_num_offset pkt_num_len msk pkt_buf))
                  else
                    let first = pkt_buf ! 0
                    in Inr (first, unat ((first AND PKT_NUM_LEN_MASK) + 1), pkt_buf)) (\<lambda>(first, pkt_num_len, buf).
           rbind (read_pkt_num pkt_num_len (take pkt_num_len (drop pkt_num_offset buf))) (\<lambda>pkt_num.
             let hdr1 = hdr\<lparr>ph_pkt_num_len := pkt_num_len, ph_pkt_num := pkt_num\<rparr>;
                 hdr2 = (if ph_pkt_type hdr1 = OneRTT then hdr1\<lparr>ph_key_phase := first AND HEADER_KEY_PHASE_BIT \<noteq> 0\<rparr> else hdr1)
             in Inr (buf[0 := first], hdr2))))"

subsection \<open>Packet numbers are recovered\<close>

lemma high_bits:
  assumes "k < 64" "e < u64_mod" "t < 2 ^ k"
  shows "unat (((word_of_nat e :: 64 word) AND NOT (word_of_nat (2 ^ k - 1))) OR word_of_nat t) = e div 2 ^ k * 2 ^ k + t"
proof -
  have e: "take_bit 64 e = e" using assms(2) by (simp add: take_bit_nat_eq_self_iff u64_mod_def)
  have "(2 :: nat) ^ k < 2 ^ 64" using assms(1) by (intro power_strict_increasing) auto
  then have t: "take_bit 64 t = t" using assms(3) by (simp add: take_bit_nat_eq_self_iff)
  have m: "(word_of_nat (2 ^ k - 1) :: 64 word) = mask k" by (simp add: mask_eq_exp_minus_1 of_nat_diff)
  have "(word_of_nat e :: 64 word) AND NOT (mask k) = push_bit k (drop_bit k (word_of_nat e))"
    by (rule bit_eqI) (auto simp: bit_simps)
  then have "unat (((word_of_nat e :: 64 word) AND NOT (word_of_nat (2 ^ k - 1))) OR word_of_nat t)
      = take_bit 64 (push_bit k (drop_bit k e)) OR t"
    unfolding m by (simp add: unsigned_or_eq unsigned_push_bit_eq unsigned_drop_bit_eq unsigned_of_nat e t)
  also have "take_bit 64 (push_bit k (drop_bit k e)) = push_bit k (drop_bit k e)"
  proof -
    have "push_bit k (drop_bit k e) \<le> e" by (simp add: push_bit_eq_mult drop_bit_eq_div)
    then show ?thesis using assms(2) by (simp add: take_bit_nat_eq_self_iff u64_mod_def)
  qed
  also have "push_bit k (drop_bit k e) OR t = e div 2 ^ k * 2 ^ k + t"
  proof -
    have "int t < int (2 ^ k)" using assms(3) by (simp only: of_nat_less_iff)
    then have tb: "take_bit k (int t) = int t" by (simp add: take_bit_int_eq_self_iff)
    have "int (push_bit k (drop_bit k e) OR t) = concat_bit k (int t) (drop_bit k (int e))"
      by (simp add: concat_bit_def of_nat_or_eq of_nat_push_bit of_nat_drop_bit or.commute tb)
    also have "\<dots> = int (e div 2 ^ k * 2 ^ k + t)"
      by (simp add: concat_bit_eq push_bit_eq_mult drop_bit_eq_div tb zdiv_int)
    finally show ?thesis by (simp only: of_nat_eq_iff)
  qed
  finally show ?thesis .
qed

lemma bit_length_upper: "n < 2 ^ bit_length n"
proof (induction n rule: bit_length.induct)
  case (1 n)
  show ?case
  proof (cases "n = 0")
    case False
    then have "n div 2 < 2 ^ bit_length (n div 2)" using 1 by simp
    moreover have "bit_length n = 1 + bit_length (n div 2)" using False by (simp add: bit_length.simps [of n])
    ultimately show ?thesis by simp
  qed (simp add: bit_length.simps)
qed

lemma bit_length_le: "n < 2 ^ k \<Longrightarrow> bit_length n \<le> k"
proof (induction n arbitrary: k rule: bit_length.induct)
  case (1 n)
  show ?case
  proof (cases "n = 0")
    case False
    then obtain k' where k: "k = Suc k'" using 1(2) by (cases k) auto
    then have "n div 2 < 2 ^ k'" using 1(2) by simp
    then show ?thesis using 1(1) [OF False, of k'] False k by (simp add: bit_length.simps [of n])
  qed (simp add: bit_length.simps)
qed

definition unacked :: "u64 \<Rightarrow> u64 option \<Rightarrow> nat" where
  "unacked pn la = (case la of Some a \<Rightarrow> pn - a | None \<Rightarrow> pn + 1)"

lemma packet_num_len_half:
  assumes "pn < 2 ^ 62"
  shows "unacked pn la < 2 ^ (8 * packet_num_len pn la - 1)" "0 < packet_num_len pn la"
proof -
  have sat: "sat_add64 pn (Suc 0) = Suc pn" using assms by (simp add: sat_add64_def u64_max_def u64_mod_def)
  let ?u = "unacked pn la" and ?b = "bit_length (unacked pn la)"
  have "?u < 2 ^ 64" using assms by (auto simp: unacked_def split: option.split)
  then have b: "?b \<le> 64" by (rule bit_length_le)
  have len: "packet_num_len pn la = (?b + 8) div 8"
    using b by (cases la) (simp_all add: packet_num_len_def leading_zeros_def unacked_def sat Let_def)
  then show "0 < packet_num_len pn la" by simp
  have "?b \<le> 8 * packet_num_len pn la - 1" unfolding len by presburger
  then have "(2 :: nat) ^ ?b \<le> 2 ^ (8 * packet_num_len pn la - 1)" by (intro power_increasing) auto
  with bit_length_upper [of ?u] show "?u < 2 ^ (8 * packet_num_len pn la - 1)" by (rule less_le_trans)
qed

lemma near_blocks:
  fixes a b r t w h :: nat
  assumes "w = 2 * h" "r < w" "t < w" "b * w + t \<le> a * w + r + h" "a * w + r < b * w + t + h"
  shows "b = a \<or> b = a + 1 \<or> b + 1 = a"
proof -
  have "b < a + 2"
  proof (rule ccontr)
    assume "\<not> b < a + 2"
    then have "(a + 2) * w \<le> b * w" by (intro mult_le_mono1) simp
    with assms show False by (simp add: algebra_simps)
  qed
  moreover have "a < b + 2"
  proof (rule ccontr)
    assume "\<not> a < b + 2"
    then have "(b + 2) * w \<le> a * w" by (intro mult_le_mono1) simp
    with assms show False by (simp add: algebra_simps)
  qed
  ultimately show ?thesis by presburger
qed

lemma decode_near:
  assumes n: "0 < n" "n \<le> 4" and pn: "pn < 2 ^ 62"
    and lo: "L + 1 < pn + 2 ^ (8 * n - 1)" and hi: "pn \<le> L + 1 + 2 ^ (8 * n - 1)"
  shows "decode_packet_num L (pn mod 2 ^ (8 * n)) n = pn"
proof -
  define h :: nat where "h = 2 ^ (8 * n - 1)"
  define w :: nat where "w = 2 ^ (n * 8)"
  have w: "w = 2 * h" using n(1) by (simp add: w_def h_def power_Suc [symmetric] mult.commute del: power_Suc)
  have "h \<le> 2 ^ 31" unfolding h_def using n(2) by (intro power_increasing) auto
  then have hb: "h \<le> 2147483648" "0 < h" by (simp_all add: h_def)
  let ?e = "L + 1"
  define a r where "a = ?e div w" and "r = ?e mod w"
  define b t where "b = pn div w" and "t = pn mod w"
  have e: "?e = a * w + r" "r < w" and p: "pn = b * w + t" "t < w"
    using hb(2) w by (simp_all only: a_def r_def b_def t_def div_mult_mod_eq mod_less_divisor)
  have near: "pn \<le> ?e + h" "?e < pn + h" using lo hi by (simp_all add: h_def)
  have eb: "?e < 2 ^ 62 + 2147483648" using near(2) pn hb(1) by simp
  have c: "unat (((word_of_nat ?e :: 64 word) AND NOT (word_of_nat (w - 1))) OR word_of_nat t) = a * w + t"
    unfolding w_def a_def by (rule high_bits) (use n(2) eb p(2) in \<open>simp_all add: u64_mod_def w_def\<close>)
  have le: "add64 L 1 = ?e" using eb by (intro add64_nowrap) (simp add: u64_mod_def)
  have aw: "a * w \<le> ?e" using e(1) by simp
  have nw: "add64 (a * w + t) h = a * w + t + h" "add64 ?e h = ?e + h" "add64 (a * w + t) w = a * w + t + w"
    "sub64 (2 ^ 62) w = 2 ^ 62 - w"
    using aw eb p(2) hb w by (simp_all add: add64_nowrap sub64_nowrap u64_mod_def)
  have dec: "decode_packet_num L (pn mod 2 ^ (8 * n)) n
     = (if a * w + t + h \<le> ?e \<and> a * w + t < 2 ^ 62 - w then a * w + t + w
        else if a * w + t > ?e + h \<and> a * w + t \<ge> w then sub64 (a * w + t) w else a * w + t)"
    unfolding decode_packet_num_def Let_def le w_def [symmetric] mult.commute [of 8 n] t_def [symmetric] c
    using nw w by simp
  from near_blocks [OF w e(2) p(2)] near e(1) p(1) have "b = a \<or> b = a + 1 \<or> b + 1 = a" by simp
  then consider "b = a" | "b = a + 1" | "a = b + 1" by fastforce
  then show ?thesis
  proof cases
    case 1
    then show ?thesis using dec near p(1) by simp
  next
    case 2
    then have "pn = a * w + t + w" using p(1) by simp
    then show ?thesis using dec near w pn by simp
  next
    case 3
    then have q: "a * w + t = pn + w" using p(1) by simp
    then show ?thesis using dec near w by (simp add: sub64_nowrap)
  qed
qed

subsection \<open>Header protection\<close>

lemma long_header_masked [simp]: "long_header (first_mask f m) = long_header f"
proof -
  have "(f XOR (x AND 0x0f)) AND 0x80 = f AND 0x80" "(f XOR (x AND 0x1f)) AND 0x80 = f AND 0x80" for x :: byte
  proof -
    have "(0x0f :: byte) AND 0x80 = 0" "(0x1f :: byte) AND 0x80 = 0" by simp_all
    then show "(f XOR (x AND 0x0f)) AND 0x80 = f AND 0x80" "(f XOR (x AND 0x1f)) AND 0x80 = f AND 0x80"
      by (simp_all add: bit.conj_xor_distrib2 and.assoc)
  qed
  then show ?thesis by (simp add: first_mask_def long_header_def HEADER_LONG_FORM_BIT_def)
qed

lemma first_mask_twice: "first_mask (first_mask f m) m = f"
proof -
  have "first_mask (first_mask f m) m = (if long_header f then first_mask f m XOR (m ! 0 AND 0x0f) else first_mask f m XOR (m ! 0 AND 0x1f))"
    by (simp add: first_mask_def [of "first_mask f m"])
  then show ?thesis by (simp add: first_mask_def xor.assoc)
qed

lemma xor_twice: "length xs \<le> length ys \<Longrightarrow> map2 (XOR) (map2 (XOR) xs ys) ys = (xs :: byte list)"
  by (induction xs ys rule: list_induct2') (simp_all add: xor.assoc)

lemma mask_pkt_num_split:
  assumes "length pre = off" "length pn = n"
  shows "mask_pkt_num off n m (pre @ pn @ post) = pre @ map2 (XOR) pn (take n (drop 1 m)) @ post"
  using assms by (simp add: mask_pkt_num_def)

lemma encrypt_header_eq:
  assumes n: "0 < n" "n \<le> 4" and pnb: "length pnb = n" and pay: "20 \<le> n + length payload"
    and m: "new_mask (take SAMPLE_LEN (drop (4 - n) payload)) = Inr m"
  shows "encrypt_header new_mask (first # mid @ pnb) n payload
     = Inr (first_mask first m # mid @ map2 (XOR) pnb (take n (drop 1 m)))"
proof -
  have s: "sub64 MAX_PKT_NUM_LEN n = 4 - n" using n(2) by (simp add: MAX_PKT_NUM_LEN_def sub64_nowrap)
  have a: "add64 (4 - n) SAMPLE_LEN = 20 - n" using n by (simp add: SAMPLE_LEN_def add64_nowrap u64_mod_def)
  have "mask_pkt_num (length mid) n m (mid @ pnb) = mid @ map2 (XOR) pnb (take n (drop 1 m))"
    using mask_pkt_num_split [OF refl pnb, of mid m "[]"] by simp
  moreover have "\<not> (4 - n > 20 - n \<or> 20 - n > length payload)" using n pay by linarith
  ultimately show ?thesis using pnb m by (simp add: encrypt_header_def Let_def s a)
qed

lemma decrypt_header_eq:
  assumes n: "0 < n" "n \<le> 4" and pnb: "length pnb = n" and pay: "20 \<le> n + length payload"
    and m: "new_mask (take SAMPLE_LEN (drop (4 - n) payload)) = Inr m" and len: "length m = 5"
    and bits: "unat ((first AND PKT_NUM_LEN_MASK) + 1) = n"
  shows "decrypt_header new_mask ((first_mask first m # mid @ map2 (XOR) pnb (take n (drop 1 m))) @ payload) (1 + length mid) h False
     = rbind (read_pkt_num n pnb) (\<lambda>x. Inr ((first # mid @ pnb) @ payload,
         if ph_pkt_type h = OneRTT then h\<lparr>ph_pkt_num_len := n, ph_pkt_num := x, ph_key_phase := first AND HEADER_KEY_PHASE_BIT \<noteq> 0\<rparr>
         else h\<lparr>ph_pkt_num_len := n, ph_pkt_num := x\<rparr>))"
proof -
  define p where "p = map2 (XOR) pnb (take n (drop 1 m))"
  let ?buf = "first_mask first m # mid @ p @ payload"
  have lp: "length p = n" using pnb len n(2) by (simp add: p_def)
  have big: "\<not> length ?buf < 1 + length mid + MAX_PKT_NUM_LEN + SAMPLE_LEN"
    using lp pay by (simp add: MAX_PKT_NUM_LEN_def SAMPLE_LEN_def)
  have "drop (1 + length mid + 4) ?buf = drop (length (first_mask first m # mid @ p) + (4 - n)) ((first_mask first m # mid @ p) @ payload)"
    using lp n(2) by simp
  then have "drop (1 + length mid + 4) ?buf = drop (4 - n) payload" by (simp only: drop_append) simp
  then have sample: "take SAMPLE_LEN (drop (1 + length mid + MAX_PKT_NUM_LEN) ?buf) = take SAMPLE_LEN (drop (4 - n) payload)"
    by (simp only: MAX_PKT_NUM_LEN_def)
  have tw: "map2 (XOR) p (take n (drop 1 m)) = pnb" using xor_twice [of pnb "take n (drop 1 m)"] pnb len n(2) by (simp add: p_def)
  have buf: "mask_pkt_num (1 + length mid) n m ?buf = first_mask first m # mid @ pnb @ payload"
    using mask_pkt_num_split [of "first_mask first m # mid" "1 + length mid" p n m payload] lp tw by simp
  have nth: "?buf ! 0 = first_mask first m" by simp
  have "take n (drop (1 + length mid) (first_mask first m # mid @ pnb @ payload)) = pnb" using pnb by simp
  then have "decrypt_header new_mask ?buf (1 + length mid) h False
     = rbind (read_pkt_num n pnb) (\<lambda>x. Inr ((first_mask first m # mid @ pnb @ payload)[0 := first],
         if ph_pkt_type h = OneRTT then h\<lparr>ph_pkt_num_len := n, ph_pkt_num := x, ph_key_phase := first AND HEADER_KEY_PHASE_BIT \<noteq> 0\<rparr>
         else h\<lparr>ph_pkt_num_len := n, ph_pkt_num := x\<rparr>))"
    unfolding decrypt_header_def Let_def if_P [OF refl] simp_thms if_not_P [OF big] if_True sample m rbind_simps nth first_mask_twice bits buf
      prod.case by (simp del: drop_Suc_Cons)
  then show ?thesis by (simp add: p_def)
qed

lemma u24_high: "unat (drop_bit 16 ((w :: 32 word) AND 0x00FF0000)) = unat w div 65536 mod 256"
proof -
  have "drop_bit 16 (w AND 0x00FF0000) = drop_bit 16 w AND 255" by simp
  also have "\<dots> = take_bit 8 (drop_bit 16 w)" by (simp add: take_bit_eq_mask mask_eq_exp_minus_1)
  finally have "unat (drop_bit 16 (w AND 0x00FF0000)) = drop_bit 16 (unat w) mod 2 ^ 8" by (simp only: unat_take_bit unat_drop_bit_eq)
  then show ?thesis by (simp add: drop_bit_eq_div)
qed

lemma u24_low: "unat (ucast ((w :: 32 word) AND 0xFFFF) :: 16 word) = unat w mod 65536"
proof -
  have "w AND 0xFFFF = take_bit 16 w" by (simp add: take_bit_eq_mask mask_eq_exp_minus_1)
  then have "unat (ucast (w AND 0xFFFF) :: 16 word) = take_bit 16 (unat (take_bit 16 w))" by (simp only: unsigned_ucast_eq) simp
  also have "unat (take_bit 16 w) = unat w mod 2 ^ 16" by (rule unat_take_bit)
  finally show ?thesis by (simp add: take_bit_eq_mod)
qed

lemma u24_read:
  assumes "x < 256" "y < 65536"
  shows "read_u24 ((word_of_nat x :: byte) # be_bytes 2 y) = Inr (word_of_nat (x * 65536 + y), [])"
proof -
  have b: "be_bytes 2 y = [word_of_nat (y div 256), word_of_nat y]" by (simp add: be_bytes_def upt_rec)
  have u: "unat (word_of_nat x :: byte) = x" "unat (word_of_nat (y div 256) :: byte) = y div 256" "unat (word_of_nat y :: byte) = y mod 256"
    using assms by (simp_all add: unat_of_nat)
  have "ucast (word_of_nat y :: byte) = (word_of_nat (y mod 256) :: 32 word)"
    unfolding u(3) [symmetric] by (rule of_nat_unat [symmetric])
  moreover have "push_bit 8 (word_of_nat (x * 256 + y div 256)) + word_of_nat (y mod 256)
      = (word_of_nat ((x * 256 + y div 256) * 256 + y mod 256) :: 32 word)"
    unfolding push_bit_eq_mult by (simp only: of_nat_add of_nat_mult of_nat_numeral of_nat_power) simp
  moreover have "(x * 256 + y div 256) * 256 + y mod 256 = x * 65536 + y" by (simp add: algebra_simps)
  moreover have "(word_of_nat (y div 256) * 256 + word_of_nat (y mod 256) :: 32 word) = word_of_nat (y div 256 * 256 + y mod 256)"
    by (simp only: of_nat_add of_nat_mult of_nat_numeral)
  ultimately show ?thesis by (simp add: read_u24_def take_bytes_eq b be_nat_def u)
qed

lemma div_mod_u24: "(pn mod 4294967296) div 65536 mod 256 = pn div 65536 mod (256 :: nat)"
proof -
  have "pn mod 4294967296 = 65536 * (pn div 65536 mod 65536) + pn mod 65536" using mod_mult2_eq [of pn 65536 65536] by simp
  then have "(pn mod 4294967296) div 65536 = pn div 65536 mod 65536" by simp
  then show ?thesis by (simp add: mod_mod_cancel)
qed

lemma encode_packet_num_read:
  assumes "0 < n" "n \<le> 4" "encode_packet_num pn n (wb_new room) = Inr b"
  shows "length (wb_out b) = n" "read_pkt_num n (wb_out b) = Inr (pn mod 2 ^ (8 * n))"
proof -
  have e: "wb_out b = x" if "emit x (wb_new room) = Inr b" for x using that by (auto simp: emit_def wb_new_def split: if_splits)
  from assms(1,2) consider "n = 1" | "n = 2" | "n = 3" | "n = 4" by linarith
  then have "length (wb_out b) = n \<and> read_pkt_num n (wb_out b) = Inr (pn mod 2 ^ (8 * n))"
  proof cases
    case 1
    then have "wb_out b = [word_of_nat pn]" using assms(3) e by (simp add: encode_packet_num_def write_u8_def)
    then show ?thesis using 1 by (simp add: read_pkt_num_def read_u8_def unat_of_nat)
  next
    case 2
    then have "wb_out b = be_bytes 2 (unat (word_of_nat pn :: 16 word))" using assms(3) e by (simp add: encode_packet_num_def write_u16_def)
    then show ?thesis using 2 w16.roundtrip [of "word_of_nat pn" "[]"] by (simp add: read_pkt_num_def unat_of_nat be_bytes_def)
  next
    case 3
    then have "wb_out b = (word_of_nat (unat (drop_bit 16 ((word_of_nat pn :: 32 word) AND 0x00FF0000))) :: byte)
        # be_bytes 2 (unat (ucast ((word_of_nat pn :: 32 word) AND 0xFFFF) :: 16 word))"
      using assms(3) e by (simp add: encode_packet_num_def write_u24_def)
    then have "wb_out b = (word_of_nat (pn div 65536 mod 256) :: byte) # be_bytes 2 (pn mod 65536)"
      by (simp only: u24_high u24_low unat_of_nat) (simp add: mod_mod_cancel div_mod_u24)
    moreover have "pn div 65536 mod 256 * 65536 + pn mod 65536 = pn mod 2 ^ 24" using mod_mult2_eq [of pn 65536 256] by simp
    ultimately show ?thesis using 3 u24_read [of "pn div 65536 mod 256" "pn mod 65536"]
      by (simp add: read_pkt_num_def unat_of_nat be_bytes_def)
  next
    case 4
    then have "wb_out b = be_bytes 4 (unat (word_of_nat pn :: 32 word))" using assms(3) e by (simp add: encode_packet_num_def write_u32_def)
    then show ?thesis using 4 w32.roundtrip [of "word_of_nat pn" "[]"] by (simp add: read_pkt_num_def unat_of_nat be_bytes_def)
  qed
  then show "length (wb_out b) = n" "read_pkt_num n (wb_out b) = Inr (pn mod 2 ^ (8 * n))" by blast+
qed

text \<open>
  C29.  A packet number survives the wire: truncated to the length chosen from what is acknowledged,
  written into the header, masked, unmasked and expanded by a receiver that has processed at least what
  it acknowledged and is not half a window ahead, it is the number that was sent; the packet is
  restored octet for octet, and the key phase is that of the first octet.
\<close>

theorem packet_number_survives:
  assumes mask5: "\<And>s. length s = SAMPLE_LEN \<Longrightarrow> \<exists>m. new_mask s = Inr m \<and> length m = 5"
    and pn: "pn < 2 ^ 62" and n: "n = packet_num_len pn la" "n \<le> 4"
    and enc: "encode_packet_num pn n (wb_new room) = Inr b" and bits: "unat ((first AND PKT_NUM_LEN_MASK) + 1) = n"
    and pay: "20 \<le> n + length payload"
    and la: "\<forall>a. la = Some a \<longrightarrow> a \<le> L" and ahead: "L + 1 < pn + 2 ^ (8 * n - 1)"
  shows "\<exists>hdr' h'. encrypt_header new_mask (first # mid @ wb_out b) n payload = Inr hdr'
    \<and> decrypt_header new_mask (hdr' @ payload) (1 + length mid) h False = Inr ((first # mid @ wb_out b) @ payload, h')
    \<and> decode_packet_num L (ph_pkt_num h') (ph_pkt_num_len h') = pn \<and> ph_pkt_num_len h' = n
    \<and> (ph_pkt_type h = OneRTT \<longrightarrow> ph_key_phase h' = (first AND HEADER_KEY_PHASE_BIT \<noteq> 0))"
proof -
  have n0: "0 < n" using packet_num_len_half(2) [OF pn] n(1) by simp
  note w = encode_packet_num_read [OF n0 n(2) enc]
  have "length (take SAMPLE_LEN (drop (4 - n) payload)) = SAMPLE_LEN" using pay n(2) by (simp add: SAMPLE_LEN_def)
  from mask5 [OF this] obtain m where m: "new_mask (take SAMPLE_LEN (drop (4 - n) payload)) = Inr m" "length m = 5" by blast
  have "pn \<le> L + 1 + 2 ^ (8 * n - 1)"
    using packet_num_len_half(1) [OF pn, of la] la by (auto simp: n(1) unacked_def split: option.splits)
  from decode_near [OF n0 n(2) pn ahead this] have "decode_packet_num L (pn mod 2 ^ (8 * n)) n = pn" .
  then show ?thesis
    using encrypt_header_eq [where new_mask = new_mask and first = first and mid = mid, OF n0 n(2) w(1) pay m(1)]
      decrypt_header_eq [where new_mask = new_mask and first = first and mid = mid and h = h, OF n0 n(2) w(1) pay m bits] w(2)
    by auto
qed

definition demo_mask :: "byte list \<Rightarrow> byte list result" where
  "demo_mask s = Inr (take 5 s)"

definition demo_header :: packet_header where
  "demo_header = \<lparr>ph_pkt_type = OneRTT, ph_version = 0, ph_dcid = [], ph_scid = [], ph_pkt_num_len = 0,
     ph_pkt_num = 0, ph_token = None, ph_key_phase = False\<rparr>"

lemma demo_len: "packet_num_len 300 (Some 250) = 1"
proof -
  have "bit_length 50 = 6"
    by (simp add: bit_length.simps [of 50] bit_length.simps [of 25] bit_length.simps [of 12] bit_length.simps [of 6]
        bit_length.simps [of 3] bit_length.simps [of 1] bit_length.simps [of "Suc 0"] bit_length.simps [of 0])
  then show ?thesis by (simp add: packet_num_len_def leading_zeros_def)
qed

theorem packet_number_survives_witness:
  "\<exists>hdr' h'. encrypt_header demo_mask (0x44 # [7, 8] @ [44]) 1 (replicate 19 9) = Inr hdr'
    \<and> decrypt_header demo_mask (hdr' @ replicate 19 9) (1 + length [7 :: byte, 8]) demo_header False
        = Inr ((0x44 # [7, 8] @ [44]) @ replicate 19 9, h')
    \<and> decode_packet_num 299 (ph_pkt_num h') (ph_pkt_num_len h') = 300 \<and> ph_key_phase h'"
proof -
  have a: "\<exists>m. demo_mask s = Inr m \<and> length m = 5" if "length s = SAMPLE_LEN" for s
    using that by (simp add: demo_mask_def SAMPLE_LEN_def)
  have e: "encode_packet_num 300 1 (wb_new 4) = Inr \<lparr>wb_out = [44], wb_room = 3\<rparr>"
    by (simp add: encode_packet_num_def write_u8_def emit_def wb_new_def)
  have b: "unat (((0x44 :: byte) AND PKT_NUM_LEN_MASK) + 1) = 1" by (simp add: PKT_NUM_LEN_MASK_def)
  have k: "(0x44 :: byte) AND HEADER_KEY_PHASE_BIT \<noteq> 0" by (simp add: HEADER_KEY_PHASE_BIT_def)
  have t: "ph_pkt_type demo_header = OneRTT" by (simp add: demo_header_def)
  have "\<exists>hdr' h'. encrypt_header demo_mask (0x44 # [7, 8] @ wb_out \<lparr>wb_out = [44], wb_room = 3\<rparr>) 1 (replicate 19 9) = Inr hdr'
    \<and> decrypt_header demo_mask (hdr' @ replicate 19 9) (1 + length [7 :: byte, 8]) demo_header False
        = Inr ((0x44 # [7, 8] @ wb_out \<lparr>wb_out = [44], wb_room = 3\<rparr>) @ replicate 19 9, h')
    \<and> decode_packet_num 299 (ph_pkt_num h') (ph_pkt_num_len h') = 300 \<and> ph_pkt_num_len h' = 1
    \<and> (ph_pkt_type demo_header = OneRTT \<longrightarrow> ph_key_phase h' = ((0x44 :: byte) AND HEADER_KEY_PHASE_BIT \<noteq> 0))"
    by (rule packet_number_survives [OF a _ demo_len [symmetric] _ e b]) simp_all
  then show ?thesis using k t unfolding wbuf.select_convs by blast
qed

subsection \<open>Headers round-trip\<close>

text \<open>What the decoder recovers of a header: the packet number comes with the removal of header protection.\<close>

definition decoded_header :: "packet_header \<Rightarrow> packet_header" where
  "decoded_header h =
     (if ph_pkt_type h = OneRTT then
        \<lparr>ph_pkt_type = OneRTT, ph_version = 0, ph_dcid = ph_dcid h, ph_scid = [], ph_pkt_num_len = 0, ph_pkt_num = 0,
         ph_token = None, ph_key_phase = False\<rparr>
      else h\<lparr>ph_pkt_num_len := 0, ph_pkt_num := 0, ph_key_phase := False,
             ph_token := (if ph_pkt_type h = Initial \<and> ph_token h = Some [] then None
                          else if ph_pkt_type h = Initial \<or> ph_pkt_type h = Retry then ph_token h else None)\<rparr>)"

definition header_ok :: "packet_header \<Rightarrow> bool" where
  "header_ok h \<longleftrightarrow> ph_pkt_type h \<noteq> VersionNegotiation \<and> (ph_pkt_type h = OneRTT \<or> ph_version h \<noteq> 0)
     \<and> ph_pkt_num_len h \<le> 4 \<and> length (ph_dcid h) \<le> MAX_CID_LEN \<and> length (ph_scid h) \<le> MAX_CID_LEN
     \<and> (ph_pkt_type h = Retry \<longrightarrow> ph_token h \<noteq> None)
     \<and> (\<forall>t. ph_token h = Some t \<longrightarrow> length t \<le> VINT_MAX)"

definition token_bytes :: "packet_header \<Rightarrow> byte list" where
  "token_bytes h =
     (case ph_pkt_type h of
        Initial \<Rightarrow> (case ph_token h of Some v \<Rightarrow> varint_bytes (length v) @ v | None \<Rightarrow> varint_bytes 0)
      | Retry \<Rightarrow> (case ph_token h of Some v \<Rightarrow> v | None \<Rightarrow> [])
      | _ \<Rightarrow> [])"

definition first_byte :: "packet_header \<Rightarrow> byte" where
  "first_byte h =
     (if ph_pkt_type h = OneRTT then (if ph_key_phase h then HEADER_FIXED_BIT OR HEADER_KEY_PHASE_BIT else HEADER_FIXED_BIT)
                      OR word_of_nat (ph_pkt_num_len h - 1)
      else HEADER_LONG_FORM_BIT OR HEADER_FIXED_BIT OR push_bit 4 (the (long_type_bits (ph_pkt_type h))) OR word_of_nat (ph_pkt_num_len h - 1))"

definition header_wire :: "packet_header \<Rightarrow> byte list" where
  "header_wire h =
     (if ph_pkt_type h = OneRTT then first_byte h # ph_dcid h
      else first_byte h # be_bytes 4 (unat (ph_version h)) @ len8_bytes (ph_dcid h) @ len8_bytes (ph_scid h) @ token_bytes h)"

lemma ph_write_emit:
  assumes "header_ok h"
  shows "ph_write h = emit (header_wire h)"
proof (cases "ph_pkt_type h")
  case OneRTT
  then show ?thesis by (simp add: ph_write_def header_wire_def first_byte_def Let_def seq_emits del: seqw.simps)
next
  case VersionNegotiation
  then show ?thesis using assms by (simp add: header_ok_def)
next
  case Initial
  then show ?thesis using assms
    by (cases "ph_token h") (simp_all add: ph_write_def header_wire_def first_byte_def token_bytes_def header_ok_def Let_def seq_emits
        write_u32_def len8_bytes_def VINT_MAX_def del: seqw.simps)
next
  case Retry
  then show ?thesis using assms
    by (cases "ph_token h") (simp_all add: ph_write_def header_wire_def first_byte_def token_bytes_def header_ok_def Let_def seq_emits
        write_u32_def len8_bytes_def del: seqw.simps)
qed (use assms in \<open>simp_all add: ph_write_def header_wire_def first_byte_def token_bytes_def header_ok_def Let_def seq_emits
        write_u32_def len8_bytes_def del: seqw.simps\<close>)

lemma small_len: "n \<le> 4 \<Longrightarrow> n - 1 = 0 \<or> n - 1 = 1 \<or> n - 1 = 2 \<or> n - 1 = (3 :: nat)"
  by linarith

lemma first_byte_short:
  assumes "ph_pkt_type h = OneRTT" "ph_pkt_num_len h \<le> 4"
  shows "\<not> long_header (first_byte h)"
  using small_len [OF assms(2)] assms(1)
  by (elim disjE) (simp_all add: first_byte_def long_header_def HEADER_LONG_FORM_BIT_def HEADER_FIXED_BIT_def HEADER_KEY_PHASE_BIT_def)

lemma first_byte_long:
  assumes "ph_pkt_type h \<noteq> OneRTT" "ph_pkt_type h \<noteq> VersionNegotiation" "ph_pkt_num_len h \<le> 4" "v \<noteq> 0"
  shows "long_header (first_byte h)" "long_type v (first_byte h) = Inr (ph_pkt_type h)"
  using small_len [OF assms(3)] assms(1,2,4)
  by (elim disjE; cases "ph_pkt_type h"; simp add: first_byte_def long_header_def long_type_def HEADER_LONG_FORM_BIT_def HEADER_FIXED_BIT_def
      PKT_TYPE_MASK_def push_bit_eq_mult drop_bit_eq_div)+

lemma read_cid_ok: "length c \<le> MAX_CID_LEN \<Longrightarrow> read_cid v (len8_bytes c @ rest) = Inr (c, rest)"
proof -
  assume "length c \<le> MAX_CID_LEN"
  then have l: "length c \<le> 20" by (simp add: MAX_CID_LEN_def)
  then have u: "unat (word_of_nat (length c) :: byte) = length c" by (simp add: unat_of_nat)
  then have "\<not> (word_of_nat (length c) :: byte) > word_of_nat MAX_CID_LEN"
    using l by (simp add: word_less_nat_alt MAX_CID_LEN_def)
  then show ?thesis using u by (simp add: read_cid_def len8_bytes_def read_u8_def)
qed

lemma read_token_ok:
  assumes "header_ok h" "ph_pkt_type h \<noteq> OneRTT" "ph_pkt_type h = Retry \<Longrightarrow> length rest = tag_len"
  shows "read_token tag_len (ph_pkt_type h) (token_bytes h @ rest) = Inr (ph_token (decoded_header h), rest)"
proof (cases "ph_pkt_type h")
  case Initial
  then show ?thesis using assms(1)
    by (cases "ph_token h") (auto simp: read_token_def token_bytes_def decoded_header_def header_ok_def VINT_MAX_def)
next
  case Retry
  then show ?thesis using assms
    by (cases "ph_token h") (auto simp: read_token_def token_bytes_def decoded_header_def header_ok_def)
qed (use assms in \<open>simp_all add: read_token_def token_bytes_def decoded_header_def header_ok_def\<close>)

lemma ph_parse_ok:
  assumes ok: "header_ok h" and tag: "ph_pkt_type h = Retry \<Longrightarrow> length rest = tag_len"
  shows "ph_parse tag_len (length (ph_dcid h)) (header_wire h @ rest) = Inr (decoded_header h, rest)"
proof -
  have l: "length (ph_dcid h) \<le> MAX_CID_LEN" "length (ph_scid h) \<le> MAX_CID_LEN" "ph_pkt_num_len h \<le> 4" "ph_pkt_type h \<noteq> VersionNegotiation"
    using ok by (simp_all add: header_ok_def)
  then have c: "cid_new (ph_dcid h) = ph_dcid h" "cid_new (ph_scid h) = ph_scid h" by (simp_all add: cid_new_def)
  show ?thesis
  proof (cases "ph_pkt_type h = OneRTT")
    case True
    then show ?thesis using first_byte_short [OF True l(3)] c
      by (simp add: ph_parse_def header_wire_def read_u8_def decoded_header_def)
  next
    case False
    then have v: "ph_version h \<noteq> 0" using ok by (simp add: header_ok_def)
    note f = first_byte_long [OF False l(4,3) v]
    have v32: "read_u32 (be_bytes 4 (unat (ph_version h)) @ r) = Inr (ph_version h, r)" for r by (rule w32.roundtrip) simp
    have "decoded_header h = \<lparr>ph_pkt_type = ph_pkt_type h, ph_version = ph_version h, ph_dcid = ph_dcid h, ph_scid = ph_scid h,
        ph_pkt_num_len = 0, ph_pkt_num = 0, ph_token = ph_token (decoded_header h), ph_key_phase = False\<rparr>"
      using False by (simp add: decoded_header_def)
    then show ?thesis using False f read_token_ok [OF ok False tag] c
      by (simp add: ph_parse_def header_wire_def read_u8_def v32 read_cid_ok [OF l(1)] read_cid_ok [OF l(2)])
  qed
qed

text \<open>
  C30.  Packet headers round-trip: decoding an encoded header, followed by any octets (by exactly the
  integrity tag after a Retry header), yields its type, version, connection identifiers and token and
  consumes exactly the encoded octets; the quick look at a packet finds the same form, version and
  destination.
\<close>

theorem packet_header_roundtrip:
  assumes "header_ok h" and "ph_to_bytes h room = Inr (out, k)" and "ph_pkt_type h = Retry \<longrightarrow> length rest = tag_len"
  shows "k = length out \<and> ph_from_bytes tag_len (out @ rest) (length (ph_dcid h)) = Inr (decoded_header h, k)
    \<and> header_info (out @ rest) (length (ph_dcid h))
        = Inr (ph_pkt_type h \<noteq> OneRTT, ph_version (decoded_header h), ph_dcid h)"
proof -
  have out: "out = header_wire h" "k = length out"
    using assms(2) by (auto simp: ph_to_bytes_def ph_write_emit [OF assms(1)] emit_def wb_new_def split: if_splits)
  have l: "length (ph_dcid h) \<le> MAX_CID_LEN" "ph_pkt_num_len h \<le> 4" "ph_pkt_type h \<noteq> VersionNegotiation"
    using assms(1) by (simp_all add: header_ok_def)
  have c: "cid_new (ph_dcid h) = ph_dcid h" using l(1) by (simp add: cid_new_def)
  have u: "unat (word_of_nat (length (ph_dcid h)) :: byte) = length (ph_dcid h)" using l(1) by (simp add: unat_of_nat MAX_CID_LEN_def)
  have info: "header_info (out @ rest) (length (ph_dcid h)) = Inr (ph_pkt_type h \<noteq> OneRTT, ph_version (decoded_header h), ph_dcid h)"
  proof (cases "ph_pkt_type h = OneRTT")
    case True
    then show ?thesis using first_byte_short [OF True l(2)] c
      by (simp add: header_info_def out(1) header_wire_def read_u8_def decoded_header_def)
  next
    case False
    then have v: "ph_version h \<noteq> 0" using assms(1) by (simp add: header_ok_def)
    have v32: "read_u32 (be_bytes 4 (unat (ph_version h)) @ r) = Inr (ph_version h, r)" for r by (rule w32.roundtrip) simp
    show ?thesis using False first_byte_long(1) [OF False l(3,2) v] c u
      by (simp add: header_info_def out(1) header_wire_def read_u8_def v32 len8_bytes_def decoded_header_def)
  qed
  have "ph_from_bytes tag_len (out @ rest) (length (ph_dcid h)) = Inr (decoded_header h, k)"
    using ph_parse_ok [OF assms(1), of rest tag_len] assms(3) by (simp add: ph_from_bytes_def out)
  with info out(2) show ?thesis by blast
qed

definition demo_initial :: packet_header where
  "demo_initial = \<lparr>ph_pkt_type = Initial, ph_version = 1, ph_dcid = [1, 2, 3], ph_scid = [4], ph_pkt_num_len = 2,
     ph_pkt_num = 5, ph_token = Some [6, 7], ph_key_phase = False\<rparr>"

theorem packet_header_roundtrip_witness:
  "\<exists>out k. ph_to_bytes demo_initial 100 = Inr (out, k) \<and> ph_from_bytes 16 (out @ [9, 9]) 3 = Inr (decoded_header demo_initial, k)"
proof -
  have ok: "header_ok demo_initial" by (simp add: header_ok_def demo_initial_def MAX_CID_LEN_def VINT_MAX_def)
  have "length (header_wire demo_initial) \<le> 100"
    by (simp add: header_wire_def demo_initial_def len8_bytes_def token_bytes_def be_bytes_def varint_bytes_def)
  then have e: "ph_to_bytes demo_initial 100 = Inr (header_wire demo_initial, length (header_wire demo_initial))"
    by (simp add: ph_to_bytes_def ph_write_emit [OF ok] emit_def wb_new_def)
  have "length (ph_dcid demo_initial) = 3" "ph_pkt_type demo_initial \<noteq> Retry" by (simp_all add: demo_initial_def)
  with packet_header_roundtrip [OF ok e, of "[9, 9]" 16] e show ?thesis by auto
qed

end
