(* ===== verification/ConnId.thy ===== *)
theory ConnId
  imports Frame
begin

text \<open>
  \<open>src/connection/cid.rs\<close>: the connection identifiers of a connection.  A bounded queue
  (\<open>ConnectionIdDeque\<close>) keeps the identifiers with their sequence numbers; the manager
  (\<open>ConnectionIdMgr\<close>) owns one queue for the identifiers we issue (source) and one for those of
  the peer (destination).  An identifier is the list of its bytes and a stateless reset token
  (\<open>u128\<close>) a natural number.  A method that changes its receiver returns the new state together
  with its result, so what an error leaves behind is part of the model.
\<close>

definition MAX_CIDS_COUNT :: u64 where
  "MAX_CIDS_COUNT = 16"

record cid_item =
  ci_cid :: "byte list"
  ci_seq :: u64
  ci_reset_token :: "nat option"
  ci_path_id :: "usize option"

record cid_deque =
  cq_queue :: "cid_item list"
  cq_capacity :: usize

subsection \<open>The bounded queue\<close>

definition cidq_new :: "usize \<Rightarrow> cid_deque" where
  "cidq_new capacity = \<lparr>cq_queue = [], cq_capacity = capacity\<rparr>"

definition cidq_get :: "u64 \<Rightarrow> cid_deque \<Rightarrow> cid_item option" where
  "cidq_get seq q = find (\<lambda>c. ci_seq c = seq) (cq_queue q)"

text \<open>\<open>get_mut\<close> followed by an assignment: \<open>f\<close> is applied to the first item with that sequence number.\<close>

fun upd_first :: "('a \<Rightarrow> bool) \<Rightarrow> ('a \<Rightarrow> 'a) \<Rightarrow> 'a list \<Rightarrow> 'a list option" where
  "upd_first P f [] = None"
| "upd_first P f (x # xs) = (if P x then Some (f x # xs) else map_option ((#) x) (upd_first P f xs))"

definition cidq_get_mut :: "u64 \<Rightarrow> (cid_item \<Rightarrow> cid_item) \<Rightarrow> cid_deque \<Rightarrow> cid_deque option" where
  "cidq_get_mut seq f q =
     map_option (\<lambda>l. q\<lparr>cq_queue := l\<rparr>) (upd_first (\<lambda>c. ci_seq c = seq) f (cq_queue q))"

definition cidq_insert :: "cid_item \<Rightarrow> cid_deque \<Rightarrow> cid_deque result" where
  "cidq_insert c q =
     (if length (cq_queue q) = cq_capacity q then Inl (Err ConnectionIdLimitError)
      else Inr (q\<lparr>cq_queue := cq_queue q @ [c]\<rparr>))"

definition cidq_clear :: "cid_deque \<Rightarrow> cid_deque" where
  "cidq_clear q = q\<lparr>cq_queue := []\<rparr>"

fun remove_first :: "('a \<Rightarrow> bool) \<Rightarrow> 'a list \<Rightarrow> ('a \<times> 'a list) option" where
  "remove_first P [] = None"
| "remove_first P (x # xs) =
     (if P x then Some (x, xs) else map_option (\<lambda>(y, ys). (y, x # ys)) (remove_first P xs))"

definition cidq_remove :: "u64 \<Rightarrow> cid_deque \<Rightarrow> (cid_item option \<times> cid_deque) result" where
  "cidq_remove seq q =
     (if cq_queue q = [] then Inl (Err InternalError)
      else if length (cq_queue q) = 1 \<and> cidq_get seq q \<noteq> None then Inl (Err InternalError)
      else (case remove_first (\<lambda>c. ci_seq c = seq) (cq_queue q) of
              None \<Rightarrow> Inr (None, q)
            | Some (c, l) \<Rightarrow> Inr (Some c, q\<lparr>cq_queue := l\<rparr>)))"

text \<open>\<open>remove_lower\<close> calls its closure on every item it drops, front to back; the items dropped are returned.\<close>

definition cidq_remove_lower :: "u64 \<Rightarrow> cid_deque \<Rightarrow> cid_item list \<times> cid_deque" where
  "cidq_remove_lower seq q =
     (filter (\<lambda>c. ci_seq c < seq) (cq_queue q),
      q\<lparr>cq_queue := filter (\<lambda>c. \<not> ci_seq c < seq) (cq_queue q)\<rparr>)"

definition cidq_enlarge :: "usize \<Rightarrow> cid_deque \<Rightarrow> cid_deque" where
  "cidq_enlarge capacity q = (if capacity > cq_capacity q then q\<lparr>cq_capacity := capacity\<rparr> else q)"

definition cidq_len :: "cid_deque \<Rightarrow> usize" where
  "cidq_len q = length (cq_queue q)"

subsection \<open>The manager\<close>

record cid_mgr =
  cm_dcids :: cid_deque
  cm_scids :: cid_deque
  cm_dcid_limit :: usize
  cm_scid_limit :: usize
  cm_zero_length_scid :: bool
  cm_zero_length_dcid :: bool
  cm_next_scid_seq :: u64
  cm_retire_prior_to :: u64
  cm_scids_to_advertise :: "u64 list"
  cm_largest_peer_retire_prior_to :: u64
  cm_dcids_to_retire :: "u64 list"

text \<open>An insertion whose result is dropped (\<open>let _ = ...\<close>).\<close>

definition cidq_insert_ignored :: "cid_item \<Rightarrow> cid_deque \<Rightarrow> cid_deque" where
  "cidq_insert_ignored c q = (case cidq_insert c q of Inl _ \<Rightarrow> q | Inr q' \<Rightarrow> q')"

definition cid_mgr_new :: "usize \<Rightarrow> byte list \<Rightarrow> usize \<Rightarrow> nat option \<Rightarrow> cid_mgr" where
  "cid_mgr_new dcid_limit initial_scid initial_path_id reset_token =
     (let scid_limit = 2;
          scids = cidq_insert_ignored
                    \<lparr>ci_cid = initial_scid, ci_seq = 0, ci_reset_token = reset_token,
                     ci_path_id = Some initial_path_id\<rparr>
                    (cidq_new (scid_limit * 2 - 1))
      in \<lparr>cm_dcids = cidq_new (sub64 (mul64 dcid_limit 2) 1), cm_scids = scids,
          cm_dcid_limit = dcid_limit, cm_scid_limit = scid_limit,
          cm_zero_length_scid = (initial_scid = []), cm_zero_length_dcid = False,
          cm_next_scid_seq = 1, cm_retire_prior_to = 0, cm_scids_to_advertise = [],
          cm_largest_peer_retire_prior_to = 0, cm_dcids_to_retire = []\<rparr>)"

definition set_initial_dcid :: "byte list \<Rightarrow> nat option \<Rightarrow> usize option \<Rightarrow> cid_mgr \<Rightarrow> cid_mgr" where
  "set_initial_dcid cid reset_token path_id m =
     m\<lparr>cm_zero_length_dcid := (cid = []),
       cm_dcids := cidq_insert_ignored
                     \<lparr>ci_cid = cid, ci_seq = 0, ci_reset_token = reset_token, ci_path_id = path_id\<rparr>
                     (cidq_clear (cm_dcids m))\<rparr>"

definition set_scid_limit :: "u64 \<Rightarrow> cid_mgr \<Rightarrow> cid_mgr" where
  "set_scid_limit limit m =
     (let limit = max (min limit MAX_CIDS_COUNT) 2
      in m\<lparr>cm_scid_limit := limit, cm_scids := cidq_enlarge (2 * limit - 1) (cm_scids m)\<rparr>)"

definition ok_or :: "'a option \<Rightarrow> error \<Rightarrow> 'a result" where
  "ok_or v e = (case v of None \<Rightarrow> Inl (Err e) | Some x \<Rightarrow> Inr x)"

definition get_scid :: "u64 \<Rightarrow> cid_mgr \<Rightarrow> cid_item result" where
  "get_scid seq m = ok_or (cidq_get seq (cm_scids m)) InternalError"

definition get_dcid :: "u64 \<Rightarrow> cid_mgr \<Rightarrow> cid_item result" where
  "get_dcid seq m = ok_or (cidq_get seq (cm_dcids m)) InternalError"

definition find_scid :: "byte list \<Rightarrow> cid_mgr \<Rightarrow> (u64 \<times> usize option) option" where
  "find_scid scid m =
     map_option (\<lambda>c. (ci_seq c, ci_path_id c)) (find (\<lambda>c. ci_cid c = scid) (cq_queue (cm_scids m)))"

definition mark_scid_used :: "u64 \<Rightarrow> usize \<Rightarrow> cid_mgr \<Rightarrow> cid_mgr \<times> unit result" where
  "mark_scid_used scid_seq path_id m =
     (case cidq_get_mut scid_seq (\<lambda>e. e\<lparr>ci_path_id := Some path_id\<rparr>) (cm_scids m) of
        None \<Rightarrow> (m, Inl (Err InternalError))
      | Some q \<Rightarrow> (m\<lparr>cm_scids := q\<rparr>, Inr ()))"

definition mark_dcid_used :: "u64 \<Rightarrow> usize \<Rightarrow> cid_mgr \<Rightarrow> cid_mgr \<times> unit result" where
  "mark_dcid_used dcid_seq path_id m =
     (case cidq_get_mut dcid_seq (\<lambda>e. e\<lparr>ci_path_id := Some path_id\<rparr>) (cm_dcids m) of
        None \<Rightarrow> (m, Inl (Err InternalError))
      | Some q \<Rightarrow> (m\<lparr>cm_dcids := q\<rparr>, Inr ()))"

definition unused_scids :: "cid_mgr \<Rightarrow> usize" where
  "unused_scids m = length (filter (\<lambda>c. ci_path_id c = None) (cq_queue (cm_scids m)))"

definition unused_dcids :: "cid_mgr \<Rightarrow> usize" where
  "unused_dcids m =
     (if cm_zero_length_dcid m then 0
      else length (filter (\<lambda>c. ci_path_id c = None) (cq_queue (cm_dcids m))))"

text \<open>\<open>Iterator::min\<close>.\<close>

fun list_min :: "nat list \<Rightarrow> nat option" where
  "list_min [] = None"
| "list_min (x # xs) = Some (foldl min x xs)"

definition active_seqs :: "cid_mgr \<Rightarrow> u64 list" where
  "active_seqs m = filter (\<lambda>s. s \<ge> cm_retire_prior_to m) (map ci_seq (cq_queue (cm_scids m)))"

definition lowest_active_scid_seq :: "cid_mgr \<Rightarrow> u64 result" where
  "lowest_active_scid_seq m = ok_or (list_min (active_seqs m)) InternalError"

definition lowest_unused_dcid_seq :: "cid_mgr \<Rightarrow> u64 option" where
  "lowest_unused_dcid_seq m =
     list_min (map ci_seq (filter (\<lambda>c. ci_path_id c = None) (cq_queue (cm_dcids m))))"

definition mark_scid_to_advertise :: "u64 \<Rightarrow> bool \<Rightarrow> cid_mgr \<Rightarrow> cid_mgr" where
  "mark_scid_to_advertise seq advertise m =
     (if advertise then m\<lparr>cm_scids_to_advertise := cm_scids_to_advertise m @ [seq]\<rparr>
      else m\<lparr>cm_scids_to_advertise := filter (\<lambda>s. s \<noteq> seq) (cm_scids_to_advertise m)\<rparr>)"

definition mark_dcid_to_retire :: "u64 \<Rightarrow> bool \<Rightarrow> cid_mgr \<Rightarrow> cid_mgr" where
  "mark_dcid_to_retire seq retire m =
     (if retire then m\<lparr>cm_dcids_to_retire := cm_dcids_to_retire m @ [seq]\<rparr>
      else m\<lparr>cm_dcids_to_retire := filter (\<lambda>s. s \<noteq> seq) (cm_dcids_to_retire m)\<rparr>)"

text \<open>The part of \<open>add_scid\<close> after the check of the limit: the item is inserted and announced.\<close>

definition add_scid_insert ::
    "byte list \<Rightarrow> nat option \<Rightarrow> bool \<Rightarrow> usize option \<Rightarrow> cid_mgr \<Rightarrow> cid_mgr \<times> u64 result" where
  "add_scid_insert cid reset_token advertise path_id m =
     (let seq = cm_next_scid_seq m
      in if seq \<noteq> 0 \<and> reset_token = None then (m, Inl (Err InternalError))
         else (case cidq_insert \<lparr>ci_cid = cid, ci_seq = seq, ci_reset_token = reset_token,
                                 ci_path_id = path_id\<rparr> (cm_scids m) of
                 Inl e \<Rightarrow> (m, Inl e)
               | Inr q \<Rightarrow>
                   (mark_scid_to_advertise seq advertise
                      (m\<lparr>cm_scids := q, cm_next_scid_seq := add64 (cm_next_scid_seq m) 1\<rparr>),
                    Inr seq)))"

definition add_scid ::
    "byte list \<Rightarrow> nat option \<Rightarrow> bool \<Rightarrow> usize option \<Rightarrow> bool \<Rightarrow> cid_mgr \<Rightarrow> cid_mgr \<times> u64 result" where
  "add_scid cid reset_token advertise path_id retire_if_needed m =
     (if cm_zero_length_scid m then (m, Inl (Err InternalError))
      else if cidq_len (cm_scids m) \<ge> cm_scid_limit m then
        if \<not> retire_if_needed then (m, Inl (Err ConnectionIdLimitError))
        else (case lowest_active_scid_seq m of
                Inl e \<Rightarrow> (m, Inl e)
              | Inr low \<Rightarrow>
                  add_scid_insert cid reset_token advertise path_id
                    (m\<lparr>cm_retire_prior_to := add64 low 1\<rparr>))
      else add_scid_insert cid reset_token advertise path_id m)"

definition check_dcids_to_retire :: "cid_mgr \<Rightarrow> unit result" where
  "check_dcids_to_retire m =
     (if length (cm_dcids_to_retire m) > mul64 (cm_dcid_limit m) 4 then Inl (Err ProtocolViolation)
      else Inr ())"

text \<open>
  The two halves of \<open>add_dcid\<close> after its checks: retiring the identifiers below a larger
  \<open>retire_prior_to\<close>, which reports the affected paths, and the insertion of the new item.
\<close>

definition retire_dcids_below :: "u64 \<Rightarrow> cid_mgr \<Rightarrow> cid_mgr \<times> (u64 \<times> usize) list" where
  "retire_dcids_below retire_prior_to m =
     (let (removed, q) = cidq_remove_lower retire_prior_to (cm_dcids m)
      in (m\<lparr>cm_dcids := q,
            cm_dcids_to_retire := cm_dcids_to_retire m @ map ci_seq removed,
            cm_largest_peer_retire_prior_to := retire_prior_to\<rparr>,
          [(ci_seq c, pid). c \<leftarrow> removed, pid \<leftarrow> (case ci_path_id c of None \<Rightarrow> [] | Some p \<Rightarrow> [p])]))"

definition add_dcid_insert ::
    "cid_item \<Rightarrow> (u64 \<times> usize) list \<Rightarrow> cid_mgr \<Rightarrow> cid_mgr \<times> (u64 \<times> usize) list result" where
  "add_dcid_insert c retired_path_ids m =
     (case cidq_insert c (cm_dcids m) of
        Inl e \<Rightarrow> (m, Inl e)
      | Inr q \<Rightarrow> (m\<lparr>cm_dcids := q\<rparr>, Inr retired_path_ids))"

definition add_dcid ::
    "byte list \<Rightarrow> u64 \<Rightarrow> nat \<Rightarrow> u64 \<Rightarrow> cid_mgr \<Rightarrow> cid_mgr \<times> (u64 \<times> usize) list result" where
  "add_dcid cid seq reset_token retire_prior_to m =
     (if cm_zero_length_dcid m then (m, Inl (Err ProtocolViolation))
      else case find (\<lambda>e. ci_cid e = cid \<or> ci_seq e = seq) (cq_queue (cm_dcids m)) of
        Some e \<Rightarrow>
          if ci_cid e \<noteq> cid \<or> ci_seq e \<noteq> seq \<or> ci_reset_token e \<noteq> Some reset_token
          then (m, Inl (Err ProtocolViolation)) else (m, Inr [])
      | None \<Rightarrow>
          if retire_prior_to > seq then (m, Inl (Err ProtocolViolation))
          else if seq < cm_largest_peer_retire_prior_to m \<and> seq \<notin> set (cm_dcids_to_retire m) then
            let m1 = m\<lparr>cm_dcids_to_retire := cm_dcids_to_retire m @ [seq]\<rparr>
            in (case check_dcids_to_retire m1 of Inl e \<Rightarrow> (m1, Inl e) | Inr _ \<Rightarrow> (m1, Inr []))
          else
            let c = \<lparr>ci_cid = cid, ci_seq = seq, ci_reset_token = Some reset_token, ci_path_id = None\<rparr>
            in if retire_prior_to > cm_largest_peer_retire_prior_to m then
                 let (m1, retired_path_ids) = retire_dcids_below retire_prior_to m
                 in (case check_dcids_to_retire m1 of
                       Inl e \<Rightarrow> (m1, Inl e)
                     | Inr _ \<Rightarrow> add_dcid_insert c retired_path_ids m1)
               else add_dcid_insert c [] m)"

definition retire_scid :: "u64 \<Rightarrow> byte list \<Rightarrow> cid_mgr \<Rightarrow> cid_mgr \<times> usize option result" where
  "retire_scid seq pkt_dcid m =
     (if seq \<ge> cm_next_scid_seq m then (m, Inl (Err ProtocolViolation))
      else case cidq_remove seq (cm_scids m) of
        Inl e \<Rightarrow> (m, Inl e)
      | Inr (None, q) \<Rightarrow> (m\<lparr>cm_scids := q\<rparr>, Inr None)
      | Inr (Some e, q) \<Rightarrow>
          let m1 = m\<lparr>cm_scids := q\<rparr>
          in if ci_cid e = pkt_dcid then (m1, Inl (Err ProtocolViolation))
             else (case lowest_active_scid_seq m1 of
                     Inl f \<Rightarrow> (m1, Inl f)
                   | Inr low \<Rightarrow> (m1\<lparr>cm_retire_prior_to := low\<rparr>, Inr (ci_path_id e))))"

definition next_scid_to_advertise :: "cid_mgr \<Rightarrow> u64 option" where
  "next_scid_to_advertise m = (case cm_scids_to_advertise m of [] \<Rightarrow> None | s # _ \<Rightarrow> Some s)"

definition next_dcid_to_retire :: "cid_mgr \<Rightarrow> u64 option" where
  "next_dcid_to_retire m = (case cm_dcids_to_retire m of [] \<Rightarrow> None | s # _ \<Rightarrow> Some s)"

definition create_new_connection_id_frame :: "u64 \<Rightarrow> cid_mgr \<Rightarrow> frame result" where
  "create_new_connection_id_frame seq m =
     rbind (ok_or (cidq_get seq (cm_scids m)) InternalError) (\<lambda>item.
     rbind (ok_or (ci_reset_token item) InternalError) (\<lambda>token.
     Inr (NewConnectionId seq (cm_retire_prior_to m) (ci_cid item) (be_bytes 16 token))))"

definition need_send_cid_control_frames :: "cid_mgr \<Rightarrow> bool" where
  "need_send_cid_control_frames m \<longleftrightarrow> cm_dcids_to_retire m \<noteq> [] \<or> cm_scids_to_advertise m \<noteq> []"

subsection \<open>The methods as the steps of a machine\<close>

datatype cid_op =
    SetInitialDcid "byte list" "nat option" "usize option"
  | SetScidLimit u64
  | MarkScidUsed u64 usize
  | MarkDcidUsed u64 usize
  | AddScid "byte list" "nat option" bool "usize option" bool
  | AddDcid "byte list" u64 nat u64
  | RetireScid u64 "byte list"
  | MarkScidToAdvertise u64 bool
  | MarkDcidToRetire u64 bool

fun cid_step :: "cid_mgr \<Rightarrow> cid_op \<Rightarrow> cid_mgr" where
  "cid_step m (SetInitialDcid cid token path) = set_initial_dcid cid token path m"
| "cid_step m (SetScidLimit limit) = set_scid_limit limit m"
| "cid_step m (MarkScidUsed seq path) = fst (mark_scid_used seq path m)"
| "cid_step m (MarkDcidUsed seq path) = fst (mark_dcid_used seq path m)"
| "cid_step m (AddScid cid token advertise path retire) = fst (add_scid cid token advertise path retire m)"
| "cid_step m (AddDcid cid seq token retire_prior_to) = fst (add_dcid cid seq token retire_prior_to m)"
| "cid_step m (RetireScid seq pkt_dcid) = fst (retire_scid seq pkt_dcid m)"
| "cid_step m (MarkScidToAdvertise seq b) = mark_scid_to_advertise seq b m"
| "cid_step m (MarkDcidToRetire seq b) = mark_dcid_to_retire seq b m"

end
