(* ===== verification/ConnIdProps.thy ===== *)
theory ConnIdProps
  imports ConnId
begin

text \<open>
  What the connection identifier manager keeps: sequence numbers identify the items of both queues,
  the queues stay within their capacity, at least one source identifier survives every retirement,
  the active source identifiers never exceed the limit of the peer, and a destination identifier
  that is queued for retirement is not in use (with the one exception that
  \<open>repeated_dcid_reinstated\<close> exhibits).
\<close>

subsection \<open>Searching and removing in lists\<close>

lemma upd_first_map: "upd_first P f xs = Some ys \<Longrightarrow> (\<And>x. g (f x) = g x) \<Longrightarrow> map g ys = map g xs"
  by (induction xs arbitrary: ys) (auto split: if_splits)

lemma remove_first_split:
  "remove_first P xs = Some (y, ys) \<Longrightarrow> \<exists>u v. xs = u @ y # v \<and> ys = u @ v \<and> P y"
proof (induction xs arbitrary: ys)
  case (Cons x xs)
  show ?case
  proof (cases "P x")
    case True
    with Cons.prems have "x # xs = [] @ y # ys \<and> ys = [] @ ys \<and> P y" by simp
    then show ?thesis by blast
  next
    case False
    with Cons.prems obtain zs where z: "remove_first P xs = Some (y, zs)" "ys = x # zs" by auto
    from Cons.IH [OF z(1)] obtain u v where "xs = u @ y # v" "zs = u @ v" "P y" by blast
    then have "x # xs = (x # u) @ y # v \<and> ys = (x # u) @ v \<and> P y" using z(2) by simp
    then show ?thesis by blast
  qed
qed simp

lemma foldl_min: "foldl min (x::nat) xs \<in> set (x # xs) \<and> (\<forall>y\<in>set (x # xs). foldl min x xs \<le> y)"
proof (induction xs arbitrary: x)
  case (Cons a xs)
  from Cons [of "min x a"] show ?case by (auto simp: min_def split: if_splits)
qed simp

lemma list_min_Some: "list_min xs = Some m \<Longrightarrow> m \<in> set xs \<and> (\<forall>x\<in>set xs. m \<le> x)"
  using foldl_min by (cases xs) auto

lemma list_min_None [simp]: "list_min xs = None \<longleftrightarrow> xs = []"
  by (cases xs) auto

lemma length_filter_above: "(a::nat) \<le> b \<Longrightarrow> length (filter (\<lambda>s. s \<ge> b) xs) \<le> length (filter (\<lambda>s. s \<ge> a) xs)"
  by (induction xs) auto

subsection \<open>Invariants\<close>

abbreviation scid_seqs :: "cid_mgr \<Rightarrow> u64 list" where
  "scid_seqs m \<equiv> map ci_seq (cq_queue (cm_scids m))"

abbreviation dcid_seqs :: "cid_mgr \<Rightarrow> u64 list" where
  "dcid_seqs m \<equiv> map ci_seq (cq_queue (cm_dcids m))"

definition scid_inv :: "cid_mgr \<Rightarrow> bool" where
  "scid_inv m \<longleftrightarrow>
     scid_seqs m \<noteq> [] \<and> distinct (scid_seqs m) \<and> (\<forall>s\<in>set (scid_seqs m). s < cm_next_scid_seq m)
     \<and> length (scid_seqs m) \<le> cq_capacity (cm_scids m)
     \<and> cm_next_scid_seq m < u64_mod
     \<and> length (active_seqs m) \<le> cm_scid_limit m"

definition dcid_inv :: "cid_mgr \<Rightarrow> bool" where
  "dcid_inv m \<longleftrightarrow>
     distinct (dcid_seqs m) \<and> distinct (map ci_cid (cq_queue (cm_dcids m)))
     \<and> length (dcid_seqs m) \<le> cq_capacity (cm_dcids m) \<and> 1 \<le> cq_capacity (cm_dcids m)"

definition cid_inv :: "cid_mgr \<Rightarrow> bool" where
  "cid_inv m \<longleftrightarrow> scid_inv m \<and> dcid_inv m"

text \<open>
  What the connection guarantees: the limit of the peer is not lowered once it is known, and fewer
  than \<open>2 ^ 64\<close> identifiers are issued.
\<close>

fun cid_ok :: "cid_mgr \<Rightarrow> cid_op \<Rightarrow> bool" where
  "cid_ok m (SetScidLimit limit) \<longleftrightarrow> cm_scid_limit m \<le> max (min limit MAX_CIDS_COUNT) 2"
| "cid_ok m (AddScid _ _ _ _ _) \<longleftrightarrow> cm_next_scid_seq m + 1 < u64_mod"
| "cid_ok m _ \<longleftrightarrow> True"

lemma even_cap: "1 \<le> sub64 (mul64 n 2) 1"
proof -
  have "even u64_mod" by (simp add: u64_mod_def)
  then have "mul64 n 2 \<noteq> 1" by (simp add: mul64_def) (metis dvd_mod_iff dvd_triv_right odd_one One_nat_def)
  then show ?thesis by (auto simp: sub64_def u64_mod_def)
qed

lemma cid_mgr_new_inv: "cid_inv (cid_mgr_new dcid_limit scid path token)"
  using even_cap [of dcid_limit]
  by (simp add: cid_inv_def scid_inv_def dcid_inv_def cid_mgr_new_def cidq_insert_ignored_def
      cidq_insert_def cidq_new_def active_seqs_def u64_mod_def Let_def)

text \<open>Replacing the source queue: what a queue with other items has to satisfy.\<close>

lemma scid_inv_used:
  assumes "scid_inv m" "cidq_get_mut seq (\<lambda>e. e\<lparr>ci_path_id := p\<rparr>) (cm_scids m) = Some q"
  shows "scid_inv (m\<lparr>cm_scids := q\<rparr>)"
proof -
  obtain l where l: "upd_first (\<lambda>c. ci_seq c = seq) (\<lambda>e. e\<lparr>ci_path_id := p\<rparr>) (cq_queue (cm_scids m)) = Some l"
      "q = (cm_scids m)\<lparr>cq_queue := l\<rparr>"
    using assms(2) by (auto simp: cidq_get_mut_def)
  have e: "map ci_seq l = scid_seqs m" using upd_first_map [OF l(1), of ci_seq] by simp
  then have "length l = length (cq_queue (cm_scids m))" by (metis length_map)
  with assms(1) e show ?thesis by (simp add: scid_inv_def active_seqs_def l(2))
qed

lemma dcid_inv_used:
  assumes "dcid_inv m" "cidq_get_mut seq (\<lambda>e. e\<lparr>ci_path_id := p\<rparr>) (cm_dcids m) = Some q"
  shows "dcid_inv (m\<lparr>cm_dcids := q\<rparr>)" "map ci_seq (cq_queue q) = dcid_seqs m"
proof -
  obtain l where l: "upd_first (\<lambda>c. ci_seq c = seq) (\<lambda>e. e\<lparr>ci_path_id := p\<rparr>) (cq_queue (cm_dcids m)) = Some l"
      "q = (cm_dcids m)\<lparr>cq_queue := l\<rparr>"
    using assms(2) by (auto simp: cidq_get_mut_def)
  have e: "map ci_seq l = dcid_seqs m" "map ci_cid l = map ci_cid (cq_queue (cm_dcids m))"
    using upd_first_map [OF l(1), of ci_seq] upd_first_map [OF l(1), of ci_cid] by simp_all
  then have "length l = length (cq_queue (cm_dcids m))" by (metis length_map)
  with assms(1) e show "dcid_inv (m\<lparr>cm_dcids := q\<rparr>)" by (simp add: dcid_inv_def l(2))
  show "map ci_seq (cq_queue q) = dcid_seqs m" using e l(2) by simp
qed

subsection \<open>Issuing and retiring source identifiers\<close>

lemma active_seqs_raise:
  assumes "list_min (active_seqs m) = Some low"
  shows "length (filter (\<lambda>s. s \<ge> low + 1) (scid_seqs m)) < length (active_seqs m)"
proof -
  have low: "low \<in> set (active_seqs m)" using list_min_Some [OF assms] by blast
  then have "cm_retire_prior_to m \<le> low" by (simp add: active_seqs_def)
  then have "filter (\<lambda>s. s \<ge> low + 1) (scid_seqs m) = filter (\<lambda>s. s \<ge> low + 1) (active_seqs m)"
    by (auto simp: active_seqs_def intro: filter_cong)
  then show ?thesis using length_filter_less [OF low, of "\<lambda>s. s \<ge> low + 1"] by simp
qed

lemma add_scid_insert_inv:
  assumes "scid_inv m" "cm_next_scid_seq m + 1 < u64_mod" "length (active_seqs m) < cm_scid_limit m"
  shows "scid_inv (fst (add_scid_insert cid token advertise path m))"
proof -
  have "add64 (cm_next_scid_seq m) 1 = cm_next_scid_seq m + 1" using assms(2) by (simp add: add64_nowrap)
  moreover have "cm_next_scid_seq m \<notin> set (scid_seqs m)" using assms(1) by (auto simp: scid_inv_def)
  ultimately show ?thesis
    using assms unfolding scid_inv_def
    by (auto simp: add_scid_insert_def Let_def cidq_insert_def mark_scid_to_advertise_def active_seqs_def)
qed

lemma add_scid_insert_dcid [simp]:
  "cm_dcids (fst (add_scid_insert cid token advertise path m)) = cm_dcids m"
  "cm_dcids_to_retire (fst (add_scid_insert cid token advertise path m)) = cm_dcids_to_retire m"
  "cm_largest_peer_retire_prior_to (fst (add_scid_insert cid token advertise path m))
     = cm_largest_peer_retire_prior_to m"
  by (simp_all add: add_scid_insert_def Let_def cidq_insert_def mark_scid_to_advertise_def)

lemma add_scid_dcid [simp]:
  "cm_dcids (fst (add_scid cid token advertise path retire m)) = cm_dcids m"
  "cm_dcids_to_retire (fst (add_scid cid token advertise path retire m)) = cm_dcids_to_retire m"
  "cm_largest_peer_retire_prior_to (fst (add_scid cid token advertise path retire m))
     = cm_largest_peer_retire_prior_to m"
  by (simp_all add: add_scid_def split: sum.splits)

lemma add_scid_inv:
  assumes "scid_inv m" "cm_next_scid_seq m + 1 < u64_mod"
  shows "scid_inv (fst (add_scid cid token advertise path retire m))"
proof (cases "cidq_len (cm_scids m) \<ge> cm_scid_limit m")
  case False
  have "length (active_seqs m) \<le> cidq_len (cm_scids m)"
    using length_filter_le [of _ "scid_seqs m"] by (simp add: active_seqs_def cidq_len_def)
  with False add_scid_insert_inv [OF assms] assms(1) show ?thesis by (simp add: add_scid_def)
next
  case True
  show ?thesis
  proof (cases "lowest_active_scid_seq m")
    case (Inl e)
    with True assms(1) show ?thesis by (simp add: add_scid_def)
  next
    case (Inr low)
    then have low: "list_min (active_seqs m) = Some low"
      by (auto simp: lowest_active_scid_seq_def ok_or_def split: option.splits)
    then have "low \<in> set (active_seqs m)" using list_min_Some by blast
    then have "low < cm_next_scid_seq m" using assms(1) by (auto simp: scid_inv_def active_seqs_def)
    then have wrap: "add64 low 1 = low + 1" using assms(2) by (simp add: add64_nowrap)
    let ?m = "m\<lparr>cm_retire_prior_to := add64 low 1\<rparr>"
    have lt: "length (active_seqs ?m) < cm_scid_limit m"
      using active_seqs_raise [OF low] assms(1) by (simp add: active_seqs_def wrap [simplified] scid_inv_def)
    then have "scid_inv ?m" using assms(1) by (simp add: scid_inv_def)
    then show ?thesis
      using add_scid_insert_inv [of ?m] lt assms True Inr by (simp add: add_scid_def)
  qed
qed

lemma cidq_remove_cases:
  assumes "cidq_remove seq q = Inr (r, q')"
  obtains (none) "r = None" "q' = q"
  | (some) c u v where "r = Some c" "cq_queue q = u @ c # v" "q' = q\<lparr>cq_queue := u @ v\<rparr>" "ci_seq c = seq" "u @ v \<noteq> []"
proof (cases r)
  case None
  with assms none show thesis by (auto simp: cidq_remove_def split: if_splits option.splits)
next
  case (Some c)
  with assms obtain l where l: "remove_first (\<lambda>c. ci_seq c = seq) (cq_queue q) = Some (c, l)" "q' = q\<lparr>cq_queue := l\<rparr>"
      and n: "\<not> (length (cq_queue q) = 1 \<and> cidq_get seq q \<noteq> None)"
    by (auto simp: cidq_remove_def split: if_splits option.splits)
  from remove_first_split [OF l(1)] obtain u v where u: "cq_queue q = u @ c # v" "l = u @ v" "ci_seq c = seq" by blast
  have "u @ v \<noteq> []"
  proof
    assume "u @ v = []"
    with u n show False by (simp add: cidq_get_def)
  qed
  with some Some u l show thesis by blast
qed

lemma retire_scid_cases:
  assumes "scid_inv m"
  shows "scid_inv (fst (retire_scid seq pkt_dcid m)) \<and>
     cm_dcids (fst (retire_scid seq pkt_dcid m)) = cm_dcids m \<and>
     cm_dcids_to_retire (fst (retire_scid seq pkt_dcid m)) = cm_dcids_to_retire m \<and>
     cm_largest_peer_retire_prior_to (fst (retire_scid seq pkt_dcid m)) = cm_largest_peer_retire_prior_to m"
proof (cases "cm_next_scid_seq m \<le> seq")
  case True
  with assms show ?thesis by (simp add: retire_scid_def)
next
  case False
  show ?thesis
  proof (cases "cidq_remove seq (cm_scids m)")
    case (Inl e)
    with False assms show ?thesis by (simp add: retire_scid_def)
  next
    case (Inr p)
    obtain r q where p: "p = (r, q)" by (cases p)
    from Inr [unfolded p] show ?thesis
    proof (cases rule: cidq_remove_cases)
      case none
      with False Inr p assms show ?thesis by (simp add: retire_scid_def)
    next
      case (some c u v)
      let ?m = "m\<lparr>cm_scids := q\<rparr>"
      have le: "length (active_seqs ?m) \<le> length (active_seqs m)"
        using some by (simp add: active_seqs_def)
      then have m: "scid_inv ?m" using assms some by (auto simp: scid_inv_def)
      have low: "scid_inv (?m\<lparr>cm_retire_prior_to := low\<rparr>)" if "list_min (active_seqs ?m) = Some low" for low
      proof -
        have "low \<in> set (active_seqs ?m)" using list_min_Some [OF that] by blast
        then have "cm_retire_prior_to m \<le> low" by (simp add: active_seqs_def)
        then have "length (active_seqs (?m\<lparr>cm_retire_prior_to := low\<rparr>)) \<le> length (active_seqs ?m)"
          using length_filter_above [of "cm_retire_prior_to m" low "scid_seqs ?m"]
          by (simp add: active_seqs_def)
        with m show ?thesis by (simp add: scid_inv_def)
      qed
      show ?thesis
        using False Inr p some(1) m low
        by (auto simp: retire_scid_def Let_def lowest_active_scid_seq_def ok_or_def split: option.splits)
    qed
  qed
qed

subsection \<open>Learning and retiring destination identifiers\<close>

lemma find_None_seq:
  "find (\<lambda>e. ci_cid e = cid \<or> ci_seq e = seq) l = None
     \<longleftrightarrow> cid \<notin> set (map ci_cid l) \<and> seq \<notin> set (map ci_seq l)"
  by (auto simp: find_None_iff)

lemma add_dcid_insert_inv:
  assumes "dcid_inv m" "ci_cid c \<notin> set (map ci_cid (cq_queue (cm_dcids m)))" "ci_seq c \<notin> set (dcid_seqs m)"
  shows "dcid_inv (fst (add_dcid_insert c paths m))"
  using assms by (auto simp: add_dcid_insert_def cidq_insert_def dcid_inv_def)

lemma retire_dcids_below_dcids:
  "cm_dcids (fst (retire_dcids_below rpt m)) =
     (cm_dcids m)\<lparr>cq_queue := filter (\<lambda>c. \<not> ci_seq c < rpt) (cq_queue (cm_dcids m))\<rparr>"
  "cm_dcids_to_retire (fst (retire_dcids_below rpt m)) =
     cm_dcids_to_retire m @ map ci_seq (filter (\<lambda>c. ci_seq c < rpt) (cq_queue (cm_dcids m)))"
  "cm_largest_peer_retire_prior_to (fst (retire_dcids_below rpt m)) = rpt"
  "cm_scids (fst (retire_dcids_below rpt m)) = cm_scids m"
  "cm_next_scid_seq (fst (retire_dcids_below rpt m)) = cm_next_scid_seq m"
  "cm_retire_prior_to (fst (retire_dcids_below rpt m)) = cm_retire_prior_to m"
  "cm_scid_limit (fst (retire_dcids_below rpt m)) = cm_scid_limit m"
  "cm_dcid_limit (fst (retire_dcids_below rpt m)) = cm_dcid_limit m"
  by (simp_all add: retire_dcids_below_def cidq_remove_lower_def Let_def)

lemma retire_dcids_below_inv: "dcid_inv m \<Longrightarrow> dcid_inv (fst (retire_dcids_below rpt m))"
proof -
  assume m: "dcid_inv m"
  have "length (filter (\<lambda>c. \<not> ci_seq c < rpt) (cq_queue (cm_dcids m))) \<le> cq_capacity (cm_dcids m)"
    using m by (intro le_trans [OF length_filter_le]) (simp add: dcid_inv_def)
  with m show ?thesis by (simp add: dcid_inv_def retire_dcids_below_dcids distinct_map_filter)
qed

text \<open>The states \<open>add_dcid\<close> can leave, with the condition under which each is left.\<close>

lemma add_dcid_cases:
  fixes cid :: "byte list" and token :: nat and seq :: u64
  defines "c \<equiv> \<lparr>ci_cid = cid, ci_seq = seq, ci_reset_token = Some token, ci_path_id = None\<rparr>"
  obtains (same) "fst (add_dcid cid seq token rpt m) = m"
  | (queued) "seq < cm_largest_peer_retire_prior_to m"
      "fst (add_dcid cid seq token rpt m) = m\<lparr>cm_dcids_to_retire := cm_dcids_to_retire m @ [seq]\<rparr>"
  | (raised) "cm_largest_peer_retire_prior_to m < rpt" "rpt \<le> seq"
      "fst (add_dcid cid seq token rpt m) = fst (retire_dcids_below rpt m)"
  | (added_raised) ps where "cm_largest_peer_retire_prior_to m < rpt" "rpt \<le> seq"
      "cid \<notin> set (map ci_cid (cq_queue (cm_dcids m)))" "seq \<notin> set (dcid_seqs m)"
      "fst (add_dcid cid seq token rpt m) = fst (add_dcid_insert c ps (fst (retire_dcids_below rpt m)))"
  | (added) "cm_largest_peer_retire_prior_to m \<le> seq \<or> seq \<in> set (cm_dcids_to_retire m)"
      "cid \<notin> set (map ci_cid (cq_queue (cm_dcids m)))" "seq \<notin> set (dcid_seqs m)"
      "fst (add_dcid cid seq token rpt m) = fst (add_dcid_insert c [] m)"
proof (cases "cm_zero_length_dcid m \<or> find (\<lambda>e. ci_cid e = cid \<or> ci_seq e = seq) (cq_queue (cm_dcids m)) \<noteq> None \<or> rpt > seq")
  case True
  then have "fst (add_dcid cid seq token rpt m) = m" by (auto simp: add_dcid_def split: option.splits)
  then show thesis by (rule same)
next
  case False
  then have f: "\<not> cm_zero_length_dcid m" "find (\<lambda>e. ci_cid e = cid \<or> ci_seq e = seq) (cq_queue (cm_dcids m)) = None"
    "rpt \<le> seq" by auto
  note new = f(2) [unfolded find_None_seq]
  show thesis
  proof (cases "seq < cm_largest_peer_retire_prior_to m \<and> seq \<notin> set (cm_dcids_to_retire m)")
    case True
    then have "fst (add_dcid cid seq token rpt m) = m\<lparr>cm_dcids_to_retire := cm_dcids_to_retire m @ [seq]\<rparr>"
      using f by (simp add: add_dcid_def Let_def split: sum.splits)
    with True queued show thesis by blast
  next
    case notq: False
    show thesis
    proof (cases "rpt > cm_largest_peer_retire_prior_to m")
      case False
      then have "fst (add_dcid cid seq token rpt m) = fst (add_dcid_insert c [] m)"
        using f notq by (auto simp: add_dcid_def Let_def c_def)
      with notq new added show thesis by (meson not_le)
    next
      case True
      obtain m1 ps where m1: "retire_dcids_below rpt m = (m1, ps)" by (cases "retire_dcids_below rpt m")
      have e: "add_dcid cid seq token rpt m =
          (case check_dcids_to_retire m1 of Inl e \<Rightarrow> (m1, Inl e) | Inr _ \<Rightarrow> add_dcid_insert c ps m1)"
        unfolding c_def using f notq True m1 by (auto simp: add_dcid_def Let_def)
      show thesis
      proof (cases "check_dcids_to_retire m1")
        case (Inl x)
        with e m1 raised [OF True f(3)] show thesis by simp
      next
        case (Inr x)
        with e m1 added_raised [OF True f(3), of ps] new show thesis by simp
      qed
    qed
  qed
qed

lemma add_dcid_insert_frame [simp]:
  "cm_scids (fst (add_dcid_insert c ps m)) = cm_scids m"
  "cm_next_scid_seq (fst (add_dcid_insert c ps m)) = cm_next_scid_seq m"
  "cm_retire_prior_to (fst (add_dcid_insert c ps m)) = cm_retire_prior_to m"
  "cm_scid_limit (fst (add_dcid_insert c ps m)) = cm_scid_limit m"
  "cm_dcids_to_retire (fst (add_dcid_insert c ps m)) = cm_dcids_to_retire m"
  "cm_largest_peer_retire_prior_to (fst (add_dcid_insert c ps m)) = cm_largest_peer_retire_prior_to m"
  by (simp_all add: add_dcid_insert_def split: sum.splits)

lemma add_dcid_dcid_inv: "dcid_inv m \<Longrightarrow> dcid_inv (fst (add_dcid cid seq token rpt m))"
proof (cases rule: add_dcid_cases [of cid seq token rpt m])
  case (added_raised ps)
  assume "dcid_inv m"
  then have "dcid_inv (fst (retire_dcids_below rpt m))" by (rule retire_dcids_below_inv)
  then show ?thesis
    using added_raised unfolding added_raised(5)
    by (intro add_dcid_insert_inv) (auto simp: retire_dcids_below_dcids)
next
  case added
  assume "dcid_inv m"
  then show ?thesis using added by (simp add: add_dcid_insert_inv)
next
  case raised
  assume "dcid_inv m"
  then show ?thesis using raised by (simp add: retire_dcids_below_inv)
qed (simp_all add: dcid_inv_def)

lemma add_dcid_scid_inv: "scid_inv m \<Longrightarrow> scid_inv (fst (add_dcid cid seq token rpt m))"
  by (cases rule: add_dcid_cases [of cid seq token rpt m])
    (simp_all add: scid_inv_def active_seqs_def retire_dcids_below_dcids)

lemma set_initial_dcid_queue:
  "dcid_inv m \<Longrightarrow> cm_dcids (set_initial_dcid cid token path m) =
     (cm_dcids m)\<lparr>cq_queue := [\<lparr>ci_cid = cid, ci_seq = 0, ci_reset_token = token, ci_path_id = path\<rparr>]\<rparr>"
  by (auto simp: set_initial_dcid_def cidq_insert_ignored_def cidq_insert_def cidq_clear_def dcid_inv_def)

interpretation cid_machine: inv_machine cid_step cid_ok cid_inv
proof
  fix m op assume inv: "cid_inv m" and ok: "cid_ok m op"
  then have s: "scid_inv m" and d: "dcid_inv m" by (auto simp: cid_inv_def)
  show "cid_inv (cid_step m op)"
  proof (cases op)
    case (SetInitialDcid cid token path)
    have "scid_inv (set_initial_dcid cid token path m)"
      using s by (simp add: set_initial_dcid_def scid_inv_def active_seqs_def)
    moreover have "dcid_inv (set_initial_dcid cid token path m)"
      using d by (simp add: dcid_inv_def set_initial_dcid_queue [OF d])
    ultimately show ?thesis using SetInitialDcid by (simp add: cid_inv_def)
  next
    case (SetScidLimit limit)
    have "scid_inv (set_scid_limit limit m)"
      using s ok SetScidLimit
      by (auto simp: set_scid_limit_def Let_def cidq_enlarge_def scid_inv_def active_seqs_def)
    moreover have "dcid_inv (set_scid_limit limit m)"
      using d by (simp add: set_scid_limit_def Let_def dcid_inv_def)
    ultimately show ?thesis using SetScidLimit by (simp add: cid_inv_def)
  next
    case (MarkScidUsed seq path)
    then show ?thesis
      using inv scid_inv_used [OF s] by (auto simp: mark_scid_used_def cid_inv_def dcid_inv_def split: option.splits)
  next
    case (MarkDcidUsed seq path)
    then show ?thesis
      using inv dcid_inv_used(1) [OF d]
      by (auto simp: mark_dcid_used_def cid_inv_def scid_inv_def active_seqs_def split: option.splits)
  next
    case (AddScid cid token advertise path retire)
    then show ?thesis using add_scid_inv [OF s] ok d by (simp add: cid_inv_def dcid_inv_def)
  next
    case (AddDcid cid seq token rpt)
    then show ?thesis using add_dcid_dcid_inv [OF d] add_dcid_scid_inv [OF s] by (simp add: cid_inv_def)
  next
    case (RetireScid seq pkt_dcid)
    then show ?thesis using retire_scid_cases [OF s] d by (simp add: cid_inv_def dcid_inv_def)
  qed (use inv in \<open>simp_all add: cid_inv_def scid_inv_def dcid_inv_def active_seqs_def
        mark_scid_to_advertise_def mark_dcid_to_retire_def\<close>)
qed

subsection \<open>Retired destination identifiers\<close>

definition retired_inv :: "cid_mgr \<Rightarrow> bool" where
  "retired_inv m \<longleftrightarrow> dcid_inv m
     \<and> (\<forall>s\<in>set (dcid_seqs m). cm_largest_peer_retire_prior_to m \<le> s)
     \<and> (\<forall>s\<in>set (cm_dcids_to_retire m). s < cm_largest_peer_retire_prior_to m)"

text \<open>
  The initial identifier is set during the handshake, before the peer retires any; a
  RETIRE_CONNECTION_ID frame is sent again only for a number that was retired; and a
  NEW_CONNECTION_ID frame does not repeat a number whose retirement is still queued.
\<close>

fun retire_ok :: "cid_mgr \<Rightarrow> cid_op \<Rightarrow> bool" where
  "retire_ok m (SetInitialDcid _ _ _) \<longleftrightarrow> cm_largest_peer_retire_prior_to m = 0"
| "retire_ok m (AddDcid _ seq _ _) \<longleftrightarrow> seq \<notin> set (cm_dcids_to_retire m)"
| "retire_ok m (MarkDcidToRetire seq retire) \<longleftrightarrow> retire \<longrightarrow> seq < cm_largest_peer_retire_prior_to m"
| "retire_ok m _ \<longleftrightarrow> True"

lemma retired_inv_cong:
  "cm_dcids m' = cm_dcids m \<Longrightarrow> cm_dcids_to_retire m' = cm_dcids_to_retire m \<Longrightarrow>
   cm_largest_peer_retire_prior_to m' = cm_largest_peer_retire_prior_to m \<Longrightarrow> retired_inv m' = retired_inv m"
  by (simp add: retired_inv_def dcid_inv_def)

lemma retire_scid_dcid [simp]:
  "cm_dcids (fst (retire_scid seq pkt_dcid m)) = cm_dcids m"
  "cm_dcids_to_retire (fst (retire_scid seq pkt_dcid m)) = cm_dcids_to_retire m"
  "cm_largest_peer_retire_prior_to (fst (retire_scid seq pkt_dcid m)) = cm_largest_peer_retire_prior_to m"
  unfolding retire_scid_def Let_def by (auto split: sum.splits option.splits prod.splits)

lemma add_dcid_insert_seqs:
  "set (dcid_seqs (fst (add_dcid_insert c ps m))) \<subseteq> insert (ci_seq c) (set (dcid_seqs m))"
  by (auto simp: add_dcid_insert_def cidq_insert_def)

lemma retired_invI:
  assumes "dcid_inv m" "cm_largest_peer_retire_prior_to m = l" "set (dcid_seqs m) \<subseteq> insert s A" "l \<le> s"
    and "\<forall>x\<in>A. l \<le> x" "\<forall>x\<in>set (cm_dcids_to_retire m). x < l"
  shows "retired_inv m"
  unfolding retired_inv_def using assms by blast

lemma add_dcid_retired_inv:
  assumes inv: "retired_inv m" and new: "seq \<notin> set (cm_dcids_to_retire m)"
  shows "retired_inv (fst (add_dcid cid seq token rpt m))"
proof -
  have m: "\<forall>s\<in>set (dcid_seqs m). cm_largest_peer_retire_prior_to m \<le> s"
    "\<forall>s\<in>set (cm_dcids_to_retire m). s < cm_largest_peer_retire_prior_to m" "dcid_inv m"
    using inv unfolding retired_inv_def by blast+
  have d: "dcid_inv (fst (add_dcid cid seq token rpt m))" using m(3) by (rule add_dcid_dcid_inv)
  have r: "\<forall>s\<in>set (cm_dcids_to_retire (fst (retire_dcids_below rpt m))). s < rpt"
    if "cm_largest_peer_retire_prior_to m < rpt"
    using m(2) that by (force simp: retire_dcids_below_dcids)
  have k: "\<forall>s\<in>set (dcid_seqs (fst (retire_dcids_below rpt m))). rpt \<le> s"
    by (force simp: retire_dcids_below_dcids)
  show ?thesis
  proof (cases rule: add_dcid_cases [of cid seq token rpt m])
    case same
    with inv show ?thesis by simp
  next
    case queued
    show ?thesis
      using inv queued(1) unfolding queued(2) by (auto simp: retired_inv_def dcid_inv_def)
  next
    case raised
    show ?thesis
      using d r [OF raised(1)] k raised(2) unfolding raised(3)
      by (intro retired_invI [of _ rpt seq "set (dcid_seqs (fst (retire_dcids_below rpt m)))"])
        (simp_all add: retire_dcids_below_dcids(3) subset_insertI)
  next
    case (added_raised ps)
    show ?thesis
      using d r [OF added_raised(1)] k added_raised(2) unfolding added_raised(5)
      by (intro retired_invI [OF _ _ add_dcid_insert_seqs, of _ _ _ rpt])
        (simp_all add: retire_dcids_below_dcids(3))
  next
    case added
    then have "cm_largest_peer_retire_prior_to m \<le> seq" using new by blast
    then show ?thesis
      using d m unfolding added(4)
      by (intro retired_invI [OF _ _ add_dcid_insert_seqs, of _ _ _ "cm_largest_peer_retire_prior_to m"])
        simp_all
  qed
qed

interpretation retire_machine: inv_machine cid_step retire_ok retired_inv
proof
  fix m op assume inv: "retired_inv m" and ok: "retire_ok m op"
  then have d: "dcid_inv m" by (simp add: retired_inv_def)
  show "retired_inv (cid_step m op)"
  proof (cases op)
    case (SetInitialDcid cid token path)
    have "dcid_inv (set_initial_dcid cid token path m)"
      using d by (simp add: dcid_inv_def set_initial_dcid_queue [OF d])
    then show ?thesis
      using inv ok SetInitialDcid set_initial_dcid_queue [OF d, of cid token path]
      by (simp add: retired_inv_def) (simp add: set_initial_dcid_def)
  next
    case (MarkScidUsed seq path)
    have "cm_dcids (cid_step m op) = cm_dcids m" "cm_dcids_to_retire (cid_step m op) = cm_dcids_to_retire m"
      "cm_largest_peer_retire_prior_to (cid_step m op) = cm_largest_peer_retire_prior_to m"
      using MarkScidUsed by (simp_all add: mark_scid_used_def split: option.splits)
    with inv show ?thesis using retired_inv_cong by blast
  next
    case (MarkDcidUsed seq path)
    show ?thesis
    proof (cases "cidq_get_mut seq (\<lambda>e. e\<lparr>ci_path_id := Some path\<rparr>) (cm_dcids m)")
      case None
      with inv MarkDcidUsed show ?thesis by (simp add: mark_dcid_used_def)
    next
      case (Some q)
      have "dcid_inv (m\<lparr>cm_dcids := q\<rparr>)" and e: "map ci_seq (cq_queue q) = dcid_seqs m"
        using dcid_inv_used [OF d Some] by simp_all
      moreover have "\<forall>x\<in>set (cq_queue q). ci_seq x \<in> set (dcid_seqs m)"
        unfolding e [symmetric] by simp
      ultimately have "retired_inv (m\<lparr>cm_dcids := q\<rparr>)"
        using inv by (fastforce simp: retired_inv_def)
      with Some MarkDcidUsed show ?thesis by (simp add: mark_dcid_used_def)
    qed
  next
    case (AddDcid cid seq token rpt)
    with add_dcid_retired_inv inv ok show ?thesis by simp
  next
    case (AddScid cid token advertise path retire)
    have "cm_dcids (cid_step m op) = cm_dcids m" "cm_dcids_to_retire (cid_step m op) = cm_dcids_to_retire m"
      "cm_largest_peer_retire_prior_to (cid_step m op) = cm_largest_peer_retire_prior_to m"
      using AddScid by simp_all
    with inv show ?thesis using retired_inv_cong by blast
  next
    case (RetireScid seq pkt_dcid)
    have "cm_dcids (cid_step m op) = cm_dcids m" "cm_dcids_to_retire (cid_step m op) = cm_dcids_to_retire m"
      "cm_largest_peer_retire_prior_to (cid_step m op) = cm_largest_peer_retire_prior_to m"
      using RetireScid by simp_all
    with inv show ?thesis using retired_inv_cong by blast
  next
    case (MarkDcidToRetire seq retire)
    with inv ok show ?thesis by (auto simp: retired_inv_def dcid_inv_def mark_dcid_to_retire_def)
  qed (use inv in \<open>simp_all add: retired_inv_def dcid_inv_def set_scid_limit_def Let_def mark_scid_to_advertise_def\<close>)
qed

lemma cid_mgr_new_retired: "retired_inv (cid_mgr_new dcid_limit scid path token)"
  using cid_mgr_new_inv [of dcid_limit scid path token]
  by (simp add: retired_inv_def cid_inv_def) (simp add: cid_mgr_new_def Let_def cidq_new_def)

subsection \<open>Properties\<close>

lemma find_distinct: "distinct (map g xs) \<Longrightarrow> x \<in> set xs \<Longrightarrow> find (\<lambda>y. g y = g x) xs = Some x"
  by (induction xs) auto

text \<open>
  C11. Whatever the connection does with its identifiers, the manager stays well formed: every
  identifier we issued and every identifier of the peer is found under its own sequence number, a
  sequence number identifies one item, at least one source identifier remains, both queues stay
  within their capacity, and the source identifiers that are not yet being retired never exceed the
  limit the peer set with \<open>active_connection_id_limit\<close>.
\<close>

theorem cid_mgr_well_formed:
  assumes "ok_run cid_step cid_ok (cid_mgr_new dcid_limit scid path token) ops"
    and "m = foldl cid_step (cid_mgr_new dcid_limit scid path token) ops"
  shows "(\<forall>c\<in>set (cq_queue (cm_scids m)). get_scid (ci_seq c) m = Inr c)
    \<and> (\<forall>c\<in>set (cq_queue (cm_dcids m)). get_dcid (ci_seq c) m = Inr c)
    \<and> cq_queue (cm_scids m) \<noteq> []
    \<and> cidq_len (cm_scids m) \<le> cq_capacity (cm_scids m) \<and> cidq_len (cm_dcids m) \<le> cq_capacity (cm_dcids m)
    \<and> length (active_seqs m) \<le> cm_scid_limit m"
proof -
  have "cid_inv m"
    unfolding assms(2) by (rule cid_machine.run_inv [OF cid_mgr_new_inv assms(1)])
  then show ?thesis
    by (auto simp: cid_inv_def scid_inv_def dcid_inv_def get_scid_def get_dcid_def cidq_get_def ok_or_def
        cidq_len_def find_distinct)
qed

theorem cid_mgr_well_formed_witness:
  "length (active_seqs (foldl cid_step (cid_mgr_new 2 [1] 0 None)
     [SetInitialDcid [7] None (Some 0), AddScid [2] (Some 5) True None True,
      AddScid [3] (Some 6) True None True, AddDcid [8] 1 9 1, RetireScid 0 [2]])) \<le> 2"
proof -
  let ?m0 = "cid_mgr_new 2 [1] 0 None"
  let ?ops = "[SetInitialDcid [7] None (Some 0), AddScid [2] (Some 5) True None True,
      AddScid [3] (Some 6) True None True, AddDcid [8] 1 9 1, RetireScid 0 [2]]"
  note defs = cid_mgr_new_def set_initial_dcid_def add_scid_def add_scid_insert_def add_dcid_def
    retire_scid_def cidq_insert_ignored_def cidq_insert_def cidq_new_def cidq_clear_def cidq_len_def
    mark_scid_to_advertise_def lowest_active_scid_seq_def active_seqs_def ok_or_def
    retire_dcids_below_def cidq_remove_lower_def add_dcid_insert_def check_dcids_to_retire_def
    cidq_remove_def cidq_get_def Let_def u64_eval
  have ok: "ok_run cid_step cid_ok ?m0 ?ops" by (simp add: defs)
  have "cm_scid_limit (foldl cid_step ?m0 ?ops) = 2" by (simp add: defs)
  with cid_mgr_well_formed [OF ok refl] show ?thesis by metis
qed

text \<open>
  C17. A destination identifier that the peer made us retire is out of use: as long as the peer does
  not repeat a NEW_CONNECTION_ID frame whose retirement is still queued, no number in the queue of
  retirements can be looked up as a destination identifier or handed to a path, and every identifier
  in use has a number of at least the largest \<open>Retire Prior To\<close> of the peer.
\<close>

theorem retired_dcid_unused:
  assumes "ok_run cid_step retire_ok (cid_mgr_new dcid_limit scid path token) ops"
    and "m = foldl cid_step (cid_mgr_new dcid_limit scid path token) ops"
    and "s \<in> set (cm_dcids_to_retire m)"
  shows "get_dcid s m = Inl (Err InternalError) \<and> lowest_unused_dcid_seq m \<noteq> Some s
    \<and> s < cm_largest_peer_retire_prior_to m"
proof -
  have inv: "retired_inv m"
    unfolding assms(2) by (rule retire_machine.run_inv [OF cid_mgr_new_retired assms(1)])
  then have lt: "s < cm_largest_peer_retire_prior_to m" using assms(3) by (simp add: retired_inv_def)
  then have no: "s \<notin> set (dcid_seqs m)" using inv by (auto simp: retired_inv_def)
  then have "find (\<lambda>c. ci_seq c = s) (cq_queue (cm_dcids m)) = None" by (auto simp: find_None_iff)
  moreover have "lowest_unused_dcid_seq m \<noteq> Some s"
    unfolding lowest_unused_dcid_seq_def using no by (auto dest!: list_min_Some)
  ultimately show ?thesis using lt by (simp add: get_dcid_def cidq_get_def ok_or_def)
qed

theorem retired_dcid_unused_witness:
  "get_dcid 0 (foldl cid_step (cid_mgr_new 2 [1] 0 None)
     [SetInitialDcid [7] None (Some 0), AddDcid [8] 1 9 1]) = Inl (Err InternalError)"
proof -
  let ?m0 = "cid_mgr_new 2 [1] 0 None"
  let ?ops = "[SetInitialDcid [7] None (Some 0), AddDcid [8] 1 9 1]"
  note defs = cid_mgr_new_def set_initial_dcid_def add_dcid_def cidq_insert_ignored_def cidq_insert_def
    cidq_new_def cidq_clear_def retire_dcids_below_def cidq_remove_lower_def add_dcid_insert_def
    check_dcids_to_retire_def Let_def u64_eval
  have ok: "ok_run cid_step retire_ok ?m0 ?ops" by (simp add: defs)
  have "0 \<in> set (cm_dcids_to_retire (foldl cid_step ?m0 ?ops))" by (simp add: defs)
  from retired_dcid_unused [OF ok refl this] show ?thesis by blast
qed

text \<open>
  A NEW_CONNECTION_ID frame that repeats a number whose retirement is queued, and that is below
  the largest \<open>Retire Prior To\<close>, puts the retired identifier back into use: it becomes the
  destination identifier of that number although its RETIRE_CONNECTION_ID frame is still to be sent.
\<close>

theorem repeated_dcid_reinstated:
  assumes "\<not> cm_zero_length_dcid m" "cid \<notin> set (map ci_cid (cq_queue (cm_dcids m)))" "seq \<notin> set (dcid_seqs m)"
    and "rpt \<le> seq" "seq < cm_largest_peer_retire_prior_to m" "seq \<in> set (cm_dcids_to_retire m)"
    and "cidq_len (cm_dcids m) \<noteq> cq_capacity (cm_dcids m)"
  shows "\<exists>m'. add_dcid cid seq token rpt m = (m', Inr [])
    \<and> get_dcid seq m' = Inr \<lparr>ci_cid = cid, ci_seq = seq, ci_reset_token = Some token, ci_path_id = None\<rparr>
    \<and> seq \<in> set (cm_dcids_to_retire m')"
proof -
  have "find (\<lambda>e. ci_cid e = cid \<or> ci_seq e = seq) (cq_queue (cm_dcids m)) = None"
    using assms(2,3) by (simp only: find_None_seq) blast
  moreover have "find (\<lambda>e. ci_seq e = seq) (cq_queue (cm_dcids m)) = None"
    using assms(3) by (auto simp: find_None_iff)
  moreover have "find P (xs @ [y]) = (case find P xs of None \<Rightarrow> if P y then Some y else None | Some z \<Rightarrow> Some z)"
    for P :: "cid_item \<Rightarrow> bool" and xs y by (induction xs) auto
  ultimately show ?thesis
    using assms
    by (simp add: add_dcid_def Let_def add_dcid_insert_def cidq_insert_def cidq_len_def get_dcid_def
        cidq_get_def ok_or_def)
qed

theorem repeated_dcid_reinstated_witness:
  "\<exists>m'. add_dcid [9] 1 9 0 (foldl cid_step (cid_mgr_new 2 [1] 0 None)
       [SetInitialDcid [7] None (Some 0), AddDcid [8] 2 8 2, AddDcid [9] 1 9 0]) = (m', Inr [])
    \<and> get_dcid 1 m' = Inr \<lparr>ci_cid = [9], ci_seq = 1, ci_reset_token = Some 9, ci_path_id = None\<rparr>
    \<and> 1 \<in> set (cm_dcids_to_retire m')"
  by (rule repeated_dcid_reinstated)
    (simp_all add: cid_mgr_new_def set_initial_dcid_def add_dcid_def cidq_insert_ignored_def
      cidq_insert_def cidq_new_def cidq_clear_def retire_dcids_below_def cidq_remove_lower_def
      add_dcid_insert_def check_dcids_to_retire_def Let_def u64_eval cidq_len_def)

text \<open>
  When the peer retires a source identifier whose NEW_CONNECTION_ID frame is waiting to be sent
  again, the frame stays in the queue and can no longer be built: \<open>create_new_connection_id_frame\<close>
  returns an internal error for the front of the queue.
\<close>

theorem retired_scid_still_advertised:
  assumes "scid_inv m" "next_scid_to_advertise m = Some seq" "cidq_get seq (cm_scids m) = Some c"
    and "2 \<le> cidq_len (cm_scids m)"
  shows "next_scid_to_advertise (fst (retire_scid seq pkt_dcid m)) = Some seq
    \<and> create_new_connection_id_frame seq (fst (retire_scid seq pkt_dcid m)) = Inl (Err InternalError)"
proof -
  let ?q = "cq_queue (cm_scids m)"
  have c: "c \<in> set ?q" "ci_seq c = seq" using assms(3) by (auto simp: cidq_get_def find_Some_iff)
  have "remove_first (\<lambda>c. ci_seq c = seq) xs \<noteq> None" if "c \<in> set xs" for xs
    using that c(2) by (induction xs) auto
  with c(1) obtain e l where r: "remove_first (\<lambda>c. ci_seq c = seq) ?q = Some (e, l)" by fastforce
  from remove_first_split [OF this] obtain u v where u: "?q = u @ e # v" "l = u @ v" "ci_seq e = seq" by blast
  have "distinct (map ci_seq ?q)" using assms(1) by (simp add: scid_inv_def)
  with u have "seq \<notin> set (map ci_seq l)" by auto
  then have gone: "find (\<lambda>c. ci_seq c = seq) l = None" by (auto simp: find_None_iff)
  have "seq < cm_next_scid_seq m" using assms(1) c by (auto simp: scid_inv_def)
  moreover have "cidq_remove seq (cm_scids m) = Inr (Some e, (cm_scids m)\<lparr>cq_queue := l\<rparr>)"
    using r assms(4) c(1) by (auto simp: cidq_remove_def cidq_len_def)
  ultimately show ?thesis
    using assms(2) gone
    by (auto simp: retire_scid_def Let_def next_scid_to_advertise_def create_new_connection_id_frame_def
        cidq_get_def ok_or_def lowest_active_scid_seq_def split: option.splits)
qed

theorem retired_scid_still_advertised_witness:
  "create_new_connection_id_frame 1 (fst (retire_scid 1 [1]
     (foldl cid_step (cid_mgr_new 2 [1] 0 None) [AddScid [2] (Some 5) True None True]))) = Inl (Err InternalError)"
proof -
  let ?m = "foldl cid_step (cid_mgr_new 2 [1] 0 None) [AddScid [2] (Some 5) True None True]"
  note defs = cid_mgr_new_def add_scid_def add_scid_insert_def cidq_insert_ignored_def cidq_insert_def
    cidq_new_def cidq_len_def mark_scid_to_advertise_def scid_inv_def active_seqs_def
    next_scid_to_advertise_def cidq_get_def Let_def u64_eval
  have "scid_inv ?m" "next_scid_to_advertise ?m = Some 1" "2 \<le> cidq_len (cm_scids ?m)"
    "cidq_get 1 (cm_scids ?m) = Some \<lparr>ci_cid = [2], ci_seq = 1, ci_reset_token = Some 5, ci_path_id = None\<rparr>"
    by (simp_all add: defs)
  from retired_scid_still_advertised [OF this(1,2,4,3)] show ?thesis by blast
qed

end
