(* ===== verification/CidControl.thy ===== *)
theory CidControl
  imports ConnIdProps
begin

text \<open>
  How a connection announces its identifiers (\<open>src/connection/connection.rs\<close>,
  \<open>try_write_cid_control_frame\<close> and \<open>write_frame_to_packet\<close>): the NEW_CONNECTION_ID and
  RETIRE_CONNECTION_ID frames of a packet are written from the queues of the identifier manager.
  The packet type, the closing state of the connection and the path the packet is sent on are
  arguments.  The second loop may run forever, so it is a partial function whose value \<^const>\<open>None\<close>
  means that it does not return.
\<close>

text \<open>The fields of \<open>FrameWriteStatus\<close> that are written here.\<close>

record write_status =
  ws_written :: usize
  ws_frames :: "frame list"
  ws_ack_eliciting :: bool
  ws_in_flight :: bool

definition write_frame_to_packet :: "frame \<Rightarrow> byte list \<Rightarrow> write_status \<Rightarrow> (byte list \<times> write_status) result" where
  "write_frame_to_packet frame out st =
     (case wire_len frame of
        None \<Rightarrow> Inl Panic
      | Some n \<Rightarrow>
          if ws_written st + n > length out then Inl (Err Done)
          else rbind (to_bytes frame (length out - ws_written st)) (\<lambda>(bytes, k).
            Inr (take (ws_written st) out @ bytes @ drop (ws_written st + length bytes) out,
                 st\<lparr>ws_written := ws_written st + k, ws_frames := ws_frames st @ [frame]\<rparr>)))"

text \<open>What the frames of this packet are collected into: manager, buffer, status and events.\<close>

record cid_ctl =
  cc_cids :: cid_mgr
  cc_out :: "byte list"
  cc_st :: write_status
  cc_events :: "byte list list"

definition elicited :: "byte list \<times> write_status \<Rightarrow> cid_ctl \<Rightarrow> cid_ctl" where
  "elicited w c = c\<lparr>cc_out := fst w, cc_st := (snd w)\<lparr>ws_ack_eliciting := True, ws_in_flight := True\<rparr>\<rparr>"

function advertise_loop :: "cid_ctl \<Rightarrow> cid_ctl \<times> unit result" where
  "advertise_loop c =
     (case next_scid_to_advertise (cc_cids c) of
        None \<Rightarrow> (c, Inr ())
      | Some seq \<Rightarrow>
          (case create_new_connection_id_frame seq (cc_cids c) of
             Inl e \<Rightarrow> (c, Inl e)
           | Inr frame \<Rightarrow>
               (case write_frame_to_packet frame (cc_out c) (cc_st c) of
                  Inl e \<Rightarrow> (c, Inl e)
                | Inr w \<Rightarrow>
                    advertise_loop
                      ((elicited w c)\<lparr>cc_cids := mark_scid_to_advertise seq False (cc_cids c)\<rparr>))))"
  by pat_completeness auto

lemma advertise_shrinks:
  "next_scid_to_advertise m = Some seq \<Longrightarrow>
   length (cm_scids_to_advertise (mark_scid_to_advertise seq False m)) < length (cm_scids_to_advertise m)"
  by (auto simp: next_scid_to_advertise_def mark_scid_to_advertise_def le_imp_less_Suc split: list.splits)

termination advertise_loop
  by (relation "measure (\<lambda>c. length (cm_scids_to_advertise (cc_cids c)))")
    (simp_all add: advertise_shrinks)

text \<open>The event that reports a retired token, raised when the number is still a known destination identifier.\<close>

definition retired_event :: "u64 \<Rightarrow> cid_ctl \<Rightarrow> cid_ctl" where
  "retired_event seq c =
     (case get_dcid seq (cc_cids c) of
        Inl _ \<Rightarrow> c
      | Inr item \<Rightarrow>
          (case ci_reset_token item of
             None \<Rightarrow> c
           | Some token \<Rightarrow> c\<lparr>cc_events := cc_events c @ [be_bytes 16 token]\<rparr>))"

definition retire_frame :: "u64 \<Rightarrow> cid_ctl \<Rightarrow> cid_ctl result" where
  "retire_frame seq c =
     rbind (write_frame_to_packet (RetireConnectionId seq) (cc_out c) (cc_st c)) (\<lambda>w.
       Inr (retired_event seq
              ((elicited w c)\<lparr>cc_cids := mark_dcid_to_retire seq False (cc_cids c)\<rparr>)))"

text \<open>\<open>dcid_seq\<close> is the number of the destination identifier of the path the packet is sent on.\<close>

partial_function (option) retire_loop :: "u64 option \<Rightarrow> cid_ctl \<Rightarrow> (cid_ctl \<times> unit result) option" where
  "retire_loop path_dcid_seq c =
     (case next_dcid_to_retire (cc_cids c) of
        None \<Rightarrow> Some (c, Inr ())
      | Some seq \<Rightarrow>
          (case path_dcid_seq of
             None \<Rightarrow> Some (c, Inl (Err InternalError))
           | Some dcid_seq \<Rightarrow>
               if seq = dcid_seq then retire_loop path_dcid_seq c
               else (case retire_frame seq c of
                       Inl e \<Rightarrow> Some (c, Inl e)
                     | Inr c' \<Rightarrow> retire_loop path_dcid_seq c')))"

record ctl_path =
  cp_active :: bool
  cp_dcid_seq :: "u64 option"

text \<open>\<open>path\<close> is the result of looking up the path in the connection.\<close>

definition try_write_cid_control_frame ::
    "packet_type \<Rightarrow> bool \<Rightarrow> ctl_path result \<Rightarrow> cid_ctl \<Rightarrow> (cid_ctl \<times> unit result) option" where
  "try_write_cid_control_frame pkt_type is_closing path c =
     (if pkt_type \<noteq> OneRTT \<or> is_closing then Some (c, Inr ())
      else case advertise_loop c of
        (c1, Inl e) \<Rightarrow> Some (c1, Inl e)
      | (c1, Inr _) \<Rightarrow>
          (case path of
             Inl e \<Rightarrow> Some (c1, Inl e)
           | Inr p \<Rightarrow> if \<not> cp_active p then Some (c1, Inr ()) else retire_loop (cp_dcid_seq p) c1))"

subsection \<open>The loop that retires identifiers\<close>

lemma retire_frame_fields:
  assumes "retire_frame seq c = Inr c'"
  shows "cm_dcids_to_retire (cc_cids c') = filter (\<lambda>s. s \<noteq> seq) (cm_dcids_to_retire (cc_cids c))"
    and "ws_frames (cc_st c') = ws_frames (cc_st c) @ [RetireConnectionId seq]"
    and "cm_dcids (cc_cids c') = cm_dcids (cc_cids c)"
    and "get_dcid seq (cc_cids c) = Inl e \<Longrightarrow> cc_events c' = cc_events c"
proof -
  obtain out st where w: "write_frame_to_packet (RetireConnectionId seq) (cc_out c) (cc_st c) = Inr (out, st)"
      and c': "c' = retired_event seq ((elicited (out, st) c)\<lparr>cc_cids := mark_dcid_to_retire seq False (cc_cids c)\<rparr>)"
    using assms by (auto simp: retire_frame_def rbind_Inr_iff)
  have "ws_frames st = ws_frames (cc_st c) @ [RetireConnectionId seq]"
    using w by (auto simp: write_frame_to_packet_def rbind_Inr_iff split: option.splits if_splits)
  then show "ws_frames (cc_st c') = ws_frames (cc_st c) @ [RetireConnectionId seq]"
    by (simp add: c' retired_event_def elicited_def split: sum.splits option.splits)
  show "cm_dcids_to_retire (cc_cids c') = filter (\<lambda>s. s \<noteq> seq) (cm_dcids_to_retire (cc_cids c))"
    and "cm_dcids (cc_cids c') = cm_dcids (cc_cids c)"
    by (simp_all add: c' retired_event_def elicited_def mark_dcid_to_retire_def split: sum.splits option.splits)
  show "get_dcid seq (cc_cids c) = Inl e \<Longrightarrow> cc_events c' = cc_events c"
    by (simp add: c' retired_event_def elicited_def mark_dcid_to_retire_def get_dcid_def split: sum.splits option.splits)
qed

text \<open>
  What the loop owes to the state it starts from: the frames it wrote, the queue it leaves and the
  events it raised.
\<close>

definition retire_post :: "u64 \<Rightarrow> cid_ctl \<Rightarrow> cid_ctl \<Rightarrow> unit result \<Rightarrow> u64 list \<Rightarrow> bool" where
  "retire_post d c c' r fs \<longleftrightarrow>
     ws_frames (cc_st c') = ws_frames (cc_st c) @ map RetireConnectionId fs
     \<and> set fs \<subseteq> set (cm_dcids_to_retire (cc_cids c)) \<and> d \<notin> set fs
     \<and> (r = Inr () \<longrightarrow> cm_dcids_to_retire (cc_cids c') = [] \<and> set fs = set (cm_dcids_to_retire (cc_cids c)))
     \<and> ((\<forall>s\<in>set (cm_dcids_to_retire (cc_cids c)). get_dcid s (cc_cids c) = Inl (Err InternalError))
          \<longrightarrow> cc_events c' = cc_events c)"

lemma retire_post_step:
  assumes c1: "retire_frame s c = Inr c1" and q: "cm_dcids_to_retire (cc_cids c) = s # l" and "s \<noteq> d"
    and post: "retire_post d c1 c' r fs"
  shows "retire_post d c c' r (s # fs)"
proof -
  note f = retire_frame_fields [OF c1]
  have q1: "cm_dcids_to_retire (cc_cids c1) = filter (\<lambda>x. x \<noteq> s) l" using f(1) q by simp
  have g: "get_dcid x (cc_cids c1) = get_dcid x (cc_cids c)" for x using f(3) by (simp add: get_dcid_def)
  have "set (s # fs) \<subseteq> set (s # l)" "r = Inr () \<longrightarrow> set (s # fs) = set (s # l)"
    using post by (auto simp: retire_post_def q1)
  moreover have "(\<forall>x\<in>set (s # l). get_dcid x (cc_cids c) = Inl (Err InternalError)) \<longrightarrow> cc_events c' = cc_events c"
    using post f(4) by (auto simp: retire_post_def g q1)
  ultimately show ?thesis using post f(2) \<open>s \<noteq> d\<close> by (simp add: retire_post_def q)
qed

lemma retire_loop_returns:
  "d \<notin> set (cm_dcids_to_retire (cc_cids c)) \<Longrightarrow>
   \<exists>c' r fs. retire_loop (Some d) c = Some (c', r) \<and> retire_post d c c' r fs"
proof (induction "length (cm_dcids_to_retire (cc_cids c))" arbitrary: c rule: less_induct)
  case less
  show ?case
  proof (cases "cm_dcids_to_retire (cc_cids c)")
    case Nil
    then have "retire_loop (Some d) c = Some (c, Inr ())"
      by (subst retire_loop.simps) (simp add: next_dcid_to_retire_def)
    moreover have "retire_post d c c (Inr ()) []" using Nil by (simp add: retire_post_def)
    ultimately show ?thesis by blast
  next
    case (Cons s l)
    with less.prems have "s \<noteq> d" "next_dcid_to_retire (cc_cids c) = Some s" by (auto simp: next_dcid_to_retire_def)
    then have step: "retire_loop (Some d) c = (case retire_frame s c of Inl e \<Rightarrow> Some (c, Inl e) | Inr c' \<Rightarrow> retire_loop (Some d) c')"
      by (subst retire_loop.simps) simp
    show ?thesis
    proof (cases "retire_frame s c")
      case (Inl e)
      have "retire_post d c c (Inl e) []" by (simp add: retire_post_def)
      with step Inl show ?thesis by auto
    next
      case (Inr c1)
      have "cm_dcids_to_retire (cc_cids c1) = filter (\<lambda>x. x \<noteq> s) l"
        using retire_frame_fields(1) [OF Inr] Cons by simp
      with less.prems Cons obtain c' r fs where "retire_loop (Some d) c1 = Some (c', r)" "retire_post d c1 c' r fs"
        using less.hyps [of c1] by (auto simp: le_imp_less_Suc)
      with retire_post_step [OF Inr Cons \<open>s \<noteq> d\<close>] step Inr show ?thesis by auto
    qed
  qed
qed

text \<open>
  C10. The loop that writes RETIRE_CONNECTION_ID frames returns whenever the identifier of the path
  is not itself queued for retirement.  If it returns without an error, every queued number got its
  frame and the queue is empty; the identifier the packet is addressed to is never retired in it.
  When no queued number is a known destination identifier, which is the normal case after
  \<open>add_dcid\<close>, no event reports a retired reset token.
\<close>

theorem retire_loop_terminates:
  assumes "d \<notin> set (cm_dcids_to_retire (cc_cids c))"
  shows "\<exists>c' r fs. retire_loop (Some d) c = Some (c', r)
    \<and> ws_frames (cc_st c') = ws_frames (cc_st c) @ map RetireConnectionId fs
    \<and> set fs \<subseteq> set (cm_dcids_to_retire (cc_cids c)) \<and> d \<notin> set fs
    \<and> (r = Inr () \<longrightarrow> cm_dcids_to_retire (cc_cids c') = [] \<and> set fs = set (cm_dcids_to_retire (cc_cids c)))
    \<and> ((\<forall>s\<in>set (cm_dcids_to_retire (cc_cids c)). get_dcid s (cc_cids c) = Inl (Err InternalError))
         \<longrightarrow> cc_events c' = cc_events c)"
  using retire_loop_returns [OF assms] unfolding retire_post_def by blast

text \<open>
  C24. When the identifier of the path is at the front of the queue of retirements, the loop never
  returns: it skips the number without removing it and looks at the same front again.
\<close>

theorem retire_loop_diverges:
  assumes "next_dcid_to_retire (cc_cids c) = Some d"
  shows "retire_loop (Some d) c = None"
proof (rule ccontr)
  assume "retire_loop (Some d) c \<noteq> None"
  then obtain y where "retire_loop (Some d) c = Some y" by blast
  then have "\<not> (next_dcid_to_retire (cc_cids c) = Some d \<and> Some d = Some d)"
  proof (rule retire_loop.raw_induct
      [where P = "\<lambda>p c y. \<not> (next_dcid_to_retire (cc_cids c) = Some d \<and> p = Some d)", rotated])
    fix f :: "u64 option \<Rightarrow> cid_ctl \<Rightarrow> (cid_ctl \<times> unit result) option" and p c y
    assume ih: "\<And>p c y. f p c = Some y \<Longrightarrow> \<not> (next_dcid_to_retire (cc_cids c) = Some d \<and> p = Some d)"
      and b: "(case next_dcid_to_retire (cc_cids c) of
        None \<Rightarrow> Some (c, Inr ())
      | Some seq \<Rightarrow>
          (case p of
             None \<Rightarrow> Some (c, Inl (Err InternalError))
           | Some dcid_seq \<Rightarrow>
               if seq = dcid_seq then f p c
               else (case retire_frame seq c of
                       Inl e \<Rightarrow> Some (c, Inl e)
                     | Inr c' \<Rightarrow> f p c'))) = Some y"
    show "\<not> (next_dcid_to_retire (cc_cids c) = Some d \<and> p = Some d)"
    proof
      assume h: "next_dcid_to_retire (cc_cids c) = Some d \<and> p = Some d"
      with b have "f p c = Some y" by simp
      with ih h show False by blast
    qed
  qed
  with assms show False by simp
qed

text \<open>
  A peer can bring the connection there.  It raises \<open>Retire Prior To\<close> to 2, sends the identifier
  with number 1 twice, and the repeated frame puts number 1 back into use; a second path takes it
  as the lowest unused number, and once the frame for number 0 is written the loop for that path
  does not return.
\<close>

theorem retire_loop_diverges_witness:
  "retire_loop (lowest_unused_dcid_seq (foldl cid_step (cid_mgr_new 2 [1] 0 None)
       [SetInitialDcid [7] None (Some 0), AddDcid [8] 2 8 2, MarkDcidUsed 2 0, AddDcid [9] 1 9 0, AddDcid [9] 1 9 0]))
     \<lparr>cc_cids = foldl cid_step (cid_mgr_new 2 [1] 0 None)
        [SetInitialDcid [7] None (Some 0), AddDcid [8] 2 8 2, MarkDcidUsed 2 0, AddDcid [9] 1 9 0, AddDcid [9] 1 9 0,
         MarkDcidUsed 1 1, MarkDcidToRetire 0 False],
      cc_out = replicate 100 0,
      cc_st = \<lparr>ws_written = 0, ws_frames = [], ws_ack_eliciting = False, ws_in_flight = False\<rparr>,
      cc_events = []\<rparr> = None"
proof -
  note defs = cid_mgr_new_def set_initial_dcid_def add_dcid_def cidq_insert_ignored_def cidq_insert_def
    cidq_new_def cidq_clear_def retire_dcids_below_def cidq_remove_lower_def add_dcid_insert_def
    check_dcids_to_retire_def Let_def u64_eval mark_dcid_used_def cidq_get_mut_def mark_dcid_to_retire_def
  have l: "lowest_unused_dcid_seq (foldl cid_step (cid_mgr_new 2 [1] 0 None)
     [SetInitialDcid [7] None (Some 0), AddDcid [8] 2 8 2, MarkDcidUsed 2 0, AddDcid [9] 1 9 0, AddDcid [9] 1 9 0]) = Some 1"
    by (simp add: defs lowest_unused_dcid_seq_def)
  show ?thesis
    unfolding l by (rule retire_loop_diverges) (simp add: defs next_dcid_to_retire_def)
qed

theorem retire_loop_terminates_witness:
  "\<exists>c' r. retire_loop (Some 1)
     \<lparr>cc_cids = foldl cid_step (cid_mgr_new 2 [1] 0 None)
        [SetInitialDcid [7] None (Some 0), AddDcid [8] 1 9 1],
      cc_out = replicate 100 0,
      cc_st = \<lparr>ws_written = 0, ws_frames = [], ws_ack_eliciting = False, ws_in_flight = False\<rparr>,
      cc_events = []\<rparr> = Some (c', r)"
proof -
  let ?c = "\<lparr>cc_cids = foldl cid_step (cid_mgr_new 2 [1] 0 None)
        [SetInitialDcid [7] None (Some 0), AddDcid [8] 1 9 1],
      cc_out = replicate 100 0,
      cc_st = \<lparr>ws_written = 0, ws_frames = [], ws_ack_eliciting = False, ws_in_flight = False\<rparr>,
      cc_events = []\<rparr>"
  have "1 \<notin> set (cm_dcids_to_retire (cc_cids ?c))"
    by (simp add: cid_mgr_new_def set_initial_dcid_def add_dcid_def cidq_insert_ignored_def cidq_insert_def
      cidq_new_def cidq_clear_def retire_dcids_below_def cidq_remove_lower_def add_dcid_insert_def
      check_dcids_to_retire_def Let_def u64_eval)
  from retire_loop_terminates [OF this] show ?thesis by blast
qed

end
