(* ===== verification/TransParam.thy ===== *)
theory TransParam
  imports FrameWire
begin

text \<open>
  \<open>src/trans_param.rs\<close>: the QUIC transport parameters of the handshake, their encoding as a
  sequence of (identifier, length, value) triples and the loop that decodes them, with the checks
  that make a value or a repeated identifier an error.  A socket address is the pair of its octets
  and its port; a stateless reset token in the parameters is the \<open>u128\<close> it denotes, and in a
  preferred address its sixteen bytes.
\<close>

record preferred_address =
  pa_ipv4_address :: "(byte list \<times> 16 word) option"
  pa_ipv6_address :: "(byte list \<times> 16 word) option"
  pa_connection_id :: "byte list"
  pa_stateless_reset_token :: "byte list"

record transport_params =
  tp_original_destination_connection_id :: "byte list option"
  tp_max_idle_timeout :: u64
  tp_stateless_reset_token :: "nat option"
  tp_max_udp_payload_size :: u64
  tp_initial_max_data :: u64
  tp_initial_max_stream_data_bidi_local :: u64
  tp_initial_max_stream_data_bidi_remote :: u64
  tp_initial_max_stream_data_uni :: u64
  tp_initial_max_streams_bidi :: u64
  tp_initial_max_streams_uni :: u64
  tp_ack_delay_exponent :: u64
  tp_max_ack_delay :: u64
  tp_disable_active_migration :: bool
  tp_preferred_address :: "preferred_address option"
  tp_active_conn_id_limit :: u64
  tp_initial_source_connection_id :: "byte list option"
  tp_retry_source_connection_id :: "byte list option"
  tp_enable_multipath :: bool
  tp_disable_encryption :: bool

definition tp_default :: transport_params where
  "tp_default =
     \<lparr>tp_original_destination_connection_id = None, tp_max_idle_timeout = 0,
      tp_stateless_reset_token = None, tp_max_udp_payload_size = 65527, tp_initial_max_data = 0,
      tp_initial_max_stream_data_bidi_local = 0, tp_initial_max_stream_data_bidi_remote = 0,
      tp_initial_max_stream_data_uni = 0, tp_initial_max_streams_bidi = 0,
      tp_initial_max_streams_uni = 0, tp_ack_delay_exponent = 3, tp_max_ack_delay = 25,
      tp_disable_active_migration = False, tp_preferred_address = None, tp_active_conn_id_limit = 2,
      tp_initial_source_connection_id = None, tp_retry_source_connection_id = None,
      tp_enable_multipath = False, tp_disable_encryption = False\<rparr>"

subsection \<open>The preferred address\<close>

definition pa_wire_len :: "preferred_address \<Rightarrow> usize" where
  "pa_wire_len pa = 4 + 2 + 16 + 2 + 1 + length (pa_connection_id pa) + 16"

definition write_socket_addr :: "nat \<Rightarrow> (byte list \<times> 16 word) option \<Rightarrow> (wbuf \<Rightarrow> wbuf result) list" where
  "write_socket_addr k a =
     (case a of
        Some (ip, port) \<Rightarrow> [write_bytes ip, write_u16 port]
      | None \<Rightarrow> [write_bytes (replicate k 0), write_u16 0])"

definition pa_to_bytes :: "preferred_address \<Rightarrow> (wbuf \<Rightarrow> wbuf result) list" where
  "pa_to_bytes pa =
     write_socket_addr 4 (pa_ipv4_address pa) @ write_socket_addr 16 (pa_ipv6_address pa)
     @ [write_u8 (word_of_nat (length (pa_connection_id pa))), write_bytes (pa_connection_id pa),
        write_bytes (pa_stateless_reset_token pa)]"

definition socket_addr :: "byte list \<Rightarrow> 16 word \<Rightarrow> (byte list \<times> 16 word) option" where
  "socket_addr ip port = (if (\<forall>b\<in>set ip. b = 0) \<and> port = 0 then None else Some (ip, port))"

definition reset_token_new :: "byte list \<Rightarrow> byte list result" where
  "reset_token_new data =
     (if length data < 16 then Inl (Err BufferTooShort)
      else if length data \<noteq> 16 then Inl Panic else Inr data)"

definition pa_from_bytes :: "byte list \<Rightarrow> (preferred_address \<times> usize) result" where
  "pa_from_bytes buf =
     rbind (read_ipv4_addr buf) (\<lambda>(ipv4_addr, b).
     rbind (read_u16 b) (\<lambda>(ipv4_port, b).
     rbind (read_ipv6_addr b) (\<lambda>(ipv6_addr, b).
     rbind (read_u16 b) (\<lambda>(ipv6_port, b).
     rbind (read_u8 b) (\<lambda>(cid_len, b).
     rbind (read_bytes (unat cid_len) b) (\<lambda>(cid, b).
     rbind (read_bytes 16 b) (\<lambda>(token, b).
     rbind (reset_token_new token) (\<lambda>token.
       Inr (\<lparr>pa_ipv4_address = socket_addr ipv4_addr ipv4_port,
             pa_ipv6_address = socket_addr ipv6_addr ipv6_port,
             pa_connection_id = cid_new cid,
             pa_stateless_reset_token = token\<rparr>, length buf - length b)))))))))"

subsection \<open>Decoding\<close>

text \<open>A value that is a variable-length integer, stored by \<open>f\<close> when it passes the check \<open>ok\<close>.\<close>

definition varint_param :: "(u64 \<Rightarrow> bool) \<Rightarrow> (u64 \<Rightarrow> transport_params) \<Rightarrow> byte list \<Rightarrow> transport_params result" where
  "varint_param ok f val =
     rbind (read_varint val) (\<lambda>(n, _). if ok n then Inr (f n) else Inl (Err TransportParameterError))"

text \<open>A parameter only a server sends.\<close>

definition server_param :: "bool \<Rightarrow> transport_params result \<Rightarrow> transport_params result" where
  "server_param is_server r = (if is_server then Inl (Err TransportParameterError) else r)"

definition decode_param :: "bool \<Rightarrow> u64 \<Rightarrow> byte list \<Rightarrow> transport_params \<Rightarrow> transport_params result" where
  "decode_param is_server i val tp =
     (if i = 0x0000 then server_param is_server (Inr (tp\<lparr>tp_original_destination_connection_id := Some (cid_new val)\<rparr>))
      else if i = 0x0001 then varint_param (\<lambda>_. True) (\<lambda>n. tp\<lparr>tp_max_idle_timeout := n\<rparr>) val
      else if i = 0x0002 then server_param is_server
        (rbind (read_bytes 16 val) (\<lambda>(t, _). Inr (tp\<lparr>tp_stateless_reset_token := Some (be_nat t)\<rparr>)))
      else if i = 0x0003 then varint_param (\<lambda>n. \<not> n < 1200) (\<lambda>n. tp\<lparr>tp_max_udp_payload_size := n\<rparr>) val
      else if i = 0x0004 then varint_param (\<lambda>_. True) (\<lambda>n. tp\<lparr>tp_initial_max_data := n\<rparr>) val
      else if i = 0x0005 then varint_param (\<lambda>_. True) (\<lambda>n. tp\<lparr>tp_initial_max_stream_data_bidi_local := n\<rparr>) val
      else if i = 0x0006 then varint_param (\<lambda>_. True) (\<lambda>n. tp\<lparr>tp_initial_max_stream_data_bidi_remote := n\<rparr>) val
      else if i = 0x0007 then varint_param (\<lambda>_. True) (\<lambda>n. tp\<lparr>tp_initial_max_stream_data_uni := n\<rparr>) val
      else if i = 0x0008 then varint_param (\<lambda>n. \<not> n > MAX_STREAMS_PER_TYPE) (\<lambda>n. tp\<lparr>tp_initial_max_streams_bidi := n\<rparr>) val
      else if i = 0x0009 then varint_param (\<lambda>n. \<not> n > MAX_STREAMS_PER_TYPE) (\<lambda>n. tp\<lparr>tp_initial_max_streams_uni := n\<rparr>) val
      else if i = 0x000a then varint_param (\<lambda>n. \<not> n > 20) (\<lambda>n. tp\<lparr>tp_ack_delay_exponent := n\<rparr>) val
      else if i = 0x000b then varint_param (\<lambda>n. \<not> n \<ge> 2 ^ 14) (\<lambda>n. tp\<lparr>tp_max_ack_delay := n\<rparr>) val
      else if i = 0x000c then Inr (tp\<lparr>tp_disable_active_migration := True\<rparr>)
      else if i = 0x000d then server_param is_server
        (rbind (pa_from_bytes val) (\<lambda>(pa, _). Inr (tp\<lparr>tp_preferred_address := Some pa\<rparr>)))
      else if i = 0x000e then varint_param (\<lambda>n. \<not> n < 2) (\<lambda>n. tp\<lparr>tp_active_conn_id_limit := n\<rparr>) val
      else if i = 0x000f then Inr (tp\<lparr>tp_initial_source_connection_id := Some (cid_new val)\<rparr>)
      else if i = 0x0010 then server_param is_server (Inr (tp\<lparr>tp_retry_source_connection_id := Some (cid_new val)\<rparr>))
      else if i = 0x0f739bbc1b666d05 then Inr (tp\<lparr>tp_enable_multipath := True\<rparr>)
      else if i = 0xbaad then Inr (tp\<lparr>tp_disable_encryption := True\<rparr>)
      else Inr tp)"

lemma read_param_shorter:
  assumes "read_varint b = Inr (n, b1)" "read_with_varint_length b1 = Inr (v, b2)"
  shows "length b2 < length b"
proof -
  have "length b1 < length b" using assms(1) by (cases rule: read_varint_cases [of b]) auto
  moreover have "length b2 \<le> length b1"
    using assms(2) by (cases rule: read_varint_cases [of b1])
      (auto simp: read_with_varint_length_def read_bytes_def take_bytes_eq split: if_splits)
  ultimately show ?thesis by linarith
qed

function decode_loop :: "bool \<Rightarrow> u64 list \<Rightarrow> transport_params \<Rightarrow> byte list \<Rightarrow> transport_params result" where
  "decode_loop is_server found tp buf =
     (if buf = [] then Inr tp
      else case read_varint buf of
        Inl e \<Rightarrow> Inl e
      | Inr (i, b1) \<Rightarrow>
          if i \<in> set found then Inl (Err TransportParameterError)
          else case read_with_varint_length b1 of
            Inl e \<Rightarrow> Inl e
          | Inr (val, b2) \<Rightarrow>
              (case decode_param is_server i val tp of
                 Inl e \<Rightarrow> Inl e
               | Inr tp' \<Rightarrow> decode_loop is_server (i # found) tp' b2))"
  by pat_completeness auto
termination
  by (relation "measure (\<lambda>(_, _, _, b). length b)") (auto simp: read_param_shorter)

declare decode_loop.simps [simp del]

definition tp_decode :: "byte list \<Rightarrow> bool \<Rightarrow> (transport_params \<times> usize) result" where
  "tp_decode buf is_server = rbind (decode_loop is_server [] tp_default buf) (\<lambda>tp. Inr (tp, length buf))"

subsection \<open>Encoding\<close>

definition write_len_of :: "u64 \<Rightarrow> wbuf \<Rightarrow> wbuf result" where
  "write_len_of v b = (case encode_varint_len v of None \<Rightarrow> Inl Panic | Some l \<Rightarrow> write_varint l b)"

definition write_varint_param :: "bool \<Rightarrow> u64 \<Rightarrow> u64 \<Rightarrow> (wbuf \<Rightarrow> wbuf result) list" where
  "write_varint_param present i v = (if present then [write_varint i, write_len_of v, write_varint v] else [])"

definition write_cid_param :: "bool \<Rightarrow> u64 \<Rightarrow> byte list option \<Rightarrow> (wbuf \<Rightarrow> wbuf result) list" where
  "write_cid_param sent i c =
     (if sent then (case c of None \<Rightarrow> []
                    | Some cid \<Rightarrow> [write_varint i, write_varint (length cid), write_bytes cid])
      else [])"

definition write_flag_param :: "bool \<Rightarrow> u64 \<Rightarrow> (wbuf \<Rightarrow> wbuf result) list" where
  "write_flag_param b i = (if b then [write_varint i, write_varint 0] else [])"

definition write_token_param :: "bool \<Rightarrow> nat option \<Rightarrow> (wbuf \<Rightarrow> wbuf result) list" where
  "write_token_param sent t =
     (if sent then (case t of None \<Rightarrow> []
                    | Some token \<Rightarrow> [write_varint 0x0002, write_varint 16, write_bytes (be_bytes 16 token)])
      else [])"

definition write_pa_param :: "preferred_address option \<Rightarrow> (wbuf \<Rightarrow> wbuf result) list" where
  "write_pa_param p =
     (case p of None \<Rightarrow> []
      | Some pa \<Rightarrow> [write_varint 0x000d, write_varint (pa_wire_len pa)] @ pa_to_bytes pa)"

definition tp_writes :: "transport_params \<Rightarrow> bool \<Rightarrow> (wbuf \<Rightarrow> wbuf result) list" where
  "tp_writes tp is_server = concat
     [write_cid_param is_server 0x0000 (tp_original_destination_connection_id tp),
      write_varint_param (tp_max_idle_timeout tp \<noteq> 0) 0x0001 (tp_max_idle_timeout tp),
      write_token_param is_server (tp_stateless_reset_token tp),
      write_varint_param (tp_max_udp_payload_size tp \<noteq> 0) 0x0003 (tp_max_udp_payload_size tp),
      write_varint_param (tp_initial_max_data tp \<noteq> 0) 0x0004 (tp_initial_max_data tp),
      write_varint_param (tp_initial_max_stream_data_bidi_local tp \<noteq> 0) 0x0005 (tp_initial_max_stream_data_bidi_local tp),
      write_varint_param (tp_initial_max_stream_data_bidi_remote tp \<noteq> 0) 0x0006 (tp_initial_max_stream_data_bidi_remote tp),
      write_varint_param (tp_initial_max_stream_data_uni tp \<noteq> 0) 0x0007 (tp_initial_max_stream_data_uni tp),
      write_varint_param (tp_initial_max_streams_bidi tp \<noteq> 0) 0x0008 (tp_initial_max_streams_bidi tp),
      write_varint_param (tp_initial_max_streams_uni tp \<noteq> 0) 0x0009 (tp_initial_max_streams_uni tp),
      write_varint_param (tp_ack_delay_exponent tp \<noteq> 0) 0x000a (tp_ack_delay_exponent tp),
      write_varint_param (tp_max_ack_delay tp \<noteq> 0) 0x000b (tp_max_ack_delay tp),
      write_flag_param (tp_disable_active_migration tp) 0x000c,
      write_pa_param (tp_preferred_address tp),
      write_varint_param (tp_active_conn_id_limit tp \<ge> 2) 0x000e (tp_active_conn_id_limit tp),
      write_cid_param True 0x000f (tp_initial_source_connection_id tp),
      write_cid_param is_server 0x0010 (tp_retry_source_connection_id tp),
      write_flag_param (tp_enable_multipath tp) 0x0f739bbc1b666d05,
      write_flag_param (tp_disable_encryption tp) 0xbaad]"

definition tp_encode :: "transport_params \<Rightarrow> bool \<Rightarrow> usize \<Rightarrow> (byte list \<times> usize) result" where
  "tp_encode tp is_server room =
     rbind (seqw (tp_writes tp is_server) (wb_new room)) (\<lambda>b. Inr (wb_out b, room - wb_room b))"

end
