(* ===== verification/TransParamProps.thy ===== *)
theory TransParamProps
  imports TransParam
begin

text \<open>
  The transport parameters one endpoint encodes are those the other decodes.  The writes are first
  shown to emit the entries of a table of parameters; decoding such a sequence folds
  \<open>decode_param\<close> over the entries that are present, and every entry restores its own field.
\<close>

subsection \<open>Sequences of parameters\<close>

definition par_bytes :: "u64 \<times> byte list \<Rightarrow> byte list" where
  "par_bytes p = varint_bytes (fst p) @ len_bytes (snd p)"

definition opt_bytes :: "u64 \<times> byte list option \<Rightarrow> byte list" where
  "opt_bytes p = (case snd p of None \<Rightarrow> [] | Some v \<Rightarrow> par_bytes (fst p, v))"

fun decode_all :: "bool \<Rightarrow> (u64 \<times> byte list option) list \<Rightarrow> transport_params \<Rightarrow> transport_params result" where
  "decode_all s [] t = Inr t"
| "decode_all s ((i, None) # ps) t = decode_all s ps t"
| "decode_all s ((i, Some v) # ps) t = rbind (decode_param s i v t) (decode_all s ps)"

lemma decode_all_Cons:
  "decode_all s [(i, p)] t = Inr t' \<Longrightarrow> decode_all s ((i, p) # ps) t = decode_all s ps t'"
  by (cases p) (auto simp: rbind_def split: sum.splits)

lemma decode_loop_par:
  assumes "i \<le> VINT_MAX" "length v \<le> VINT_MAX" "i \<notin> set found"
  shows "decode_loop s found t (par_bytes (i, v) @ rest)
    = rbind (decode_param s i v t) (\<lambda>t'. decode_loop s (i # found) t' rest)"
  using assms by (subst decode_loop.simps) (simp add: par_bytes_def lb.roundtrip rbind_def)

lemma decode_loop_all:
  assumes "\<forall>e\<in>set ps. fst e \<le> VINT_MAX \<and> (\<forall>v. snd e = Some v \<longrightarrow> length v \<le> VINT_MAX)"
    and "distinct (map fst ps)" "set (map fst ps) \<inter> set found = {}"
  shows "decode_loop s found t (concat (map opt_bytes ps)) = decode_all s ps t"
  using assms
proof (induction ps arbitrary: found t)
  case Nil
  show ?case by (subst decode_loop.simps) simp
next
  case (Cons q ps)
  obtain i p where q: "q = (i, p)" by (cases q)
  show ?case
  proof (cases p)
    case None
    with Cons q show ?thesis by (simp add: opt_bytes_def)
  next
    case (Some v)
    have "decode_loop s (i # found) t' (concat (map opt_bytes ps)) = decode_all s ps t'" for t'
      using Cons.prems q by (intro Cons.IH) auto
    moreover have "decode_loop s found t (par_bytes (i, v) @ concat (map opt_bytes ps))
        = rbind (decode_param s i v t) (\<lambda>t'. decode_loop s (i # found) t' (concat (map opt_bytes ps)))"
      using Cons.prems q Some by (intro decode_loop_par) auto
    moreover have "opt_bytes (i, Some v) = par_bytes (i, v)" by (simp add: opt_bytes_def)
    ultimately show ?thesis using q Some by simp
  qed
qed

lemma seqw_concat:
  "list_all2 (\<lambda>w b. seqw w = emit b) ws bs \<Longrightarrow> seqw (concat ws) = emit (concat bs)"
  by (induction rule: list_all2_induct) (simp_all add: seqw_Nil seqw_append del: seqw.simps)

subsection \<open>What each write emits\<close>

lemma write_len_of_emit: "v \<le> VINT_MAX \<Longrightarrow> write_len_of v = emit (varint_bytes (vlen v))"
proof -
  assume v: "v \<le> VINT_MAX"
  have "vlen v \<le> VINT_MAX" by (simp add: vlen_cases VINT_MAX_def)
  with v show ?thesis by (simp add: write_len_of_def encode_varint_len_eq write_varint_emit fun_eq_iff)
qed

lemma write_varint_param_emit:
  "i \<le> VINT_MAX \<Longrightarrow> v \<le> VINT_MAX \<Longrightarrow>
   seqw (write_varint_param p i v) = emit (opt_bytes (i, if p then Some (varint_bytes v) else None))"
  by (simp add: write_varint_param_def opt_bytes_def par_bytes_def len_bytes_def vlen_def seq_emits
      write_len_of_emit del: seqw.simps)

lemma write_cid_param_emit:
  "i \<le> VINT_MAX \<Longrightarrow> (\<And>cid. c = Some cid \<Longrightarrow> length cid \<le> MAX_CID_LEN) \<Longrightarrow>
   seqw (write_cid_param p i c) = emit (opt_bytes (i, if p then c else None))"
  by (cases c) (simp_all add: write_cid_param_def opt_bytes_def par_bytes_def len_bytes_def seq_emits
      MAX_CID_LEN_def VINT_MAX_def del: seqw.simps)

lemma write_flag_param_emit:
  "i \<le> VINT_MAX \<Longrightarrow> seqw (write_flag_param b i) = emit (opt_bytes (i, if b then Some [] else None))"
  by (simp add: write_flag_param_def opt_bytes_def par_bytes_def len_bytes_def seq_emits del: seqw.simps)

lemma write_token_param_emit:
  "seqw (write_token_param p t) = emit (opt_bytes (2, if p then map_option (be_bytes 16) t else None))"
  by (cases t) (simp_all add: write_token_param_def opt_bytes_def par_bytes_def len_bytes_def seq_emits
      VINT_MAX_def del: seqw.simps)

subsection \<open>The preferred address\<close>

definition sa_bytes :: "nat \<Rightarrow> (byte list \<times> 16 word) option \<Rightarrow> byte list" where
  "sa_bytes k a =
     (case a of Some (ip, port) \<Rightarrow> ip @ be_bytes 2 (unat port) | None \<Rightarrow> replicate k 0 @ be_bytes 2 (unat (0 :: 16 word)))"

definition sa_ok :: "nat \<Rightarrow> (byte list \<times> 16 word) option \<Rightarrow> bool" where
  "sa_ok k a = (case a of None \<Rightarrow> True
     | Some (ip, port) \<Rightarrow> length ip = k \<and> \<not> ((\<forall>b\<in>set ip. b = 0) \<and> port = 0))"

definition pa_ok :: "preferred_address \<Rightarrow> bool" where
  "pa_ok pa \<longleftrightarrow> sa_ok 4 (pa_ipv4_address pa) \<and> sa_ok 16 (pa_ipv6_address pa)
     \<and> length (pa_connection_id pa) \<le> MAX_CID_LEN \<and> length (pa_stateless_reset_token pa) = 16"

definition pa_bytes :: "preferred_address \<Rightarrow> byte list" where
  "pa_bytes pa = sa_bytes 4 (pa_ipv4_address pa) @ sa_bytes 16 (pa_ipv6_address pa)
     @ [word_of_nat (length (pa_connection_id pa))] @ pa_connection_id pa @ pa_stateless_reset_token pa"

lemma write_socket_addr_emit: "seqw (write_socket_addr k a) = emit (sa_bytes k a)"
  by (auto simp add: write_socket_addr_def sa_bytes_def seq_emits write_u16_def split: option.split
      simp del: seqw.simps)

lemma pa_to_bytes_emit: "seqw (pa_to_bytes pa) = emit (pa_bytes pa)"
  unfolding pa_to_bytes_def pa_bytes_def
  by (intro seqw_append write_socket_addr_emit) (simp add: seq_emits del: seqw.simps)

lemma length_pa_bytes: "pa_ok pa \<Longrightarrow> length (pa_bytes pa) = pa_wire_len pa"
  by (auto simp: pa_ok_def pa_bytes_def pa_wire_len_def sa_bytes_def sa_ok_def split: option.splits)

lemma write_pa_param_emit:
  assumes "\<And>pa. p = Some pa \<Longrightarrow> pa_ok pa"
  shows "seqw (write_pa_param p) = emit (opt_bytes (0xd, map_option pa_bytes p))"
proof (cases p)
  case (Some pa)
  have "pa_wire_len pa \<le> VINT_MAX"
    using assms [OF Some] by (simp add: pa_wire_len_def pa_ok_def MAX_CID_LEN_def VINT_MAX_def)
  then have "seqw [write_varint 0x000d, write_varint (pa_wire_len pa)]
      = emit (varint_bytes 0xd @ varint_bytes (pa_wire_len pa))"
    by (simp add: seq_emits VINT_MAX_def del: seqw.simps)
  from seqw_append [OF this pa_to_bytes_emit] show ?thesis
    using length_pa_bytes [OF assms [OF Some]] Some
    by (simp add: write_pa_param_def opt_bytes_def par_bytes_def len_bytes_def del: seqw.simps)
qed (simp add: write_pa_param_def opt_bytes_def seqw_Nil del: seqw.simps)

lemma sa_read:
  assumes "sa_ok k a"
  shows "\<exists>ip port. length ip = k \<and> socket_addr ip port = a \<and> sa_bytes k a = ip @ be_bytes 2 (unat port)"
proof (cases a)
  case None
  then show ?thesis
    by (intro exI [of _ "replicate k 0"] exI [of _ 0]) (simp add: sa_bytes_def socket_addr_def)
next
  case (Some x)
  obtain ip port where x: "x = (ip, port)" by (cases x)
  show ?thesis
    using assms by (intro exI [of _ ip] exI [of _ port]) (auto simp: Some x sa_ok_def sa_bytes_def socket_addr_def)
qed

lemma pa_roundtrip:
  assumes "pa_ok pa"
  shows "pa_from_bytes (pa_bytes pa) = Inr (pa, length (pa_bytes pa))"
proof -
  obtain ip4 p4 where 4: "length ip4 = 4" "socket_addr ip4 p4 = pa_ipv4_address pa"
      "sa_bytes 4 (pa_ipv4_address pa) = ip4 @ be_bytes 2 (unat p4)"
    using assms sa_read by (metis pa_ok_def)
  obtain ip6 p6 where 6: "length ip6 = 16" "socket_addr ip6 p6 = pa_ipv6_address pa"
      "sa_bytes 16 (pa_ipv6_address pa) = ip6 @ be_bytes 2 (unat p6)"
    using assms sa_read by (metis pa_ok_def)
  have c: "length (pa_connection_id pa) \<le> 20" "length (pa_stateless_reset_token pa) = 16"
    using assms by (simp_all add: pa_ok_def MAX_CID_LEN_def)
  then have u: "unat (word_of_nat (length (pa_connection_id pa)) :: byte) = length (pa_connection_id pa)"
    by (simp add: unat_of_nat)
  have n: "cid_new (pa_connection_id pa) = pa_connection_id pa" using c(1) by (simp add: cid_new_def MAX_CID_LEN_def)
  define cid where "cid = pa_connection_id pa"
  have r: "read_u16 (be_bytes 2 (unat w) @ rest) = Inr (w, rest)" for w :: "16 word" and rest by (simp add: w16.roundtrip)
  have t: "take_bytes 16 (pa_stateless_reset_token pa) = Inr (pa_stateless_reset_token pa, [])"
    using c(2) by (simp add: take_bytes_eq)
  have ok: "pa_from_bytes (ip4 @ be_bytes 2 (unat p4) @ ip6 @ be_bytes 2 (unat p6) @
      word_of_nat (length cid) # cid @ pa_stateless_reset_token pa)
      = Inr (pa, length (ip4 @ be_bytes 2 (unat p4) @ ip6 @ be_bytes 2 (unat p6) @
      word_of_nat (length cid) # cid @ pa_stateless_reset_token pa))"
    using 4(1) 6(1) c u n t
    by (simp add: pa_from_bytes_def read_ipv4_addr_def read_ipv6_addr_def r read_u8_def read_bytes_def
        reset_token_new_def 4(2) 6(2) cid_def)
  show ?thesis using ok by (simp add: pa_bytes_def 4(3) 6(3) cid_def)
qed

subsection \<open>The table of parameters\<close>

definition tp_table :: "transport_params \<Rightarrow> bool \<Rightarrow> (u64 \<times> byte list option) list" where
  "tp_table tp is_server =
     [(0x0000, if is_server then tp_original_destination_connection_id tp else None),
      (0x0001, if tp_max_idle_timeout tp \<noteq> 0 then Some (varint_bytes (tp_max_idle_timeout tp)) else None),
      (0x0002, if is_server then map_option (be_bytes 16) (tp_stateless_reset_token tp) else None),
      (0x0003, if tp_max_udp_payload_size tp \<noteq> 0 then Some (varint_bytes (tp_max_udp_payload_size tp)) else None),
      (0x0004, if tp_initial_max_data tp \<noteq> 0 then Some (varint_bytes (tp_initial_max_data tp)) else None),
      (0x0005, if tp_initial_max_stream_data_bidi_local tp \<noteq> 0
               then Some (varint_bytes (tp_initial_max_stream_data_bidi_local tp)) else None),
      (0x0006, if tp_initial_max_stream_data_bidi_remote tp \<noteq> 0
               then Some (varint_bytes (tp_initial_max_stream_data_bidi_remote tp)) else None),
      (0x0007, if tp_initial_max_stream_data_uni tp \<noteq> 0
               then Some (varint_bytes (tp_initial_max_stream_data_uni tp)) else None),
      (0x0008, if tp_initial_max_streams_bidi tp \<noteq> 0 then Some (varint_bytes (tp_initial_max_streams_bidi tp)) else None),
      (0x0009, if tp_initial_max_streams_uni tp \<noteq> 0 then Some (varint_bytes (tp_initial_max_streams_uni tp)) else None),
      (0x000a, if tp_ack_delay_exponent tp \<noteq> 0 then Some (varint_bytes (tp_ack_delay_exponent tp)) else None),
      (0x000b, if tp_max_ack_delay tp \<noteq> 0 then Some (varint_bytes (tp_max_ack_delay tp)) else None),
      (0x000c, if tp_disable_active_migration tp then Some [] else None),
      (0x000d, map_option pa_bytes (tp_preferred_address tp)),
      (0x000e, if tp_active_conn_id_limit tp \<ge> 2 then Some (varint_bytes (tp_active_conn_id_limit tp)) else None),
      (0x000f, tp_initial_source_connection_id tp),
      (0x0010, if is_server then tp_retry_source_connection_id tp else None),
      (0x0f739bbc1b666d05, if tp_enable_multipath tp then Some [] else None),
      (0xbaad, if tp_disable_encryption tp then Some [] else None)]"

definition cid_opt_ok :: "byte list option \<Rightarrow> bool" where
  "cid_opt_ok c = (case c of None \<Rightarrow> True | Some cid \<Rightarrow> length cid \<le> MAX_CID_LEN)"

text \<open>
  The values an endpoint may announce; a client announces no preferred address.
\<close>

definition tp_ok :: "bool \<Rightarrow> transport_params \<Rightarrow> bool" where
  "tp_ok is_server tp \<longleftrightarrow>
     cid_opt_ok (tp_original_destination_connection_id tp) \<and> cid_opt_ok (tp_initial_source_connection_id tp)
     \<and> cid_opt_ok (tp_retry_source_connection_id tp)
     \<and> (\<forall>t. tp_stateless_reset_token tp = Some t \<longrightarrow> t < 256 ^ 16)
     \<and> tp_max_idle_timeout tp \<le> VINT_MAX
     \<and> 1200 \<le> tp_max_udp_payload_size tp \<and> tp_max_udp_payload_size tp \<le> VINT_MAX
     \<and> tp_initial_max_data tp \<le> VINT_MAX
     \<and> tp_initial_max_stream_data_bidi_local tp \<le> VINT_MAX
     \<and> tp_initial_max_stream_data_bidi_remote tp \<le> VINT_MAX
     \<and> tp_initial_max_stream_data_uni tp \<le> VINT_MAX
     \<and> tp_initial_max_streams_bidi tp \<le> MAX_STREAMS_PER_TYPE
     \<and> tp_initial_max_streams_uni tp \<le> MAX_STREAMS_PER_TYPE
     \<and> tp_ack_delay_exponent tp \<le> 20 \<and> tp_max_ack_delay tp < 2 ^ 14
     \<and> 2 \<le> tp_active_conn_id_limit tp \<and> tp_active_conn_id_limit tp \<le> VINT_MAX
     \<and> (\<forall>pa. tp_preferred_address tp = Some pa \<longrightarrow> is_server \<and> pa_ok pa)"

text \<open>What of the parameters the peer is told: a client keeps the parameters of a server to itself.\<close>

definition tp_sent :: "bool \<Rightarrow> transport_params \<Rightarrow> transport_params" where
  "tp_sent is_server tp =
     (if is_server then tp
      else tp\<lparr>tp_original_destination_connection_id := None, tp_stateless_reset_token := None,
              tp_retry_source_connection_id := None\<rparr>)"

text \<open>What the peer ends up with: it assumes its defaults for delays of zero, which are not encoded.\<close>

definition tp_heard :: "bool \<Rightarrow> transport_params \<Rightarrow> transport_params" where
  "tp_heard is_server tp = (tp_sent is_server tp)
     \<lparr>tp_ack_delay_exponent := (if tp_ack_delay_exponent tp = 0 then 3 else tp_ack_delay_exponent tp),
      tp_max_ack_delay := (if tp_max_ack_delay tp = 0 then 25 else tp_max_ack_delay tp)\<rparr>"

lemma streams_vint: "n \<le> MAX_STREAMS_PER_TYPE \<Longrightarrow> n \<le> VINT_MAX"
  by (simp add: MAX_STREAMS_PER_TYPE_def VINT_MAX_def)

lemma small_vint: "n \<le> 65535 \<Longrightarrow> n \<le> VINT_MAX"
  by (simp add: VINT_MAX_def)

lemma tp_ok_bounds:
  assumes "tp_ok is_server tp"
  shows "tp_max_idle_timeout tp \<le> VINT_MAX" "tp_max_udp_payload_size tp \<le> VINT_MAX"
    "tp_initial_max_data tp \<le> VINT_MAX" "tp_initial_max_stream_data_bidi_local tp \<le> VINT_MAX"
    "tp_initial_max_stream_data_bidi_remote tp \<le> VINT_MAX" "tp_initial_max_stream_data_uni tp \<le> VINT_MAX"
    "tp_initial_max_streams_bidi tp \<le> VINT_MAX" "tp_initial_max_streams_uni tp \<le> VINT_MAX"
    "tp_ack_delay_exponent tp \<le> VINT_MAX" "tp_max_ack_delay tp \<le> VINT_MAX"
    "tp_active_conn_id_limit tp \<le> VINT_MAX"
  using assms by (simp_all add: tp_ok_def streams_vint small_vint)

lemma tp_ok_options:
  assumes "tp_ok is_server tp"
  shows "tp_original_destination_connection_id tp = Some cid \<Longrightarrow> length cid \<le> MAX_CID_LEN"
    "tp_initial_source_connection_id tp = Some cid \<Longrightarrow> length cid \<le> MAX_CID_LEN"
    "tp_retry_source_connection_id tp = Some cid \<Longrightarrow> length cid \<le> MAX_CID_LEN"
    "tp_preferred_address tp = Some pa \<Longrightarrow> pa_ok pa"
    "tp_preferred_address tp = Some pa \<Longrightarrow> is_server"
    "tp_stateless_reset_token tp = Some t \<Longrightarrow> t < 256 ^ 16"
  using assms by (simp_all add: tp_ok_def cid_opt_ok_def)

lemma id_vint [simp]:
  "(0::nat) \<le> VINT_MAX" "Suc 0 \<le> VINT_MAX" "(2::nat) \<le> VINT_MAX" "(3::nat) \<le> VINT_MAX" "(4::nat) \<le> VINT_MAX"
  "(5::nat) \<le> VINT_MAX" "(6::nat) \<le> VINT_MAX" "(7::nat) \<le> VINT_MAX" "(8::nat) \<le> VINT_MAX" "(9::nat) \<le> VINT_MAX"
  "(10::nat) \<le> VINT_MAX" "(11::nat) \<le> VINT_MAX" "(12::nat) \<le> VINT_MAX" "(13::nat) \<le> VINT_MAX" "(14::nat) \<le> VINT_MAX"
  "(15::nat) \<le> VINT_MAX" "(16::nat) \<le> VINT_MAX" "(0x0f739bbc1b666d05::nat) \<le> VINT_MAX" "(0xbaad::nat) \<le> VINT_MAX"
  by (simp_all add: VINT_MAX_def)

lemma tp_writes_emit:
  assumes "tp_ok is_server tp"
  shows "seqw (tp_writes tp is_server) = emit (concat (map opt_bytes (tp_table tp is_server)))"
proof -
  note o = tp_ok_options [OF assms]
  have scid: "seqw (write_cid_param True 15 (tp_initial_source_connection_id tp)) =
        emit (opt_bytes (15, tp_initial_source_connection_id tp))"
    using write_cid_param_emit [of 15 "tp_initial_source_connection_id tp" True] o(2)
    by (simp del: seqw.simps)
  show ?thesis
    unfolding tp_writes_def tp_table_def list.map
    by (rule seqw_concat, unfold list_all2_Cons list_all2_Nil, intro conjI TrueI scid write_varint_param_emit
        write_flag_param_emit write_token_param_emit write_cid_param_emit write_pa_param_emit)
      (simp_all add: tp_ok_bounds [OF assms] o)
qed

definition ent_ok :: "u64 \<times> byte list option \<Rightarrow> bool" where
  "ent_ok e \<longleftrightarrow> fst e \<le> VINT_MAX \<and> (\<forall>v. snd e = Some v \<longrightarrow> length v \<le> VINT_MAX)"

lemma ent_okI:
  "i \<le> VINT_MAX \<Longrightarrow> ent_ok (i, if b then Some (varint_bytes n) else None)"
  "i \<le> VINT_MAX \<Longrightarrow> ent_ok (i, if b then Some [] else None)"
  "i \<le> VINT_MAX \<Longrightarrow> ent_ok (i, if b then map_option (be_bytes 16) t else None)"
  "i \<le> VINT_MAX \<Longrightarrow> (\<And>cid. c = Some cid \<Longrightarrow> length cid \<le> MAX_CID_LEN) \<Longrightarrow> ent_ok (i, if b then c else None)"
  "i \<le> VINT_MAX \<Longrightarrow> (\<And>cid. c = Some cid \<Longrightarrow> length cid \<le> MAX_CID_LEN) \<Longrightarrow> ent_ok (i, c)"
  "i \<le> VINT_MAX \<Longrightarrow> (\<And>pa. p = Some pa \<Longrightarrow> pa_ok pa) \<Longrightarrow> ent_ok (i, map_option pa_bytes p)"
proof -
  have c: "n \<le> MAX_CID_LEN \<Longrightarrow> n \<le> VINT_MAX" for n by (simp add: MAX_CID_LEN_def VINT_MAX_def)
  have p: "pa_ok pa \<Longrightarrow> length (pa_bytes pa) \<le> VINT_MAX" for pa
    using length_pa_bytes [of pa] by (simp add: pa_wire_len_def pa_ok_def MAX_CID_LEN_def VINT_MAX_def)
  have v: "length (varint_bytes n) \<le> VINT_MAX" for n
    using vlen_cases [of n] by (simp add: vlen_def VINT_MAX_def)
  show "i \<le> VINT_MAX \<Longrightarrow> ent_ok (i, if b then Some (varint_bytes n) else None)"
    using v by (simp add: ent_ok_def)
  show "i \<le> VINT_MAX \<Longrightarrow> ent_ok (i, if b then Some [] else None)" by (simp add: ent_ok_def)
  show "i \<le> VINT_MAX \<Longrightarrow> ent_ok (i, if b then map_option (be_bytes 16) t else None)"
    by (cases t) (simp_all add: ent_ok_def)
  show "i \<le> VINT_MAX \<Longrightarrow> (\<And>cid. c = Some cid \<Longrightarrow> length cid \<le> MAX_CID_LEN) \<Longrightarrow> ent_ok (i, if b then c else None)"
    "i \<le> VINT_MAX \<Longrightarrow> (\<And>cid. c = Some cid \<Longrightarrow> length cid \<le> MAX_CID_LEN) \<Longrightarrow> ent_ok (i, c)"
    by (cases c; simp add: ent_ok_def c)+
  show "i \<le> VINT_MAX \<Longrightarrow> (\<And>pa. p = Some pa \<Longrightarrow> pa_ok pa) \<Longrightarrow> ent_ok (i, map_option pa_bytes p)"
    by (cases p) (simp_all add: ent_ok_def p)
qed

lemma tp_table_wf:
  assumes "tp_ok is_server tp"
  shows "\<forall>e\<in>set (tp_table tp is_server). ent_ok e"
    and "distinct (map fst (tp_table tp is_server))"
proof -
  note o = tp_ok_options [OF assms]
  have "list_all ent_ok (tp_table tp is_server)"
    unfolding tp_table_def list.pred_inject
    by (intro conjI ent_okI(1,2,3,6)) (auto intro!: ent_okI(4,5) simp: o)
  then show "\<forall>e\<in>set (tp_table tp is_server). ent_ok e" by (simp add: list_all_iff)
  show "distinct (map fst (tp_table tp is_server))" by (simp add: tp_table_def)
qed

subsection \<open>Every entry restores its field\<close>

lemma read_whole: "v \<le> VINT_MAX \<Longrightarrow> read_varint (varint_bytes v) = Inr (v, [])"
  by (rule vi.decode_whole)

lemma dec_zero_default:
  "v \<le> VINT_MAX \<Longrightarrow> tp_max_idle_timeout t = 0 \<Longrightarrow>
     decode_all s ((0x0001, if v \<noteq> 0 then Some (varint_bytes v) else None) # ps) t = decode_all s ps (t\<lparr>tp_max_idle_timeout := v\<rparr>)"
  "v \<le> VINT_MAX \<Longrightarrow> tp_initial_max_data t = 0 \<Longrightarrow>
     decode_all s ((0x0004, if v \<noteq> 0 then Some (varint_bytes v) else None) # ps) t = decode_all s ps (t\<lparr>tp_initial_max_data := v\<rparr>)"
  "v \<le> VINT_MAX \<Longrightarrow> tp_initial_max_stream_data_bidi_local t = 0 \<Longrightarrow>
     decode_all s ((0x0005, if v \<noteq> 0 then Some (varint_bytes v) else None) # ps) t = decode_all s ps (t\<lparr>tp_initial_max_stream_data_bidi_local := v\<rparr>)"
  "v \<le> VINT_MAX \<Longrightarrow> tp_initial_max_stream_data_bidi_remote t = 0 \<Longrightarrow>
     decode_all s ((0x0006, if v \<noteq> 0 then Some (varint_bytes v) else None) # ps) t = decode_all s ps (t\<lparr>tp_initial_max_stream_data_bidi_remote := v\<rparr>)"
  "v \<le> VINT_MAX \<Longrightarrow> tp_initial_max_stream_data_uni t = 0 \<Longrightarrow>
     decode_all s ((0x0007, if v \<noteq> 0 then Some (varint_bytes v) else None) # ps) t = decode_all s ps (t\<lparr>tp_initial_max_stream_data_uni := v\<rparr>)"
  "v \<le> VINT_MAX \<Longrightarrow> v \<le> MAX_STREAMS_PER_TYPE \<Longrightarrow> tp_initial_max_streams_bidi t = 0 \<Longrightarrow>
     decode_all s ((0x0008, if v \<noteq> 0 then Some (varint_bytes v) else None) # ps) t = decode_all s ps (t\<lparr>tp_initial_max_streams_bidi := v\<rparr>)"
  "v \<le> VINT_MAX \<Longrightarrow> v \<le> MAX_STREAMS_PER_TYPE \<Longrightarrow> tp_initial_max_streams_uni t = 0 \<Longrightarrow>
     decode_all s ((0x0009, if v \<noteq> 0 then Some (varint_bytes v) else None) # ps) t = decode_all s ps (t\<lparr>tp_initial_max_streams_uni := v\<rparr>)"
  by (cases t; auto simp: decode_param_def varint_param_def read_whole)+

lemma dec_checked:
  "v \<le> VINT_MAX \<Longrightarrow> 1200 \<le> v \<Longrightarrow>
     decode_all s ((0x0003, if v \<noteq> 0 then Some (varint_bytes v) else None) # ps) t = decode_all s ps (t\<lparr>tp_max_udp_payload_size := v\<rparr>)"
  "v \<le> VINT_MAX \<Longrightarrow> v \<le> 20 \<Longrightarrow> tp_ack_delay_exponent t = 3 \<Longrightarrow>
     decode_all s ((0x000a, if v \<noteq> 0 then Some (varint_bytes v) else None) # ps) t
     = decode_all s ps (t\<lparr>tp_ack_delay_exponent := if v = 0 then 3 else v\<rparr>)"
  "v \<le> VINT_MAX \<Longrightarrow> v < 2 ^ 14 \<Longrightarrow> tp_max_ack_delay t = 25 \<Longrightarrow>
     decode_all s ((0x000b, if v \<noteq> 0 then Some (varint_bytes v) else None) # ps) t
     = decode_all s ps (t\<lparr>tp_max_ack_delay := if v = 0 then 25 else v\<rparr>)"
  "v \<le> VINT_MAX \<Longrightarrow> 2 \<le> v \<Longrightarrow>
     decode_all s ((0x000e, Some (varint_bytes v)) # ps) t = decode_all s ps (t\<lparr>tp_active_conn_id_limit := v\<rparr>)"
  by (cases t; simp add: decode_param_def varint_param_def read_whole)+

lemma dec_flags:
  "\<not> tp_disable_active_migration t \<Longrightarrow>
     decode_all s ((0x000c, if b then Some [] else None) # ps) t = decode_all s ps (t\<lparr>tp_disable_active_migration := b\<rparr>)"
  "\<not> tp_enable_multipath t \<Longrightarrow>
     decode_all s ((0x0f739bbc1b666d05, if b then Some [] else None) # ps) t = decode_all s ps (t\<lparr>tp_enable_multipath := b\<rparr>)"
  "\<not> tp_disable_encryption t \<Longrightarrow>
     decode_all s ((0xbaad, if b then Some [] else None) # ps) t = decode_all s ps (t\<lparr>tp_disable_encryption := b\<rparr>)"
  by (cases t; simp add: decode_param_def)+

lemma cid_new_short: "length cid \<le> MAX_CID_LEN \<Longrightarrow> cid_new cid = cid"
  by (simp add: cid_new_def)

lemma dec_cids:
  "(\<And>cid. c = Some cid \<Longrightarrow> length cid \<le> MAX_CID_LEN) \<Longrightarrow> tp_original_destination_connection_id t = None \<Longrightarrow>
     decode_all (\<not> is_server) ((0x0000, if is_server then c else None) # ps) t
     = decode_all (\<not> is_server) ps (t\<lparr>tp_original_destination_connection_id := if is_server then c else None\<rparr>)"
  "(\<And>cid. c = Some cid \<Longrightarrow> length cid \<le> MAX_CID_LEN) \<Longrightarrow> tp_initial_source_connection_id t = None \<Longrightarrow>
     decode_all s ((0x000f, c) # ps) t = decode_all s ps (t\<lparr>tp_initial_source_connection_id := c\<rparr>)"
  "(\<And>cid. c = Some cid \<Longrightarrow> length cid \<le> MAX_CID_LEN) \<Longrightarrow> tp_retry_source_connection_id t = None \<Longrightarrow>
     decode_all (\<not> is_server) ((0x0010, if is_server then c else None) # ps) t
     = decode_all (\<not> is_server) ps (t\<lparr>tp_retry_source_connection_id := if is_server then c else None\<rparr>)"
  by (cases t; cases c; cases is_server; simp add: decode_param_def server_param_def cid_new_short)+

lemma dec_token:
  "(\<And>x. c = Some x \<Longrightarrow> x < 256 ^ 16) \<Longrightarrow> tp_stateless_reset_token t = None \<Longrightarrow>
     decode_all (\<not> is_server) ((0x0002, if is_server then map_option (be_bytes 16) c else None) # ps) t
     = decode_all (\<not> is_server) ps (t\<lparr>tp_stateless_reset_token := if is_server then c else None\<rparr>)"
  by (cases t; cases c; cases is_server; simp add: decode_param_def server_param_def read_bytes_def
      take_bytes_eq be_nat_be_bytes)

lemma dec_pa:
  "(\<And>pa. p = Some pa \<Longrightarrow> pa_ok pa) \<Longrightarrow> (\<And>pa. p = Some pa \<Longrightarrow> is_server) \<Longrightarrow> tp_preferred_address t = None \<Longrightarrow>
     decode_all (\<not> is_server) ((0x000d, map_option pa_bytes p) # ps) t
     = decode_all (\<not> is_server) ps (t\<lparr>tp_preferred_address := p\<rparr>)"
  by (cases t; cases p; simp add: decode_param_def server_param_def pa_roundtrip)

lemma decode_table:
  assumes "tp_ok is_server tp"
  shows "decode_all (\<not> is_server) (tp_table tp is_server) tp_default = Inr (tp_heard is_server tp)"
proof -
  note o = tp_ok_options [OF assms] and b = tp_ok_bounds [OF assms]
  have c: "tp_initial_max_streams_bidi tp \<le> MAX_STREAMS_PER_TYPE" "tp_initial_max_streams_uni tp \<le> MAX_STREAMS_PER_TYPE"
    "1200 \<le> tp_max_udp_payload_size tp" "tp_ack_delay_exponent tp \<le> 20" "tp_max_ack_delay tp < 2 ^ 14" "2 \<le> tp_active_conn_id_limit tp"
    using assms unfolding tp_ok_def by blast+
  show ?thesis
    unfolding tp_table_def tp_default_def
    by (simp only: dec_cids dec_zero_default dec_token dec_checked dec_flags dec_pa o b c transport_params.simps
        decode_all.simps(1) not_False_eq_True if_True)
      (simp add: tp_heard_def tp_sent_def)
qed

subsection \<open>Properties\<close>

lemma transport_params_exchange:
  assumes "tp_ok is_server tp"
  shows "\<exists>bs. tp_decode bs (\<not> is_server) = Inr (tp_heard is_server tp, length bs)
    \<and> (\<forall>room. tp_encode tp is_server room =
          (if room < length bs then Inl (Err BufferTooShort) else Inr (bs, length bs)))"
proof (intro exI conjI allI)
  let ?bs = "concat (map opt_bytes (tp_table tp is_server))"
  have "decode_loop (\<not> is_server) [] tp_default ?bs = Inr (tp_heard is_server tp)"
    using tp_table_wf [OF assms] decode_table [OF assms]
    by (subst decode_loop_all) (simp_all add: ent_ok_def)
  then show "tp_decode ?bs (\<not> is_server) = Inr (tp_heard is_server tp, length ?bs)" by (simp add: tp_decode_def)
  show "tp_encode tp is_server room =
      (if room < length ?bs then Inl (Err BufferTooShort) else Inr (?bs, length ?bs))" for room
    unfolding tp_encode_def tp_writes_emit [OF assms] by (simp add: emit_def wb_new_def)
qed

text \<open>
  C12. The transport parameters survive the handshake.  When one endpoint encodes parameters with
  admissible values and nonzero acknowledgment delays into a buffer with room for them, the other
  endpoint decodes exactly the parameters that were sent, and both agree on the number of bytes;
  with less room the encoder fails with \<open>BufferTooShort\<close>.
\<close>

theorem transport_params_roundtrip:
  assumes "tp_ok is_server tp" "0 < tp_ack_delay_exponent tp" "0 < tp_max_ack_delay tp"
  shows "\<exists>bs. tp_decode bs (\<not> is_server) = Inr (tp_sent is_server tp, length bs)
    \<and> (\<forall>room. tp_encode tp is_server room =
          (if room < length bs then Inl (Err BufferTooShort) else Inr (bs, length bs)))"
proof -
  have "tp_heard is_server tp = tp_sent is_server tp" using assms(2,3) by (simp add: tp_heard_def tp_sent_def)
  with transport_params_exchange [OF assms(1)] show ?thesis by simp
qed

theorem transport_params_roundtrip_witness:
  "\<exists>bs. tp_decode bs False = Inr (tp_default\<lparr>tp_initial_max_data := 70000, tp_stateless_reset_token := Some 5\<rparr>, length bs)"
proof -
  have "tp_ok True (tp_default\<lparr>tp_initial_max_data := 70000, tp_stateless_reset_token := Some 5\<rparr>)"
    by (simp add: tp_ok_def tp_default_def cid_opt_ok_def VINT_MAX_def MAX_STREAMS_PER_TYPE_def)
  from transport_params_roundtrip [OF this] show ?thesis by (auto simp: tp_sent_def tp_default_def)
qed

subsection \<open>Parameters that are refused\<close>

text \<open>The sequence of identifiers and values that a buffer holds, when it is one.\<close>

function raw_params :: "byte list \<Rightarrow> (u64 \<times> byte list) list option" where
  "raw_params buf =
     (if buf = [] then Some []
      else case read_varint buf of
        Inl e \<Rightarrow> None
      | Inr (i, b1) \<Rightarrow>
          (case read_with_varint_length b1 of
             Inl e \<Rightarrow> None
           | Inr (val, b2) \<Rightarrow> map_option ((#) (i, val)) (raw_params b2)))"
  by pat_completeness auto
termination
  by (relation "measure length") (auto simp: read_param_shorter)

declare raw_params.simps [simp del]

text \<open>
  What RFC 9000 forbids: a parameter of a server sent to a server, and values that are too small or too
  large.
\<close>

definition forbidden :: "bool \<Rightarrow> u64 \<times> byte list \<Rightarrow> bool" where
  "forbidden is_server p \<longleftrightarrow>
     (is_server \<and> fst p \<in> {0x0000, 0x0002, 0x000d, 0x0010})
     \<or> (\<exists>n r. read_varint (snd p) = Inr (n, r)
          \<and> (fst p = 0x0003 \<and> n < 1200 \<or> fst p \<in> {0x0008, 0x0009} \<and> n > MAX_STREAMS_PER_TYPE
             \<or> fst p = 0x000a \<and> n > 20 \<or> fst p = 0x000b \<and> n \<ge> 2 ^ 14 \<or> fst p = 0x000e \<and> n < 2))"

text \<open>The loop on the sequence.\<close>

fun decode_seq :: "bool \<Rightarrow> u64 list \<Rightarrow> (u64 \<times> byte list) list \<Rightarrow> transport_params \<Rightarrow> transport_params result" where
  "decode_seq s found [] t = Inr t"
| "decode_seq s found ((i, v) # ps) t =
     (if i \<in> set found then Inl (Err TransportParameterError)
      else rbind (decode_param s i v t) (decode_seq s (i # found) ps))"

lemma decode_loop_seq: "raw_params buf = Some ps \<Longrightarrow> decode_loop s found t buf = decode_seq s found ps t"
proof (induction buf arbitrary: ps found t rule: raw_params.induct)
  case (1 buf)
  show ?case
  proof (cases "buf = []")
    case True
    with "1.prems" show ?thesis by (subst (asm) raw_params.simps, subst decode_loop.simps) auto
  next
    case False
    from "1.prems" False obtain i b1 v b2 qs
      where r: "read_varint buf = Inr (i, b1)" "read_with_varint_length b1 = Inr (v, b2)"
        "raw_params b2 = Some qs" "ps = (i, v) # qs"
      by (subst (asm) raw_params.simps) (auto split: sum.splits prod.splits)
    have "decode_loop s (i # found) t' b2 = decode_seq s (i # found) qs t'" for t'
      using "1.IH" [OF False r(1) refl r(2) refl r(3)] .
    then show ?thesis using False r by (subst decode_loop.simps) (simp add: rbind_def split: sum.split)
  qed
qed

lemma forbidden_refused: "forbidden s (i, v) \<Longrightarrow> decode_param s i v t = Inl (Err TransportParameterError)"
  by (auto simp: forbidden_def decode_param_def server_param_def varint_param_def)

lemma read_no_panic: "read_varint b \<noteq> Inl Panic" "read_with_varint_length b \<noteq> Inl Panic" "read_bytes n b \<noteq> Inl Panic"
    "read_with_u8_length b \<noteq> Inl Panic" "read_u16 b \<noteq> Inl Panic"
proof -
  have p: "p b \<noteq> Inl Panic" if "well_behaved p" for p :: "'a reader" and b
    using that unfolding well_behaved_def by (auto simp: decode_errs_def dest!: spec [of _ b])
  show "read_varint b \<noteq> Inl Panic" "read_with_varint_length b \<noteq> Inl Panic" "read_bytes n b \<noteq> Inl Panic"
    "read_with_u8_length b \<noteq> Inl Panic"
    by (rule p, intro wb_read_varint wb_combinators wb_take)+
  show "read_u16 b \<noteq> Inl Panic" by (simp add: read_u16_def take_bytes_eq)
qed

lemma rbind_no_panic: "p \<noteq> Inl Panic \<Longrightarrow> (\<And>x. p = Inr x \<Longrightarrow> f x \<noteq> Inl Panic) \<Longrightarrow> rbind p f \<noteq> Inl Panic"
  by (cases p) auto

lemma rbind_pair_no_panic:
  "p \<noteq> Inl Panic \<Longrightarrow> (\<And>x b. p = Inr (x, b) \<Longrightarrow> f x b \<noteq> Inl Panic) \<Longrightarrow> rbind p (\<lambda>(x, b). f x b) \<noteq> Inl Panic"
  by (cases p) auto

lemma pa_no_panic: "pa_from_bytes v \<noteq> Inl Panic"
proof -
  have t: "read_bytes 16 b = Inr (token, b') \<Longrightarrow> reset_token_new token \<noteq> Inl Panic" for b token b'
    by (auto simp: read_bytes_def take_bytes_eq reset_token_new_def split: if_splits)
  have u: "read_u8 b \<noteq> Inl Panic" for b by (simp add: read_u8_def split: list.split)
  have a: "read_ipv4_addr b \<noteq> Inl Panic" "read_ipv6_addr b \<noteq> Inl Panic" for b
    by (simp_all add: read_ipv4_addr_def read_ipv6_addr_def take_bytes_eq)
  show ?thesis
    unfolding pa_from_bytes_def
    by (intro rbind_pair_no_panic a read_no_panic u, rule rbind_no_panic, erule t, simp)
qed

lemma decode_param_no_panic: "decode_param s i v t \<noteq> Inl Panic"
proof -
  have vp: "varint_param ok f v \<noteq> Inl Panic" for ok f
    unfolding varint_param_def by (rule rbind_pair_no_panic [OF read_no_panic(1)]) simp
  have sp: "server_param s r \<noteq> Inl Panic" if "r \<noteq> Inl Panic" for r using that by (simp add: server_param_def)
  have "rbind (read_bytes 16 v) (\<lambda>(t', _). Inr (t\<lparr>tp_stateless_reset_token := Some (be_nat t')\<rparr>)) \<noteq> Inl Panic"
    by (rule rbind_pair_no_panic) (simp_all add: read_no_panic)
  moreover have "rbind (pa_from_bytes v) (\<lambda>(pa, _). Inr (t\<lparr>tp_preferred_address := Some pa\<rparr>)) \<noteq> Inl Panic"
    by (rule rbind_pair_no_panic) (simp_all add: pa_no_panic)
  ultimately show ?thesis by (simp add: decode_param_def vp sp)
qed

lemma decode_seq_no_panic: "decode_seq s found ps t \<noteq> Inl Panic"
proof (induction s found ps t rule: decode_seq.induct)
  case (2 s found i v ps t)
  have "rbind (decode_param s i v t) (decode_seq s (i # found) ps) \<noteq> Inl Panic" if "i \<notin> set found"
    using "2.IH" [OF that] by (intro rbind_no_panic decode_param_no_panic)
  then show ?case by simp
qed simp

lemma decode_seq_accepts:
  "decode_seq s found ps t = Inr t' \<Longrightarrow>
     distinct (map fst ps) \<and> set (map fst ps) \<inter> set found = {} \<and> (\<forall>p \<in> set ps. \<not> forbidden s p)"
proof (induction s found ps t rule: decode_seq.induct)
  case (2 s found i v ps t)
  then obtain t1 where "i \<notin> set found" "decode_param s i v t = Inr t1" "decode_seq s (i # found) ps t1 = Inr t'"
    by (auto simp: rbind_Inr_iff split: if_splits)
  with "2.IH" [of t1] forbidden_refused [of s i v t] show ?case by auto
qed simp

lemma decode_seq_first:
  assumes "decode_all s (map (\<lambda>(i, v). (i, Some v)) qs) t = Inr t'" "distinct (map fst qs)" "set (map fst qs) \<inter> set found = {}"
    and "fst p \<in> set found \<union> fst ` set qs \<or> forbidden s p"
  shows "decode_seq s found (qs @ p # rs) t = Inl (Err TransportParameterError)"
  using assms
proof (induction qs arbitrary: found t)
  case Nil
  then show ?case using forbidden_refused by (cases p) auto
next
  case (Cons q qs)
  obtain i v where q: "q = (i, v)" by (cases q)
  obtain t1 where t1: "decode_param s i v t = Inr t1" "decode_all s (map (\<lambda>(i, v). (i, Some v)) qs) t1 = Inr t'"
    using Cons.prems(1) q by (auto simp: rbind_Inr_iff)
  have "decode_seq s (i # found) (qs @ p # rs) t1 = Inl (Err TransportParameterError)"
    by (rule Cons.IH [OF t1(2)]) (use Cons.prems(2-4) q in auto)
  then show ?case using Cons.prems(3) q t1(1) by simp
qed

text \<open>
  C23. When a buffer holds a sequence of parameters of which two have the same identifier, or of which one has
  a forbidden value or is a parameter of a server sent to a server, decoding it fails without
  a panic.  The error is a transport parameter error whenever all parameters before the first
  offending one are accepted.
\<close>

theorem transport_params_refused:
  assumes "raw_params buf = Some ps" and "\<not> distinct (map fst ps) \<or> (\<exists>p \<in> set ps. forbidden is_server p)"
  shows "\<exists>e. tp_decode buf is_server = Inl (Err e)
    \<and> (\<forall>qs p rs t. ps = qs @ p # rs \<and> decode_all is_server (map (\<lambda>(i, v). (i, Some v)) qs) tp_default = Inr t
          \<and> distinct (map fst qs) \<and> (fst p \<in> fst ` set qs \<or> forbidden is_server p)
        \<longrightarrow> e = TransportParameterError)"
proof -
  have d: "tp_decode buf is_server = rbind (decode_seq is_server [] ps tp_default) (\<lambda>tp. Inr (tp, length buf))"
    by (simp add: tp_decode_def decode_loop_seq [OF assms(1)])
  have "decode_seq is_server [] ps tp_default \<noteq> Inr t" for t using decode_seq_accepts [of is_server "[]" ps tp_default t] assms(2) by auto
  then obtain x where x: "decode_seq is_server [] ps tp_default = Inl x" by (cases "decode_seq is_server [] ps tp_default") auto
  then obtain e where e: "x = Err e" using decode_seq_no_panic [of is_server "[]" ps tp_default] by (cases x) auto
  have "e = TransportParameterError"
    if "ps = qs @ p # rs" "decode_all is_server (map (\<lambda>(i, v). (i, Some v)) qs) tp_default = Inr t" "distinct (map fst qs)"
      "fst p \<in> fst ` set qs \<or> forbidden is_server p" for qs p rs t
    using decode_seq_first [OF that(2,3), of "[]" p rs] that(1,4) x e by auto
  then show ?thesis using d x e by (intro exI [of _ e]) auto
qed

theorem transport_params_refused_witness:
  "\<exists>e. tp_decode [4, 1, 7, 4, 1, 9] False = Inl (Err e) \<and> e = TransportParameterError"
proof -
  have r: "read_varint (x # b) = Inr (unat x, b)" if "drop_bit 6 x = 0" for x :: byte and b
    using that by (simp add: read_varint_def decode_varint_len_def read_u8_def)
  have l: "read_with_varint_length (1 # x # b) = Inr ([x], b)" for x :: byte and b
    by (simp add: read_with_varint_length_def r read_bytes_def take_bytes_eq)
  have ps: "raw_params [4, 1, 7, 4, 1, 9] = Some [(4, [7]), (4, [9])]"
    by (simp add: raw_params.simps r l)
  have "decode_all False (map (\<lambda>(i, v). (i, Some v)) [(4, [7])]) tp_default = Inr (tp_default\<lparr>tp_initial_max_data := 7\<rparr>)"
    by (simp add: decode_param_def varint_param_def r)
  moreover have "\<not> distinct (map fst [(4 :: nat, [7 :: byte]), (4, [9])])" by simp
  ultimately show ?thesis using transport_params_refused [OF ps, of False]
    by (auto dest!: spec [of _ "[(4, [7])]"] spec [of _ "(4, [9])"])
qed

text \<open>
  An acknowledgment delay exponent of zero and a maximum acknowledgment delay of zero are
  lost: they are not encoded, and the peer goes on with the defaults 3 and 25 milliseconds.
\<close>

theorem zero_ack_delay_lost:
  assumes "tp_ok is_server tp" "tp_ack_delay_exponent tp = 0" "tp_max_ack_delay tp = 0"
  shows "\<exists>bs. tp_encode tp is_server (length bs) = Inr (bs, length bs)
    \<and> tp_decode bs (\<not> is_server)
      = Inr ((tp_sent is_server tp)\<lparr>tp_ack_delay_exponent := 3, tp_max_ack_delay := 25\<rparr>, length bs)"
proof -
  have "tp_heard is_server tp = (tp_sent is_server tp)\<lparr>tp_ack_delay_exponent := 3, tp_max_ack_delay := 25\<rparr>"
    using assms(2,3) by (simp add: tp_heard_def)
  with transport_params_exchange [OF assms(1)] show ?thesis by auto
qed

theorem zero_ack_delay_lost_witness:
  "\<exists>bs. tp_encode (tp_default\<lparr>tp_ack_delay_exponent := 0, tp_max_ack_delay := 0\<rparr>) False (length bs) = Inr (bs, length bs)
    \<and> tp_decode bs True = Inr (tp_default, length bs)"
proof -
  let ?t = "tp_default\<lparr>tp_ack_delay_exponent := 0, tp_max_ack_delay := 0\<rparr>"
  have "tp_ok False ?t"
    by (simp add: tp_ok_def tp_default_def cid_opt_ok_def VINT_MAX_def MAX_STREAMS_PER_TYPE_def)
  from zero_ack_delay_lost [OF this] show ?thesis by (simp add: tp_sent_def tp_default_def)
qed

end
