(* ===== verification/Rtt.thy ===== *)
theory Rtt
  imports Prelude
begin

text \<open>
  \<open>src/connection/rtt.rs\<close>: the estimator of the round-trip time of a path.  A \<open>Duration\<close> is its
  number of nanoseconds; dividing it rounds down.  The sums stay far below the largest
  \<open>Duration\<close>, so they are plain additions.
\<close>

definition TIMER_GRANULARITY :: nat where
  "TIMER_GRANULARITY = 1000000"

record rtt_estimator =
  re_latest_rtt :: nat
  re_smoothed_rtt :: "nat option"
  re_rttvar :: nat
  re_min_rtt :: nat
  re_max_rtt :: nat

definition rtt_new :: "nat \<Rightarrow> rtt_estimator" where
  "rtt_new initial_rtt =
     \<lparr>re_latest_rtt = initial_rtt, re_smoothed_rtt = None, re_rttvar = initial_rtt div 2,
      re_min_rtt = initial_rtt, re_max_rtt = initial_rtt\<rparr>"

definition smoothed_rtt :: "rtt_estimator \<Rightarrow> nat" where
  "smoothed_rtt r = (case re_smoothed_rtt r of None \<Rightarrow> re_latest_rtt r | Some s \<Rightarrow> s)"

definition pto_base :: "rtt_estimator \<Rightarrow> nat" where
  "pto_base r = smoothed_rtt r + max (4 * re_rttvar r) TIMER_GRANULARITY"

definition try_set_init_rtt :: "nat \<Rightarrow> rtt_estimator \<Rightarrow> rtt_estimator" where
  "try_set_init_rtt init_rtt r =
     (if re_smoothed_rtt r \<noteq> None then r
      else r\<lparr>re_latest_rtt := init_rtt, re_smoothed_rtt := None, re_rttvar := init_rtt div 2,
             re_min_rtt := init_rtt, re_max_rtt := init_rtt\<rparr>)"

definition rtt_update :: "nat \<Rightarrow> nat \<Rightarrow> rtt_estimator \<Rightarrow> rtt_estimator" where
  "rtt_update ack_delay rtt r =
     (let r = r\<lparr>re_latest_rtt := rtt, re_min_rtt := min (re_min_rtt r) rtt,
                re_max_rtt := max (re_max_rtt r) rtt\<rparr>
      in case re_smoothed_rtt r of
           Some s \<Rightarrow>
             let adjusted_rtt = (if re_min_rtt r + ack_delay \<le> re_latest_rtt r
                                 then re_latest_rtt r - ack_delay else re_latest_rtt r);
                 var_sample = (if s > adjusted_rtt then s - adjusted_rtt else adjusted_rtt - s)
             in r\<lparr>re_rttvar := (3 * re_rttvar r + var_sample) div 4,
                  re_smoothed_rtt := Some ((7 * s + adjusted_rtt) div 8)\<rparr>
         | None \<Rightarrow>
             r\<lparr>re_smoothed_rtt := Some (re_latest_rtt r), re_rttvar := re_latest_rtt r div 2,
               re_min_rtt := re_latest_rtt r, re_max_rtt := re_latest_rtt r\<rparr>)"

datatype rtt_op = SetInitRtt nat | UpdateRtt nat nat

fun rtt_step :: "rtt_estimator \<Rightarrow> rtt_op \<Rightarrow> rtt_estimator" where
  "rtt_step r (SetInitRtt t) = try_set_init_rtt t r"
| "rtt_step r (UpdateRtt ack_delay rtt) = rtt_update ack_delay rtt r"

subsection \<open>Bounds\<close>

text \<open>The samples of a sequence of operations.\<close>

fun rtt_sample :: "rtt_op \<Rightarrow> nat option" where
  "rtt_sample (SetInitRtt t) = None"
| "rtt_sample (UpdateRtt ack_delay rtt) = Some rtt"

definition rtt_samples :: "rtt_op list \<Rightarrow> nat set" where
  "rtt_samples ops = {rtt. \<exists>ack_delay. UpdateRtt ack_delay rtt \<in> set ops}"

lemma rtt_samples_snoc [simp]:
  "rtt_samples [] = {}" "rtt_samples (ops @ [SetInitRtt t]) = rtt_samples ops"
  "rtt_samples (ops @ [UpdateRtt d rtt]) = insert rtt (rtt_samples ops)"
  by (auto simp: rtt_samples_def)

lemma rtt_samples_finite [simp]: "finite (rtt_samples ops)"
proof -
  have "rtt_samples ops \<subseteq> the ` rtt_sample ` set ops" by (force simp: rtt_samples_def image_iff)
  then show ?thesis by (rule finite_subset) simp
qed

text \<open>
  The estimator follows its samples: without one nothing is smoothed, and with samples the two extremes
  are theirs.
\<close>

definition rtt_inv :: "nat set \<Rightarrow> rtt_estimator \<Rightarrow> bool" where
  "rtt_inv S r \<longleftrightarrow>
     (if S = {} then re_smoothed_rtt r = None
      else re_min_rtt r = Min S \<and> re_max_rtt r = Max S \<and> re_latest_rtt r \<in> S \<and> re_rttvar r \<le> Max S
        \<and> (\<exists>s. re_smoothed_rtt r = Some s \<and> Min S \<le> s \<and> s \<le> Max S))"

lemma weighted_between:
  assumes "(l::nat) \<le> s" "s \<le> h" "l \<le> a" "a \<le> h"
  shows "l \<le> (7 * s + a) div 8 \<and> (7 * s + a) div 8 \<le> h"
  using assms by linarith

lemma rtt_update_inv:
  assumes "rtt_inv S r" "finite S"
  shows "rtt_inv (insert rtt S) (rtt_update ack_delay rtt r)"
proof (cases "S = {}")
  case True
  then show ?thesis using assms(1) by (simp add: rtt_update_def Let_def rtt_inv_def)
next
  case False
  then obtain s where i: "re_min_rtt r = Min S" "re_max_rtt r = Max S" "re_rttvar r \<le> Max S"
      "re_smoothed_rtt r = Some s" "Min S \<le> s" "s \<le> Max S"
    using assms(1) by (auto simp: rtt_inv_def)
  define lo where "lo = min (Min S) rtt"
  define hi where "hi = max (Max S) rtt"
  define a where "a = (if lo + ack_delay \<le> rtt then rtt - ack_delay else rtt)"
  define v where "v = (if s > a then s - a else a - s)"
  have ext: "Min (insert rtt S) = lo" "Max (insert rtt S) = hi"
    using False assms(2) by (simp_all add: lo_def hi_def min.commute max.commute)
  have s: "lo \<le> s" "s \<le> hi" and var: "re_rttvar r \<le> hi" using i by (auto simp: lo_def hi_def)
  have "lo \<le> rtt" "rtt \<le> hi" by (simp_all add: lo_def hi_def)
  then have a: "lo \<le> a" "a \<le> hi" by (auto simp: a_def)
  have "v \<le> hi" using s a by (auto simp: v_def)
  with var have "(3 * re_rttvar r + v) div 4 \<le> hi" by linarith
  moreover note weighted_between [OF s a]
  moreover have "rtt_update ack_delay rtt r =
      r\<lparr>re_latest_rtt := rtt, re_min_rtt := lo, re_max_rtt := hi, re_rttvar := (3 * re_rttvar r + v) div 4,
        re_smoothed_rtt := Some ((7 * s + a) div 8)\<rparr>"
    using i by (simp add: rtt_update_def Let_def lo_def hi_def a_def v_def)
  ultimately show ?thesis unfolding rtt_inv_def ext by simp
qed

lemma rtt_run_inv: "rtt_inv (rtt_samples ops) (foldl rtt_step (rtt_new initial_rtt) ops)"
proof (induction ops rule: rev_induct)
  case Nil
  then show ?case by (simp add: rtt_inv_def rtt_new_def)
next
  case (snoc op ops)
  show ?case
  proof (cases op)
    case (SetInitRtt t)
    with snoc show ?thesis by (auto simp: rtt_inv_def try_set_init_rtt_def split: if_splits)
  next
    case (UpdateRtt d rtt)
    with rtt_update_inv [OF snoc rtt_samples_finite] show ?thesis by simp
  qed
qed

text \<open>
  C19. Whatever samples and acknowledgment delays a path reports, from the first sample on the estimates
  stay between the samples: the minimum and the maximum kept are the smallest and the largest
  sample, whatever the initial value was; the smoothed round-trip time lies between them, the
  variation does not exceed the largest sample, and so the base of the probe timeout is at least
  the smallest sample plus the timer granularity and at most five times the largest one plus that granularity.
\<close>

theorem rtt_estimates_bounded:
  assumes "rtt_samples ops \<noteq> {}" and "r = foldl rtt_step (rtt_new initial_rtt) ops"
  shows "re_min_rtt r = Min (rtt_samples ops) \<and> re_max_rtt r = Max (rtt_samples ops)
    \<and> Min (rtt_samples ops) \<le> smoothed_rtt r \<and> smoothed_rtt r \<le> Max (rtt_samples ops)
    \<and> re_rttvar r \<le> Max (rtt_samples ops)
    \<and> Min (rtt_samples ops) + TIMER_GRANULARITY \<le> pto_base r
    \<and> pto_base r \<le> 5 * Max (rtt_samples ops) + TIMER_GRANULARITY"
proof -
  have "rtt_inv (rtt_samples ops) r" unfolding assms(2) by (rule rtt_run_inv)
  then have "re_min_rtt r = Min (rtt_samples ops) \<and> re_max_rtt r = Max (rtt_samples ops)
    \<and> Min (rtt_samples ops) \<le> smoothed_rtt r \<and> smoothed_rtt r \<le> Max (rtt_samples ops) \<and> re_rttvar r \<le> Max (rtt_samples ops)"
    using assms(1) by (auto simp: rtt_inv_def smoothed_rtt_def)
  then show ?thesis by (auto simp: pto_base_def max_def)
qed

theorem rtt_estimates_bounded_witness:
  "(\<lambda>r. 40 \<le> smoothed_rtt r \<and> smoothed_rtt r \<le> 100 \<and> re_max_rtt r = 100)
     (foldl rtt_step (rtt_new 333) [SetInitRtt 500, UpdateRtt 0 100, UpdateRtt 5 40])"
proof -
  have s: "rtt_samples [SetInitRtt 500, UpdateRtt 0 100, UpdateRtt 5 40] = {40, 100}" by (auto simp: rtt_samples_def)
  then have "rtt_samples [SetInitRtt 500, UpdateRtt 0 100, UpdateRtt 5 40] \<noteq> {}" by simp
  from rtt_estimates_bounded [OF this refl, of 333] s show ?thesis by simp
qed

end
