(* ===== verification/Pmtu.thy ===== *)
theory Pmtu
  imports Prelude
begin

text \<open>
  \<open>src/connection/pmtu.rs\<close>: path MTU discovery by probing.  A probe count (\<open>u8\<close>) never exceeds 3
  and is a natural number.  \<open>check_finish\<close> compares a quotient of two sizes, as floating-point
  numbers, with \<open>0.99\<close>; for sizes of datagrams the distance of such a quotient from \<open>0.99\<close> is far
  above the rounding error unless it is equal to it, and rounding is monotone, so the comparison is
  the comparison of the exact values.
\<close>

definition DEFAULT_SEND_UDP_PAYLOAD_SIZE :: usize where
  "DEFAULT_SEND_UDP_PAYLOAD_SIZE = 1200"

definition MAX_PACKET_SIZE_IPV4 :: usize where
  "MAX_PACKET_SIZE_IPV4 = 1472"

definition MAX_PACKET_SIZE_IPV6 :: usize where
  "MAX_PACKET_SIZE_IPV6 = 1452"

definition MAX_PROBE_COUNT :: nat where
  "MAX_PROBE_COUNT = 3"

record dplpmtud =
  pm_should_probe :: bool
  pm_current_size :: usize
  pm_probe_size :: "usize option"
  pm_probe_count :: nat
  pm_failed_size :: usize
  pm_max_pmtu :: usize
  pm_is_ipv6 :: bool

definition pmtu_new :: "bool \<Rightarrow> usize \<Rightarrow> bool \<Rightarrow> dplpmtud" where
  "pmtu_new enable max_pmtu is_ipv6 =
     \<lparr>pm_should_probe = enable, pm_current_size = DEFAULT_SEND_UDP_PAYLOAD_SIZE, pm_probe_size = None,
      pm_probe_count = 0, pm_failed_size = 0,
      pm_max_pmtu = (if max_pmtu = DEFAULT_SEND_UDP_PAYLOAD_SIZE
                     then if is_ipv6 then MAX_PACKET_SIZE_IPV6 else MAX_PACKET_SIZE_IPV4
                     else max_pmtu),
      pm_is_ipv6 = is_ipv6\<rparr>"

definition cal_mtu_ceiling :: "usize \<Rightarrow> dplpmtud \<Rightarrow> usize" where
  "cal_mtu_ceiling peer_max_udp_payload d =
     (let mtu_ceiling = (if pm_failed_size d > 0 then pm_failed_size d else pm_max_pmtu d)
      in if mtu_ceiling > peer_max_udp_payload then peer_max_udp_payload else mtu_ceiling)"

definition cal_probe_size :: "usize \<Rightarrow> dplpmtud \<Rightarrow> usize" where
  "cal_probe_size peer_max_udp_payload d =
     (let mtu_ceiling = cal_mtu_ceiling peer_max_udp_payload d
      in if pm_failed_size d = 0 \<and> mtu_ceiling < 1500 then mtu_ceiling
         else (pm_current_size d + mtu_ceiling) div 2)"

definition check_finish :: "usize \<Rightarrow> dplpmtud \<Rightarrow> bool" where
  "check_finish peer_max_udp_payload d =
     (let mtu_ceiling = cal_mtu_ceiling peer_max_udp_payload d
      in pm_current_size d \<ge> mtu_ceiling \<or> 100 * pm_current_size d \<ge> 99 * mtu_ceiling)"

definition get_probe_size :: "usize \<Rightarrow> dplpmtud \<Rightarrow> dplpmtud \<times> usize" where
  "get_probe_size peer_max_udp_payload d =
     (case pm_probe_size d of
        Some probe_size \<Rightarrow> (d, probe_size)
      | None \<Rightarrow>
          let probe_size = cal_probe_size peer_max_udp_payload d
          in (d\<lparr>pm_probe_size := Some probe_size\<rparr>, probe_size))"

definition on_pmtu_probe_sent :: "usize \<Rightarrow> dplpmtud \<Rightarrow> dplpmtud" where
  "on_pmtu_probe_sent pkt_size d = d\<lparr>pm_should_probe := False\<rparr>"

definition on_pmtu_probe_acked :: "usize \<Rightarrow> usize \<Rightarrow> dplpmtud \<Rightarrow> dplpmtud" where
  "on_pmtu_probe_acked pkt_size peer_max_udp_payload d =
     (let d = d\<lparr>pm_current_size := max (pm_current_size d) pkt_size, pm_probe_count := 0\<rparr>;
          d = d\<lparr>pm_probe_size := Some (cal_probe_size peer_max_udp_payload d)\<rparr>
      in d\<lparr>pm_should_probe := \<not> check_finish peer_max_udp_payload d\<rparr>)"

definition on_pmtu_probe_lost :: "usize \<Rightarrow> usize \<Rightarrow> dplpmtud \<Rightarrow> dplpmtud" where
  "on_pmtu_probe_lost pkt_size peer_max_udp_payload d =
     (if Some pkt_size \<noteq> pm_probe_size d then d
      else let d = d\<lparr>pm_probe_count := pm_probe_count d + 1\<rparr>
           in if pm_probe_count d < MAX_PROBE_COUNT then d\<lparr>pm_should_probe := True\<rparr>
              else let d = d\<lparr>pm_failed_size := pkt_size\<rparr>;
                       d = d\<lparr>pm_probe_size := Some (cal_probe_size peer_max_udp_payload d),
                             pm_probe_count := 0\<rparr>
                   in d\<lparr>pm_should_probe := \<not> check_finish peer_max_udp_payload d\<rparr>)"

text \<open>
  One round of the discovery on a path that carries datagrams of up to \<open>p\<close> bytes: the probe is
  sent, and acknowledged exactly when it fits.
\<close>

definition pmtu_round :: "usize \<Rightarrow> usize \<Rightarrow> dplpmtud \<Rightarrow> dplpmtud" where
  "pmtu_round p peer d =
     (if pm_should_probe d then
        let (d1, size) = get_probe_size peer d;
            d2 = on_pmtu_probe_sent size d1
        in if size \<le> p then on_pmtu_probe_acked size peer d2 else on_pmtu_probe_lost size peer d2
      else d)"

subsection \<open>Progress of the search\<close>

text \<open>
  The discovery probes exactly while it is not finished, the probe is the one calculated from the
  current state, the size in use was acknowledged, and a size that failed does not fit the path.
\<close>

definition pmtu_inv :: "usize \<Rightarrow> usize \<Rightarrow> usize \<Rightarrow> dplpmtud \<Rightarrow> bool" where
  "pmtu_inv p peer mx d \<longleftrightarrow>
     DEFAULT_SEND_UDP_PAYLOAD_SIZE \<le> pm_current_size d \<and> pm_current_size d \<le> max DEFAULT_SEND_UDP_PAYLOAD_SIZE p
     \<and> (pm_probe_size d = None \<or> pm_probe_size d = Some (cal_probe_size peer d))
     \<and> pm_probe_count d < MAX_PROBE_COUNT \<and> pm_max_pmtu d = mx
     \<and> (pm_failed_size d > 0 \<longrightarrow> p < pm_failed_size d)
     \<and> pm_should_probe d = (\<not> check_finish peer d)"

definition pmtu_measure :: "usize \<Rightarrow> dplpmtud \<Rightarrow> nat" where
  "pmtu_measure peer d =
     (if pm_should_probe d
      then 4 * (cal_mtu_ceiling peer d - pm_current_size d) + (if pm_failed_size d = 0 then 4 else 0)
           + (MAX_PROBE_COUNT - pm_probe_count d)
      else 0)"

lemmas pmtu_defs = cal_probe_size_def cal_mtu_ceiling_def check_finish_def Let_def

lemma pmtu_indep [simp]:
  "cal_mtu_ceiling peer (d\<lparr>pm_should_probe := b\<rparr>) = cal_mtu_ceiling peer d"
  "cal_mtu_ceiling peer (d\<lparr>pm_probe_size := ps\<rparr>) = cal_mtu_ceiling peer d"
  "cal_mtu_ceiling peer (d\<lparr>pm_probe_count := k\<rparr>) = cal_mtu_ceiling peer d"
  "cal_mtu_ceiling peer (d\<lparr>pm_current_size := c\<rparr>) = cal_mtu_ceiling peer d"
  "cal_probe_size peer (d\<lparr>pm_should_probe := b\<rparr>) = cal_probe_size peer d"
  "cal_probe_size peer (d\<lparr>pm_probe_size := ps\<rparr>) = cal_probe_size peer d"
  "cal_probe_size peer (d\<lparr>pm_probe_count := k\<rparr>) = cal_probe_size peer d"
  "check_finish peer (d\<lparr>pm_should_probe := b\<rparr>) = check_finish peer d"
  "check_finish peer (d\<lparr>pm_probe_size := ps\<rparr>) = check_finish peer d"
  "check_finish peer (d\<lparr>pm_probe_count := k\<rparr>) = check_finish peer d"
  by (simp_all add: pmtu_defs)

lemma pmtu_cong:
  assumes "pm_failed_size d = pm_failed_size d'" "pm_max_pmtu d = pm_max_pmtu d'" "pm_current_size d = pm_current_size d'"
  shows "check_finish peer d = check_finish peer d'" "cal_probe_size peer d = cal_probe_size peer d'"
  unfolding check_finish_def cal_probe_size_def cal_mtu_ceiling_def assms by (rule refl)+

lemma half_between: "(a::nat) + 2 \<le> b \<Longrightarrow> a < (a + b) div 2 \<and> (a + b) div 2 < b"
  by presburger

lemma probe_size_between:
  assumes "\<not> check_finish peer d" "DEFAULT_SEND_UDP_PAYLOAD_SIZE \<le> pm_current_size d"
  shows "pm_current_size d < cal_probe_size peer d" "cal_probe_size peer d \<le> cal_mtu_ceiling peer d"
    "pm_failed_size d > 0 \<Longrightarrow> cal_probe_size peer d < cal_mtu_ceiling peer d"
proof -
  have c: "pm_current_size d < cal_mtu_ceiling peer d" "100 * pm_current_size d < 99 * cal_mtu_ceiling peer d"
    "1200 \<le> pm_current_size d"
    using assms by (auto simp: check_finish_def Let_def DEFAULT_SEND_UDP_PAYLOAD_SIZE_def)
  then have "pm_current_size d + 2 \<le> cal_mtu_ceiling peer d" by linarith
  from half_between [OF this] show "pm_current_size d < cal_probe_size peer d" "cal_probe_size peer d \<le> cal_mtu_ceiling peer d"
    "pm_failed_size d > 0 \<Longrightarrow> cal_probe_size peer d < cal_mtu_ceiling peer d"
    using c(1) unfolding cal_probe_size_def Let_def by (auto split: if_splits)
qed

lemma probe_size_same: "pm_probe_size d = x \<Longrightarrow> d\<lparr>pm_probe_size := x\<rparr> = d"
  by (cases d) simp

text \<open>The probe in flight: \<open>d2\<close> is the state after the probe of size \<open>s\<close> was sent.\<close>

lemma pmtu_round_sent:
  assumes "pmtu_inv p peer mx d" "pm_should_probe d"
  defines "s \<equiv> cal_probe_size peer d"
  defines "d2 \<equiv> d\<lparr>pm_probe_size := Some s, pm_should_probe := False\<rparr>"
  shows "pmtu_round p peer d = (if s \<le> p then on_pmtu_probe_acked s peer d2 else on_pmtu_probe_lost s peer d2)"
proof -
  have "pm_probe_size d = None \<or> pm_probe_size d = Some s" using assms(1) by (simp add: pmtu_inv_def s_def)
  then have "get_probe_size peer d = (d\<lparr>pm_probe_size := Some s\<rparr>, s)"
  proof
    assume "pm_probe_size d = None"
    then show ?thesis by (simp add: get_probe_size_def s_def Let_def)
  next
    assume "pm_probe_size d = Some s"
    then show ?thesis by (simp add: get_probe_size_def probe_size_same)
  qed
  with assms(2) show ?thesis by (simp add: pmtu_round_def on_pmtu_probe_sent_def d2_def)
qed

lemma pmtu_acked:
  assumes "pmtu_inv p peer mx d" "pm_should_probe d"
  defines "s \<equiv> cal_probe_size peer d"
  defines "d2 \<equiv> d\<lparr>pm_probe_size := Some s, pm_should_probe := False\<rparr>"
  assumes "s \<le> p"
  shows "pmtu_inv p peer mx (on_pmtu_probe_acked s peer d2)
    \<and> pmtu_measure peer (on_pmtu_probe_acked s peer d2) < pmtu_measure peer d"
proof -
  have nf: "\<not> check_finish peer d" "DEFAULT_SEND_UDP_PAYLOAD_SIZE \<le> pm_current_size d" "pm_probe_count d < 3"
    using assms(1,2) by (simp_all add: pmtu_inv_def MAX_PROBE_COUNT_def)
  note b = probe_size_between [OF nf(1,2), folded s_def]
  define e where "e = on_pmtu_probe_acked s peer d2"
  have f: "pm_current_size e = s" "pm_probe_count e = 0" "pm_failed_size e = pm_failed_size d"
    "pm_max_pmtu e = pm_max_pmtu d" "pm_should_probe e = (\<not> check_finish peer e)"
    "pm_probe_size e = Some (cal_probe_size peer e)" "cal_mtu_ceiling peer e = cal_mtu_ceiling peer d"
    using b(1) by (simp_all add: e_def on_pmtu_probe_acked_def d2_def Let_def) (rule pmtu_cong; simp)+
  have "pmtu_inv p peer mx e"
    using assms(1,5) nf(2) b(1) f by (simp add: pmtu_inv_def MAX_PROBE_COUNT_def)
  moreover have "pmtu_measure peer e \<le> 4 * (cal_mtu_ceiling peer d - s) + (if pm_failed_size d = 0 then 4 else 0) + 3"
    by (simp add: pmtu_measure_def f(1-3,7) MAX_PROBE_COUNT_def)
  moreover have "4 * (cal_mtu_ceiling peer d - s) + 4 \<le> 4 * (cal_mtu_ceiling peer d - pm_current_size d)"
    using b(1,2) by linarith
  moreover have "pmtu_measure peer d = 4 * (cal_mtu_ceiling peer d - pm_current_size d)
      + (if pm_failed_size d = 0 then 4 else 0) + (3 - pm_probe_count d)"
    using assms(2) by (simp add: pmtu_measure_def MAX_PROBE_COUNT_def)
  ultimately show ?thesis using nf(3) unfolding e_def by linarith
qed

lemma pmtu_lost:
  assumes "pmtu_inv p peer mx d" "pm_should_probe d"
  defines "s \<equiv> cal_probe_size peer d"
  defines "d2 \<equiv> d\<lparr>pm_probe_size := Some s, pm_should_probe := False\<rparr>"
  assumes "p < s"
  shows "pmtu_inv p peer mx (on_pmtu_probe_lost s peer d2)
    \<and> pmtu_measure peer (on_pmtu_probe_lost s peer d2) < pmtu_measure peer d"
proof -
  have nf: "\<not> check_finish peer d" "DEFAULT_SEND_UDP_PAYLOAD_SIZE \<le> pm_current_size d" "pm_probe_count d < 3"
    using assms(1,2) by (simp_all add: pmtu_inv_def MAX_PROBE_COUNT_def)
  note b = probe_size_between [OF nf(1,2), folded s_def]
  let ?d = "on_pmtu_probe_lost s peer d2"
  show ?thesis
  proof (cases "pm_probe_count d + 1 < MAX_PROBE_COUNT")
    case True
    then have e: "?d = d\<lparr>pm_probe_size := Some s, pm_should_probe := True, pm_probe_count := pm_probe_count d + 1\<rparr>"
      by (simp add: on_pmtu_probe_lost_def d2_def)
    have c: "cal_probe_size peer ?d = s" "check_finish peer ?d = check_finish peer d"
      "cal_mtu_ceiling peer ?d = cal_mtu_ceiling peer d"
      unfolding e by (simp_all add: s_def)
    have "pmtu_inv p peer mx ?d"
      using assms(1) True nf(1) unfolding pmtu_inv_def c by (simp add: e)
    moreover have "pmtu_measure peer ?d < pmtu_measure peer d"
      using assms(2) True unfolding pmtu_measure_def c by (simp add: e MAX_PROBE_COUNT_def)
    ultimately show ?thesis ..
  next
    case False
    have f: "pm_current_size ?d = pm_current_size d" "pm_probe_count ?d = 0" "pm_failed_size ?d = s"
      "pm_max_pmtu ?d = pm_max_pmtu d" "pm_should_probe ?d = (\<not> check_finish peer ?d)"
      "pm_probe_size ?d = Some (cal_probe_size peer ?d)"
      using False by (simp_all add: on_pmtu_probe_lost_def d2_def Let_def) (rule pmtu_cong; simp)+
    have "cal_mtu_ceiling peer d \<le> peer" by (simp add: cal_mtu_ceiling_def Let_def)
    then have ceil: "cal_mtu_ceiling peer ?d = s"
      using b(1,2) unfolding cal_mtu_ceiling_def f(3) Let_def by simp
    have "pmtu_inv p peer mx ?d"
      using assms(1,5) f(5) unfolding pmtu_inv_def f(1-4,6) by (simp add: MAX_PROBE_COUNT_def)
    moreover have "pmtu_measure peer ?d < pmtu_measure peer d"
      using nf(3) b assms(2) unfolding pmtu_measure_def f(1-4) ceil
      by (cases "pm_failed_size d = 0") (auto simp: MAX_PROBE_COUNT_def)
    ultimately show ?thesis ..
  qed
qed

lemma pmtu_round_progress:
  assumes "pmtu_inv p peer mx d" "pm_should_probe d"
  shows "pmtu_inv p peer mx (pmtu_round p peer d) \<and> pmtu_measure peer (pmtu_round p peer d) < pmtu_measure peer d"
  using pmtu_acked [OF assms] pmtu_lost [OF assms] by (simp add: pmtu_round_sent [OF assms])

lemma pmtu_rounds_end:
  assumes "pmtu_inv p peer mx d"
  shows "\<exists>n \<le> pmtu_measure peer d. pmtu_inv p peer mx ((pmtu_round p peer ^^ n) d)
    \<and> \<not> pm_should_probe ((pmtu_round p peer ^^ n) d)"
  using assms
proof (induction "pmtu_measure peer d" arbitrary: d rule: less_induct)
  case less
  show ?case
  proof (cases "pm_should_probe d")
    case False
    with less.prems show ?thesis by (intro exI [of _ 0]) simp
  next
    case True
    let ?d = "pmtu_round p peer d"
    note p = pmtu_round_progress [OF less.prems True]
    then obtain n where "n \<le> pmtu_measure peer ?d" "pmtu_inv p peer mx ((pmtu_round p peer ^^ n) ?d)"
        "\<not> pm_should_probe ((pmtu_round p peer ^^ n) ?d)"
      using less.hyps [of ?d] by blast
    with p show ?thesis by (intro exI [of _ "Suc n"]) (simp add: funpow_swap1)
  qed
qed

text \<open>
  C16. Path MTU discovery ends and finds the MTU.  When the initial size is not already within one percent of
  the largest one possible, on a path that carries datagrams of up to \<open>p\<close> bytes and drops longer ones, after finitely many probes no further probe is due; the size then in
  use fits the path (or is the initial 1200 bytes), and it is within one percent of the largest size
  that the path, the configuration and the peer allow.
\<close>

theorem pmtu_discovery_converges:
  assumes "d = pmtu_new True max_pmtu is_ipv6" "\<not> check_finish peer d"
  shows "\<exists>n \<le> 4 * pm_max_pmtu d + 7.
    \<not> pm_should_probe ((pmtu_round p peer ^^ n) d)
    \<and> pm_current_size ((pmtu_round p peer ^^ n) d) \<le> max DEFAULT_SEND_UDP_PAYLOAD_SIZE p
    \<and> 99 * min p (min (pm_max_pmtu d) peer) \<le> 100 * pm_current_size ((pmtu_round p peer ^^ n) d)"
proof -
  have "pmtu_inv p peer (pm_max_pmtu d) d"
    using assms by (simp add: pmtu_inv_def pmtu_new_def MAX_PROBE_COUNT_def)
  from pmtu_rounds_end [OF this] obtain n where n: "n \<le> pmtu_measure peer d"
      "pmtu_inv p peer (pm_max_pmtu d) ((pmtu_round p peer ^^ n) d)" "\<not> pm_should_probe ((pmtu_round p peer ^^ n) d)"
    by blast
  define e where "e = (pmtu_round p peer ^^ n) d"
  have fin: "check_finish peer e" and mx: "pm_max_pmtu e = pm_max_pmtu d"
    and fl: "pm_failed_size e > 0 \<longrightarrow> p < pm_failed_size e"
    using n(2,3) unfolding e_def [symmetric] by (simp_all add: pmtu_inv_def)
  have "min p (min (pm_max_pmtu d) peer) \<le> cal_mtu_ceiling peer e"
    using fl by (auto simp: cal_mtu_ceiling_def Let_def mx)
  then have "99 * min p (min (pm_max_pmtu d) peer) \<le> 100 * pm_current_size e"
    using fin unfolding check_finish_def Let_def by linarith
  moreover have "pmtu_measure peer d \<le> 4 * pm_max_pmtu d + 7"
  proof -
    have "pm_failed_size d = 0" using assms(1) by (simp add: pmtu_new_def)
    then have "cal_mtu_ceiling peer d \<le> pm_max_pmtu d" by (simp add: cal_mtu_ceiling_def Let_def)
    then show ?thesis by (auto simp: pmtu_measure_def MAX_PROBE_COUNT_def)
  qed
  ultimately show ?thesis
    using n(1-3) unfolding e_def by (intro exI [of _ n]) (simp add: pmtu_inv_def)
qed

theorem pmtu_discovery_converges_witness:
  "\<exists>n. \<not> pm_should_probe ((pmtu_round 1350 1400 ^^ n) (pmtu_new True 1500 False))
     \<and> 1337 \<le> pm_current_size ((pmtu_round 1350 1400 ^^ n) (pmtu_new True 1500 False))"
proof -
  have "\<not> check_finish 1400 (pmtu_new True 1500 False)" "pm_max_pmtu (pmtu_new True 1500 False) = 1500"
    by (simp_all add: pmtu_defs pmtu_new_def DEFAULT_SEND_UDP_PAYLOAD_SIZE_def)
  with pmtu_discovery_converges [OF refl, of 1400 1500 False 1350] show ?thesis by fastforce
qed

end
