(* ===== verification/MinMax.thy ===== *)
theory MinMax
  imports Prelude
begin

text \<open>
  \<open>src/congestion_control/minmax.rs\<close>: the windowed maximum (and minimum) filter that estimates
  bandwidth and round-trip time.  The three best samples are kept; time is a count of round trips.
\<close>

record mm_sample =
  mm_time :: u64
  mm_value :: u64

record min_max =
  mm_window :: u64
  mm_samples :: "mm_sample \<times> mm_sample \<times> mm_sample"

definition mm_sample_default :: mm_sample where
  "mm_sample_default = \<lparr>mm_time = 0, mm_value = 0\<rparr>"

definition mm_new :: "u64 \<Rightarrow> min_max" where
  "mm_new window = \<lparr>mm_window = window, mm_samples = (mm_sample_default, mm_sample_default, mm_sample_default)\<rparr>"

definition mm_set_window :: "u64 \<Rightarrow> min_max \<Rightarrow> min_max" where
  "mm_set_window window m = m\<lparr>mm_window := window\<rparr>"

definition mm_reset :: "mm_sample \<Rightarrow> min_max \<Rightarrow> min_max" where
  "mm_reset s m = m\<lparr>mm_samples := (s, s, s)\<rparr>"

definition subwin_update :: "mm_sample \<Rightarrow> min_max \<Rightarrow> min_max" where
  "subwin_update sample m =
     (let (s0, s1, s2) = mm_samples m;
          dt = mm_time sample - mm_time s0
      in if dt > mm_window m then
           (if mm_time sample - mm_time s1 > mm_window m
            then m\<lparr>mm_samples := (s2, sample, sample)\<rparr>
            else m\<lparr>mm_samples := (s1, s2, sample)\<rparr>)
         else if mm_time s1 = mm_time s0 \<and> dt > mm_window m div 4
           then m\<lparr>mm_samples := (s0, sample, sample)\<rparr>
         else if mm_time s2 = mm_time s1 \<and> dt > mm_window m div 2
           then m\<lparr>mm_samples := (s0, s1, sample)\<rparr>
         else m)"

text \<open>
  \<open>update_max\<close> and \<open>update_min\<close> are the same code up to the comparison: \<open>better a b\<close> is \<open>a \<ge> b\<close> in
  the first and \<open>a \<le> b\<close> in the second.
\<close>

definition update_by :: "(u64 \<Rightarrow> u64 \<Rightarrow> bool) \<Rightarrow> u64 \<Rightarrow> u64 \<Rightarrow> min_max \<Rightarrow> min_max" where
  "update_by better time value m =
     (let (s0, s1, s2) = mm_samples m;
          sample = \<lparr>mm_time = time, mm_value = value\<rparr>
      in if time < mm_time s2 then m
         else if mm_value s0 = 0 \<or> better value (mm_value s0) \<or> time - mm_time s2 > mm_window m
           then mm_reset sample m
         else if better value (mm_value s1) then subwin_update sample (m\<lparr>mm_samples := (s0, sample, sample)\<rparr>)
         else if better value (mm_value s2) then subwin_update sample (m\<lparr>mm_samples := (s0, s1, sample)\<rparr>)
         else subwin_update sample m)"

definition update_max :: "u64 \<Rightarrow> u64 \<Rightarrow> min_max \<Rightarrow> min_max" where
  "update_max = update_by (\<ge>)"

definition update_min :: "u64 \<Rightarrow> u64 \<Rightarrow> min_max \<Rightarrow> min_max" where
  "update_min = update_by (\<le>)"

definition mm_get :: "min_max \<Rightarrow> u64" where
  "mm_get m = mm_value (fst (mm_samples m))"

subsection \<open>The order of the samples\<close>

locale total_preorder =
  fixes better :: "u64 \<Rightarrow> u64 \<Rightarrow> bool"
  assumes total: "better a b \<or> better b a"
    and trans: "better a b \<Longrightarrow> better b c \<Longrightarrow> better a c"
begin

definition mm_inv :: "(mm_sample \<Rightarrow> bool) \<Rightarrow> u64 \<Rightarrow> min_max \<Rightarrow> bool" where
  "mm_inv P now m \<longleftrightarrow>
     (case mm_samples m of (s0, s1, s2) \<Rightarrow>
        P s0 \<and> P s1 \<and> P s2 \<and> mm_time s0 \<le> mm_time s1 \<and> mm_time s1 \<le> mm_time s2 \<and> mm_time s2 \<le> now
        \<and> better (mm_value s0) (mm_value s1) \<and> better (mm_value s1) (mm_value s2))"

lemma refl_better [simp]: "better a a"
  using total by blast

lemma subwin_update_inv:
  assumes "mm_inv P time m" "P sample" "mm_time sample = time"
    and "mm_samples m = (s0, s1, s2)" "better (mm_value s2) (mm_value sample)" "time - mm_time s2 \<le> mm_window m"
  shows "mm_inv P time (subwin_update sample m)
    \<and> time - mm_time (fst (mm_samples (subwin_update sample m))) \<le> mm_window m
    \<and> better (mm_get (subwin_update sample m)) (mm_value sample)"
proof -
  have o: "better (mm_value s0) (mm_value s1)" "better (mm_value s1) (mm_value s2)"
    and t: "mm_time s0 \<le> mm_time s1" "mm_time s1 \<le> mm_time s2" "mm_time s2 \<le> time" "P s0" "P s1" "P s2"
    using assms(1,4) by (simp_all add: mm_inv_def)
  have b: "better (mm_value s1) (mm_value sample)" by (rule trans [OF o(2) assms(5)])
  have b0: "better (mm_value s0) (mm_value sample)" by (rule trans [OF o(1) b])
  show ?thesis
    using assms(2,3,5,6) o t b b0
    by (simp add: subwin_update_def mm_inv_def mm_get_def Let_def assms(4)) auto
qed

lemma update_by_inv:
  assumes "mm_inv P now m" "now \<le> time" "P \<lparr>mm_time = time, mm_value = value\<rparr>"
  shows "mm_inv P time (update_by better time value m)
    \<and> time - mm_time (fst (mm_samples (update_by better time value m))) \<le> mm_window m
    \<and> better (mm_get (update_by better time value m)) value"
proof -
  obtain s0 s1 s2 where s: "mm_samples m = (s0, s1, s2)" by (cases "mm_samples m")
  let ?x = "\<lparr>mm_time = time, mm_value = value\<rparr>"
  have t: "\<not> time < mm_time s2" using assms(1,2) s by (auto simp: mm_inv_def)
  show ?thesis
  proof (cases "mm_value s0 = 0 \<or> better value (mm_value s0) \<or> time - mm_time s2 > mm_window m")
    case True
    then have "update_by better time value m = m\<lparr>mm_samples := (?x, ?x, ?x)\<rparr>"
      using t s by (auto simp: update_by_def Let_def mm_reset_def)
    with assms show ?thesis by (simp add: mm_inv_def mm_get_def)
  next
    case False
    then have v0: "better (mm_value s0) value" using total by blast
    have inv: "mm_inv P time m" using assms(1,2) s by (auto simp: mm_inv_def)
    consider "better value (mm_value s1)" | "\<not> better value (mm_value s1)" "better value (mm_value s2)"
      | "\<not> better value (mm_value s1)" "\<not> better value (mm_value s2)" by blast
    then show ?thesis
    proof cases
      case 1
      have "mm_inv P time (m\<lparr>mm_samples := (s0, ?x, ?x)\<rparr>)"
        using inv s v0 assms(3) by (auto simp: mm_inv_def)
      from subwin_update_inv [OF this assms(3)] 1 False t s show ?thesis by (simp add: update_by_def Let_def)
    next
      case 2
      then have "better (mm_value s1) value" using total by blast
      then have "mm_inv P time (m\<lparr>mm_samples := (s0, s1, ?x)\<rparr>)"
        using inv s assms(3) by (auto simp: mm_inv_def)
      from subwin_update_inv [OF this assms(3)] 2 False t s show ?thesis by (simp add: update_by_def Let_def)
    next
      case 3
      then have "better (mm_value s2) value" using total by blast
      with subwin_update_inv [OF inv assms(3) _ s] 3 False t s show ?thesis by (simp add: update_by_def Let_def)
    qed
  qed
qed

lemma update_by_window [simp]: "mm_window (update_by better time value m) = mm_window m"
  by (auto simp: update_by_def subwin_update_def mm_reset_def Let_def split: prod.splits)

lemma updates_inv:
  assumes "sorted (map fst xs)" "\<forall>x\<in>set xs. now \<le> fst x \<and> P \<lparr>mm_time = fst x, mm_value = snd x\<rparr>" "mm_inv P now m"
  shows "mm_inv P (last (now # map fst xs)) (foldl (\<lambda>m (t, v). update_by better t v m) m xs)"
  using assms
proof (induction xs arbitrary: m now)
  case (Cons x xs)
  obtain t v where x: "x = (t, v)" by (cases x)
  have "mm_inv P t (update_by better t v m)" using Cons.prems x update_by_inv [of P now m t v] by simp
  moreover have "\<forall>y\<in>set xs. t \<le> fst y" using Cons.prems(1) x by auto
  ultimately show ?case using Cons.IH [of t "update_by better t v m"] Cons.prems x by simp
qed simp

lemma foldl_window [simp]: "mm_window (foldl (\<lambda>m (t, v). update_by better t v m) m xs) = mm_window m"
  by (induction xs arbitrary: m) (auto split: prod.splits)

end

interpretation mmax: total_preorder "(\<ge>)"
  by unfold_locales auto

interpretation mmin: total_preorder "(\<le>)"
  by unfold_locales auto

text \<open>
  C20. The windowed maximum is recent and real.  After any sequence of samples with nondecreasing
  times and one more sample, the reported maximum is the value of one of the samples (or of the
  initial empty one), that sample is no older than the window, and it is at least as large as the
  newest sample.
\<close>

theorem update_max_windowed:
  assumes "sorted (map fst (xs @ [(t, v)]))"
    and "m = foldl (\<lambda>m (t, v). update_max t v m) (mm_new window) (xs @ [(t, v)])"
  shows "v \<le> mm_get m \<and> t - mm_time (fst (mm_samples m)) \<le> window
    \<and> (mm_time (fst (mm_samples m)), mm_get m) \<in> insert (0, 0) (set (xs @ [(t, v)]))"
proof -
  let ?P = "\<lambda>s. (mm_time s, mm_value s) \<in> insert (0, 0) (set (xs @ [(t, v)]))"
  let ?m = "foldl (\<lambda>m (t, v). update_by (\<ge>) t v m) (mm_new window) xs"
  have "mmax.mm_inv ?P 0 (mm_new window)"
    by (simp add: mmax.mm_inv_def mm_new_def mm_sample_default_def)
  then have 1: "mmax.mm_inv ?P (last (0 # map fst xs)) ?m"
    using assms(1) by (intro mmax.updates_inv) (auto simp: sorted_append)
  have 2: "last (0 # map fst xs) \<le> t" using assms(1) by (cases xs rule: rev_cases) (auto simp: sorted_append)
  have m: "m = update_by (\<ge>) t v ?m" by (simp add: assms(2) update_max_def)
  have "mmax.mm_inv ?P t m \<and> t - mm_time (fst (mm_samples m)) \<le> window \<and> mm_get m \<ge> v"
    using mmax.update_by_inv [OF 1 2, of v] unfolding m [symmetric] mmax.foldl_window by (simp add: mm_new_def)
  moreover have "?P (fst (mm_samples m))" if "mmax.mm_inv ?P t m"
    using that by (simp add: mmax.mm_inv_def split: prod.splits)
  ultimately show ?thesis by (simp add: mm_get_def)
qed

theorem update_max_windowed_witness:
  "5 \<le> mm_get (foldl (\<lambda>m (t, v). update_max t v m) (mm_new 10) ([(1, 9), (4, 7)] @ [(20, 5)]))"
  using update_max_windowed [of "[(1, 9), (4, 7)]" 20 5, OF _ refl] by simp

end
