(* ===== verification/Pacing.thy ===== *)
theory Pacing
  imports Prelude
begin

text \<open>
  \<open>src/congestion_control/pacing.rs\<close>: the token bucket that spreads the packets of a path over
  time.  An \<open>Instant\<close> and a \<open>Duration\<close> are nanoseconds.  The size of a datagram is at most a few
  thousand bytes, so its product with the burst limits does not wrap around.
\<close>

definition MIN_BURST_PACKET_NUM :: u64 where
  "MIN_BURST_PACKET_NUM = 10"

definition MAX_BURST_PACKET_NUM :: u64 where
  "MAX_BURST_PACKET_NUM = 128"

record pacer =
  pa_enabled :: bool
  pa_capacity :: u64
  pa_tokens :: u64
  pa_last_cwnd :: u64
  pa_last_sched_time :: nat
  pa_granularity :: nat

definition clamp :: "nat \<Rightarrow> nat \<Rightarrow> nat \<Rightarrow> nat" where
  "clamp x lo hi = (if x < lo then lo else if x > hi then hi else x)"

definition update_capacity :: "u64 \<Rightarrow> nat \<Rightarrow> u64 \<Rightarrow> pacer \<Rightarrow> pacer" where
  "update_capacity cwnd srtt mtu p =
     (let capacity = (cwnd * pa_granularity p div max srtt 1000000) mod u64_mod
      in p\<lparr>pa_capacity := clamp capacity (MIN_BURST_PACKET_NUM * mtu) (MAX_BURST_PACKET_NUM * mtu)\<rparr>)"

definition pacer_new :: "bool \<Rightarrow> nat \<Rightarrow> u64 \<Rightarrow> u64 \<Rightarrow> nat \<Rightarrow> nat \<Rightarrow> pacer" where
  "pacer_new enabled srtt cwnd mtu now granularity =
     (let p = update_capacity cwnd srtt mtu
                \<lparr>pa_enabled = enabled, pa_capacity = 0, pa_tokens = 0, pa_last_cwnd = cwnd,
                 pa_last_sched_time = now, pa_granularity = granularity\<rparr>
      in p\<lparr>pa_tokens := pa_capacity p\<rparr>)"

definition pacer_on_sent :: "u64 \<Rightarrow> pacer \<Rightarrow> pacer" where
  "pacer_on_sent bytes_sent p =
     (if pa_enabled p then p\<lparr>pa_tokens := pa_tokens p - bytes_sent\<rparr> else p)"

definition refill :: "u64 \<Rightarrow> nat \<Rightarrow> pacer \<Rightarrow> pacer" where
  "refill pacing_rate now p =
     (let elapsed = now - pa_last_sched_time p
      in p\<lparr>pa_tokens := min (sat_add64 (pa_tokens p) ((pacing_rate * elapsed div 1000000000) mod u64_mod))
                            (pa_capacity p),
           pa_last_sched_time := now\<rparr>)"

definition schedule :: "u64 \<Rightarrow> u64 \<Rightarrow> nat \<Rightarrow> u64 \<Rightarrow> u64 \<Rightarrow> nat \<Rightarrow> pacer \<Rightarrow> pacer \<times> nat option" where
  "schedule bytes_to_send pacing_rate srtt cwnd mtu now p =
     (if \<not> pa_enabled p \<or> srtt = 0 \<or> cwnd = 0 \<or> pacing_rate = 0 then (p, None)
      else
        let p = (if cwnd \<noteq> pa_last_cwnd p
                 then let p = update_capacity cwnd srtt mtu p
                      in p\<lparr>pa_tokens := min (pa_capacity p) (pa_tokens p), pa_last_cwnd := cwnd\<rparr>
                 else p)
        in if pa_tokens p \<ge> bytes_to_send then (p, None)
           else
             let p = refill pacing_rate now p
             in if bytes_to_send \<le> pa_tokens p then (p, None)
                else
                  let time_to_wait = mul64 (bytes_to_send - pa_tokens p) 1000000000 div max pacing_rate 1
                  in (p, Some (pa_last_sched_time p + time_to_wait)))"

subsection \<open>Bounds\<close>







lemma update_capacity_fields [simp]:
  "pa_enabled (update_capacity cwnd srtt mtu p) = pa_enabled p" "pa_tokens (update_capacity cwnd srtt mtu p) = pa_tokens p"
  "pa_last_sched_time (update_capacity cwnd srtt mtu p) = pa_last_sched_time p"
  by (simp_all add: update_capacity_def Let_def)









text \<open>
  A change of the size of a datagram alone is not noticed: the bucket then holds fewer than ten
  datagrams.
\<close>

lemma mtu_change_unnoticed:
  "pa_capacity (fst (schedule 1472 1000000 1000000 10000 1472 5 (pacer_new True 1000000 10000 1200 0 1000000))) < 10 * 1472"
  by (simp add: schedule_def pacer_new_def update_capacity_def clamp_def Let_def MIN_BURST_PACKET_NUM_def
      MAX_BURST_PACKET_NUM_def u64_mod_def)

subsection \<open>The time to wait\<close>

lemma div_wait:
  assumes "0 < (r::nat)" "w = k * 1000000000 div r"
  shows "k \<le> r * (w + 1) div 1000000000" "r * w div 1000000000 \<le> k"
proof -
  have "k * 1000000000 < r * (w + 1)"
    using assms by (metis Suc_eq_plus1 dividend_less_div_times mult.commute mult_Suc_right add.commute)
  then show "k \<le> r * (w + 1) div 1000000000" by (simp add: less_eq_div_iff_mult_less_eq)
  have "r * w \<le> k * 1000000000" using assms(2) by (simp add: times_div_less_eq_dividend)
  then show "r * w div 1000000000 \<le> k" by (metis div_le_mono div_mult_self_is_m zero_less_numeral)
qed

lemma schedule_delays:
  assumes "schedule n rate srtt cwnd mtu now p = (q, Some t)"
  shows "pa_enabled p" "0 < srtt" "0 < cwnd" "0 < rate" "pa_last_sched_time q = now" "pa_last_cwnd q = cwnd"
    "pa_tokens q < n" "t = now + mul64 (n - pa_tokens q) 1000000000 div max rate 1" "pa_enabled q"
proof -
  define c where "c = (if cwnd \<noteq> pa_last_cwnd p
      then let p = update_capacity cwnd srtt mtu p
           in p\<lparr>pa_tokens := min (pa_capacity p) (pa_tokens p), pa_last_cwnd := cwnd\<rparr> else p)"
  have c: "pa_last_cwnd c = cwnd" "pa_enabled c = pa_enabled p"
    by (simp_all add: c_def Let_def update_capacity_def)
  have e: "schedule n rate srtt cwnd mtu now p =
      (if \<not> pa_enabled p \<or> srtt = 0 \<or> cwnd = 0 \<or> rate = 0 then (p, None)
       else if pa_tokens c \<ge> n then (c, None)
       else if n \<le> pa_tokens (refill rate now c) then (refill rate now c, None)
       else (refill rate now c, Some (pa_last_sched_time (refill rate now c)
               + mul64 (n - pa_tokens (refill rate now c)) 1000000000 div max rate 1)))"
    by (simp only: schedule_def Let_def c_def)
  have r: "pa_last_sched_time (refill rate now c) = now" "pa_last_cwnd (refill rate now c) = cwnd"
    "pa_enabled (refill rate now c) = pa_enabled p"
    using c by (simp_all add: refill_def Let_def)
  note a = assms [unfolded e]
  have nz: "pa_enabled p \<and> srtt \<noteq> 0 \<and> cwnd \<noteq> 0 \<and> rate \<noteq> 0" using a by (simp split: if_splits)
  have "q = refill rate now c \<and> \<not> n \<le> pa_tokens q
      \<and> t = pa_last_sched_time q + mul64 (n - pa_tokens q) 1000000000 div max rate 1"
    using a by (auto split: if_splits)
  with nz r show "pa_enabled p" "0 < srtt" "0 < cwnd" "0 < rate" "pa_last_sched_time q = now" "pa_last_cwnd q = cwnd"
    "pa_tokens q < n" "t = now + mul64 (n - pa_tokens q) 1000000000 div max rate 1" "pa_enabled q"
    by auto
qed

text \<open>
  C22. The time a packet has to wait is right up to a nanosecond.  If the scheduler delays a packet
  that fits the bucket and is small enough for the computation of the wait not to overflow, the time it returns is not in the past and not too late, since the bucket
  does not then hold more than the packet needs; and one nanosecond later it holds enough.
\<close>

theorem schedule_wait_enough:
  assumes "schedule n rate srtt cwnd mtu now p = (q, Some t)" "n \<le> pa_capacity q"
    and "n * 1000000000 + rate < u64_mod"
  shows "now \<le> t \<and> pa_tokens (refill rate t q) \<le> n \<and> n \<le> pa_tokens (refill rate (t + 1) q)"
proof -
  note q = schedule_delays [OF assms(1)]
  define k where "k = n - pa_tokens q"
  have n: "n = pa_tokens q + k" using q(7) by (simp add: k_def)
  then have "k * 1000000000 < u64_mod" using assms(3) by (simp add: algebra_simps)
  then have mul: "mul64 k 1000000000 = k * 1000000000" by (rule mul64_nowrap)
  have mr: "max rate 1 = rate" using q(4) by (simp add: max_absorb1)
  obtain w where w: "w = k * 1000000000 div rate" "t = now + w"
    using q(8) unfolding k_def [symmetric] mr mul by blast
  note d = div_wait [OF q(4) w(1)]
  have m: "sat_add64 (pa_tokens q) x = min (pa_tokens q + x) u64_max" for x by (simp add: sat_add64_def)
  have "rate * w \<le> k * 1000000000" unfolding w(1) by simp
  then have "rate * (w + 1) < u64_mod" using assms(3) n by (simp add: algebra_simps)
  then have no: "rate * (w + 1) div 1000000000 mod u64_mod = rate * (w + 1) div 1000000000"
    "rate * w div 1000000000 mod u64_mod = rate * w div 1000000000"
    by (simp_all add: div_le_dividend le_less_trans [OF div_le_dividend])
  have "n \<le> u64_max" using assms(3) by (simp add: u64_max_def)
  then show ?thesis
    using d n assms(2) by (simp add: refill_def Let_def q(5) w(2) no [unfolded Suc_eq_plus1 [symmetric]] m del: mult_Suc_right)
qed

theorem schedule_wait_enough_witness:
  "\<exists>q t. schedule 16000 1000000 1000000 30000 1500 5 (pacer_on_sent 20000 (pacer_new True 1000000 30000 1500 0 1000000)) = (q, Some t)
     \<and> 16000 \<le> pa_tokens (refill 1000000 (t + 1) q)"
proof -
  define q where "q = \<lparr>pa_enabled = True, pa_capacity = 30000, pa_tokens = 10000, pa_last_cwnd = 30000,
    pa_last_sched_time = 5, pa_granularity = 1000000\<rparr>"
  have "schedule 16000 1000000 1000000 30000 1500 5 (pacer_on_sent 20000 (pacer_new True 1000000 30000 1500 0 1000000))
      = (q, Some 6000005)"
    by (simp add: schedule_def pacer_on_sent_def pacer_new_def update_capacity_def refill_def clamp_def Let_def
        MIN_BURST_PACKET_NUM_def MAX_BURST_PACKET_NUM_def u64_eval q_def)
  with schedule_wait_enough [OF this] show ?thesis by (auto simp: q_def u64_mod_def)
qed

text \<open>
  A packet that is one byte short can wait forever.  The time to wait is rounded down and the
  elapsed fraction of a byte is dropped at every call, so a caller that comes back exactly at the
  time it was given finds no new token and is given the same delay again.
\<close>

theorem schedule_wakeup_short:
  assumes "schedule n rate srtt cwnd mtu now p = (q, Some t)" "n = pa_tokens q + 1" "pa_tokens q \<le> pa_capacity q"
    and "rate < 1000000000" "1000000000 mod rate \<noteq> 0" "n < u64_mod"
  shows "schedule n rate srtt cwnd mtu t q = (q\<lparr>pa_last_sched_time := t\<rparr>, Some (t + (t - now)))"
proof -
  note q = schedule_delays [OF assms(1)]
  have "mul64 1 1000000000 = 1000000000" by (simp add: mul64_def u64_mod_def)
  moreover have mr: "max rate 1 = rate" using q(4) by (simp add: max_absorb1)
  moreover have "n - pa_tokens q = 1" using assms(2) by simp
  ultimately have t: "t = now + 1000000000 div rate" using q(8) by simp
  have "rate * (1000000000 div rate) < 1000000000"
    using assms(5) by (metis minus_mod_eq_mult_div diff_less gr0I zero_less_numeral)
  then have z: "rate * (t - now) div 1000000000 = 0" by (simp add: t)
  have "pa_tokens q \<le> u64_max" using assms(2,6) by (simp add: u64_max_def)
  then have r: "refill rate t q = q\<lparr>pa_last_sched_time := t\<rparr>"
    using assms(3) by (simp add: refill_def Let_def q(5) z sat_add64_def min_absorb1)
  have w: "mul64 (Suc 0) 1000000000 = 1000000000" by (simp add: mul64_def u64_mod_def)
  show ?thesis
    using q(1-7,9) assms(2) by (simp add: schedule_def Let_def r [unfolded t] w t mr [simplified])
qed

theorem schedule_wakeup_short_witness:
  "\<exists>q t. schedule 10001 1200000 1000000 30000 1500 5 (pacer_on_sent 20000 (pacer_new True 1000000 30000 1500 0 1000000)) = (q, Some t)
     \<and> schedule 10001 1200000 1000000 30000 1500 t q = (q\<lparr>pa_last_sched_time := t\<rparr>, Some (t + (t - 5)))"
proof -
  define q where "q = \<lparr>pa_enabled = True, pa_capacity = 30000, pa_tokens = 10000, pa_last_cwnd = 30000,
    pa_last_sched_time = 5, pa_granularity = 1000000\<rparr>"
  have s: "schedule 10001 1200000 1000000 30000 1500 5 (pacer_on_sent 20000 (pacer_new True 1000000 30000 1500 0 1000000))
      = (q, Some 838)"
    by (simp add: schedule_def pacer_on_sent_def pacer_new_def update_capacity_def refill_def clamp_def Let_def
        MIN_BURST_PACKET_NUM_def MAX_BURST_PACKET_NUM_def u64_eval q_def)
  show ?thesis
    by (intro exI conjI, rule s, rule schedule_wakeup_short [OF s]) (simp_all add: q_def u64_mod_def)
qed

end
