(* ===== verification/H3Error.thy ===== *)
theory H3Error
  imports Codec
begin

text \<open>
  \<open>src/h3/error.rs\<close>: the errors of HTTP/3 with their codes on the wire, and how the errors of the
  transport library turn into them.
\<close>

datatype http3_error =
    H3NoError | H3GeneralProtocolError | H3InternalError | H3StreamCreationError | H3ClosedCriticalStream
  | H3FrameUnexpected | H3FrameError | H3ExcessiveLoad | H3IdError | H3SettingsError | H3MissingSettings
  | H3RequestRejected | H3RequestCancelled | H3RequestIncomplete | H3MessageError | H3ConnectError
  | H3VersionFallback | QpackDecompressionFailed | QpackEncoderStreamError | QpackDecoderStreamError
  | H3TransportError error | H3StreamBlocked | H3Done

datatype h3_fault = H3Err http3_error | H3Panic

type_synonym 'a h3_result = "h3_fault + 'a"

fun h3_to_wire :: "http3_error \<Rightarrow> u64" where
  "h3_to_wire H3NoError = 0x100"
| "h3_to_wire H3GeneralProtocolError = 0x101"
| "h3_to_wire H3InternalError = 0x102"
| "h3_to_wire H3StreamCreationError = 0x103"
| "h3_to_wire H3ClosedCriticalStream = 0x104"
| "h3_to_wire H3FrameUnexpected = 0x105"
| "h3_to_wire H3FrameError = 0x106"
| "h3_to_wire H3ExcessiveLoad = 0x107"
| "h3_to_wire H3IdError = 0x108"
| "h3_to_wire H3SettingsError = 0x109"
| "h3_to_wire H3MissingSettings = 0x10A"
| "h3_to_wire H3RequestRejected = 0x10B"
| "h3_to_wire H3RequestCancelled = 0x10C"
| "h3_to_wire H3RequestIncomplete = 0x10D"
| "h3_to_wire H3MessageError = 0x10E"
| "h3_to_wire H3ConnectError = 0x10F"
| "h3_to_wire H3VersionFallback = 0x110"
| "h3_to_wire QpackDecompressionFailed = 0x200"
| "h3_to_wire QpackEncoderStreamError = 0x201"
| "h3_to_wire QpackDecoderStreamError = 0x202"
| "h3_to_wire (H3TransportError _) = 0x102"
| "h3_to_wire H3StreamBlocked = 0x102"
| "h3_to_wire H3Done = 0x102"

fun h3_to_errno :: "http3_error \<Rightarrow> int" where
  "h3_to_errno H3NoError = 0"
| "h3_to_errno H3Done = -1"
| "h3_to_errno H3GeneralProtocolError = -2"
| "h3_to_errno H3InternalError = -3"
| "h3_to_errno H3StreamCreationError = -4"
| "h3_to_errno H3ClosedCriticalStream = -5"
| "h3_to_errno H3FrameUnexpected = -6"
| "h3_to_errno H3FrameError = -7"
| "h3_to_errno H3ExcessiveLoad = -8"
| "h3_to_errno H3IdError = -9"
| "h3_to_errno H3SettingsError = -10"
| "h3_to_errno H3MissingSettings = -11"
| "h3_to_errno H3StreamBlocked = -13"
| "h3_to_errno H3RequestRejected = -14"
| "h3_to_errno H3RequestCancelled = -15"
| "h3_to_errno H3RequestIncomplete = -16"
| "h3_to_errno H3MessageError = -17"
| "h3_to_errno H3ConnectError = -18"
| "h3_to_errno H3VersionFallback = -19"
| "h3_to_errno QpackDecompressionFailed = -20"
| "h3_to_errno QpackEncoderStreamError = -21"
| "h3_to_errno QpackDecoderStreamError = -22"
| "h3_to_errno (H3TransportError quic_error) = to_errno quic_error - 1000"

definition h3_from :: "error \<Rightarrow> http3_error" where
  "h3_from err = (if err = Done then H3Done else H3TransportError err)"

text \<open>The question mark operator on a result of the transport library.\<close>

definition lift_h3 :: "'a result \<Rightarrow> 'a h3_result" where
  "lift_h3 r = (case r of Inr x \<Rightarrow> Inr x | Inl (Err e) \<Rightarrow> Inl (H3Err (h3_from e)) | Inl Panic \<Rightarrow> Inl H3Panic)"

end
