(* ===== verification/PrefixInt.thy ===== *)
theory PrefixInt
  imports H3Error
begin

text \<open>
  \<open>src/h3/qpack/prefix_int.rs\<close>: the integers of QPACK, a prefix of some bits of a first byte followed
  by groups of seven bits.  \<open>checked_shl\<close> fails only for a distance of 64 or more and otherwise drops
  the bits shifted out.
\<close>

unbundle bit_operations_syntax

function encode_rest :: "u64 \<Rightarrow> wbuf \<Rightarrow> wbuf result" where
  "encode_rest i b =
     (if i \<ge> 128 then
        (case write_u8 (word_of_nat (i mod 128 + 128)) b of
           Inl e \<Rightarrow> Inl e
         | Inr b1 \<Rightarrow> encode_rest (drop_bit 7 i) b1)
      else write_u8 (word_of_nat i) b)"
  by pat_completeness auto
termination
  by (relation "measure fst") (auto simp: drop_bit_eq_div)

definition encode_int :: "u64 \<Rightarrow> byte \<Rightarrow> usize \<Rightarrow> wbuf \<Rightarrow> wbuf h3_result" where
  "encode_int i first n b =
     (let msk = 2 ^ n - 1
      in if i < msk then lift_h3 (write_u8 (first OR word_of_nat i) b)
         else lift_h3 (rbind (write_u8 (first OR word_of_nat msk) b) (encode_rest (i - msk))))"

fun decode_rest :: "byte list \<Rightarrow> u64 \<Rightarrow> nat \<Rightarrow> (u64 \<times> byte list) h3_result" where
  "decode_rest [] val shift = Inl (H3Err QpackDecompressionFailed)"
| "decode_rest (b # buf) val shift =
     (if shift \<ge> 64 then Inl (H3Err QpackDecompressionFailed)
      else
        let inc = mul64 (unat (b AND 0x7f)) (2 ^ shift)
        in if val + inc \<ge> u64_mod then Inl (H3Err QpackDecompressionFailed)
           else if b AND 0x80 = 0 then Inr (val + inc, buf)
           else decode_rest buf (val + inc) (shift + 7))"

definition decode_int :: "byte list \<Rightarrow> usize \<Rightarrow> (u64 \<times> usize) h3_result" where
  "decode_int buf n =
     (case lift_h3 (read_u8 buf) of
        Inl e \<Rightarrow> Inl e
      | Inr (b, rest) \<Rightarrow>
          let msk = 2 ^ n - 1;
              val = unat ((ucast b :: 64 word) AND word_of_nat msk)
          in if val < msk then Inr (val, 1)
             else (case decode_rest rest val 0 of Inl e \<Rightarrow> Inl e | Inr (v, r) \<Rightarrow> Inr (v, length buf - length r)))"

subsection \<open>Round trip\<close>

declare encode_rest.simps [simp del]

function rest_bytes :: "nat \<Rightarrow> byte list" where
  "rest_bytes i = (if i \<ge> 128 then word_of_nat (i mod 128 + 128) # rest_bytes (i div 128) else [word_of_nat i])"
  by pat_completeness auto
termination
  by (relation "measure (\<lambda>i. i)") auto

declare rest_bytes.simps [simp del]

lemma encode_rest_emit: "encode_rest i b = emit (rest_bytes i) b"
proof (induction i b rule: encode_rest.induct)
  case (1 i b)
  show ?case
  proof (cases "i \<ge> 128")
    case True
    have d: "drop_bit 7 i = i div 128" by (simp add: drop_bit_eq_div)
    from True have "rest_bytes i = word_of_nat (i mod 128 + 128) # rest_bytes (i div 128)" by (simp add: rest_bytes.simps [of i])
    moreover have "encode_rest i b = (case write_u8 (word_of_nat (i mod 128 + 128)) b of Inl e \<Rightarrow> Inl e | Inr b1 \<Rightarrow> encode_rest (i div 128) b1)"
      unfolding encode_rest.simps [of i b] d using True by simp
    ultimately show ?thesis using 1 [OF True, unfolded d]
      by (auto simp: write_u8_def emit_def)
  next
    case False
    then show ?thesis by (simp add: encode_rest.simps [of i b] rest_bytes.simps [of i] write_u8_def)
  qed
qed

lemma octet_low: "k < 256 \<Longrightarrow> unat ((word_of_nat k :: byte) AND 0x7f) = k mod 128"
  using unat_and_mask [of "word_of_nat k :: byte" 7] by (simp add: mask_eq_exp_minus_1 unat_of_nat)

lemma octet_flag:
  assumes "k < 256"
  shows "((word_of_nat k :: byte) AND 0x80 = 0) = (k < 128)"
proof
  let ?w = "word_of_nat k :: byte"
  have u: "unat ?w = k" using assms by (simp add: unat_of_nat)
  show "?w AND 0x80 = 0 \<Longrightarrow> k < 128"
  proof -
    assume z: "?w AND 0x80 = 0"
    have "(0x7f OR 0x80 :: byte) = - 1" by simp
    then have "?w = ?w AND (0x7f OR 0x80)" by (simp only: and.right_neutral)
    also have "\<dots> = ?w AND 0x7f" unfolding bit.conj_disj_distrib z by (rule or.right_neutral)
    finally have "unat ?w = unat (?w AND 0x7f)" by (rule arg_cong)
    then have "k = k mod 128" unfolding u octet_low [OF assms] .
    then show "k < 128" by (metis mod_less_divisor zero_less_numeral)
  qed
  show "k < 128 \<Longrightarrow> ?w AND 0x80 = 0"
    by (rule and_zero_high [of _ 7]) (simp_all only: u, simp_all add: take_bit_eq_mod)
qed

lemmas octet_parts = octet_low octet_flag

lemma decode_rest_ok:
  "val + i * 2 ^ shift < u64_mod \<Longrightarrow> shift < 64 \<Longrightarrow> decode_rest (rest_bytes i @ r) val shift = Inr (val + i * 2 ^ shift, r)"
proof (induction i arbitrary: val shift rule: rest_bytes.induct)
  case (1 i)
  show ?case
  proof (cases "i \<ge> 128")
    case False
    then show ?thesis using 1(2,3) octet_parts [of i]
      by (simp add: rest_bytes.simps [of i] mul64_def Let_def)
  next
    case True
    let ?a = "i mod 128" and ?q = "i div 128"
    have i: "i = ?q * 128 + ?a" by simp
    have p: "(2 :: nat) ^ (shift + 7) = 2 ^ shift * 128" by (simp add: power_add)
    have split: "i * 2 ^ shift = ?a * 2 ^ shift + ?q * 2 ^ (shift + 7)" unfolding p by (subst i) (simp only: algebra_simps)
    have lt: "?a * 2 ^ shift < u64_mod" "val + ?a * 2 ^ shift < u64_mod" "val + ?a * 2 ^ shift + ?q * 2 ^ (shift + 7) < u64_mod"
      using 1(2) split by linarith+
    have "1 * 2 ^ (shift + 7) \<le> ?q * 2 ^ (shift + 7)" using True by (intro mult_le_mono1) simp
    then have "1 * 2 ^ (shift + 7) < u64_mod" using lt(3) by linarith
    then have "(2 :: nat) ^ (shift + 7) < 2 ^ 64" by (simp only: u64_mod_def mult_1)
    then have s7: "shift + 7 < 64" by (rule power_less_imp_less_exp [rotated]) simp
    have o: "unat ((word_of_nat (?a + 128) :: byte) AND 0x7f) = ?a" "\<not> ((word_of_nat (?a + 128) :: byte) AND 0x80 = 0)"
      using octet_parts [of "?a + 128"] by simp_all
    have rb: "rest_bytes i = word_of_nat (?a + 128) # rest_bytes ?q" using True by (simp add: rest_bytes.simps [of i])
    have m: "mul64 ?a (2 ^ shift) = ?a * 2 ^ shift" using lt(1) by (simp add: mul64_def)
    have "decode_rest (rest_bytes i @ r) val shift = decode_rest (rest_bytes ?q @ r) (val + ?a * 2 ^ shift) (shift + 7)"
      unfolding rb append_Cons decode_rest.simps Let_def o(1) m using 1(3) lt(2) o(2) by simp
    also have "\<dots> = Inr (val + ?a * 2 ^ shift + ?q * 2 ^ (shift + 7), r)" by (rule 1(1) [OF True lt(3) s7])
    finally show ?thesis using split by (simp add: add.assoc)
  qed
qed

lemma prefix_val:
  assumes "first AND mask n = (0 :: byte)" "k < 2 ^ n" "n \<le> 8"
  shows "unat ((ucast (first OR word_of_nat k) :: 64 word) AND word_of_nat (2 ^ n - 1)) = k"
proof -
  have "k < 256" using assms(2,3) power_increasing [of n 8 "2 :: nat"] by simp
  then have u: "unat (word_of_nat k :: byte) = k" by (simp add: unat_of_nat)
  have m: "(word_of_nat (2 ^ n - 1) :: 64 word) = mask n"
    by (simp add: mask_eq_exp_minus_1 of_nat_diff)
  have "take_bit n first = 0" using assms(1) by (simp only: take_bit_eq_mask)
  then have "take_bit n (first OR word_of_nat k) = take_bit n (word_of_nat k :: byte)" by (simp add: take_bit_or)
  then have "unat (first OR word_of_nat k) mod 2 ^ n = k mod 2 ^ n"
    using unat_take_bit [of n "first OR word_of_nat k"] unat_take_bit [of n "word_of_nat k :: byte"] u by simp
  moreover have "unat (first OR word_of_nat k) < 2 ^ LENGTH(8)" by (rule unsigned_less)
  then have "unat (ucast (first OR word_of_nat k) :: 64 word) = unat (first OR word_of_nat k)"
    by (simp add: unsigned_ucast_eq take_bit_nat_def)
  ultimately show ?thesis using assms(2) unfolding m unat_and_mask by simp
qed

text \<open>
  C18. The integers of QPACK round-trip.  For a prefix of one to eight bits and a first byte that
  leaves them clear, every 64-bit integer is written when there is room, and reading it back, whatever
  follows, returns the integer and the number of bytes; without room the writer fails with
  \<open>BufferTooShort\<close>.
\<close>

theorem prefix_int_roundtrip:
  assumes "1 \<le> n" "n \<le> 8" "i < u64_mod" "first AND mask n = 0"
  shows "\<exists>bs. (\<forall>b. encode_int i first n b =
        (if wb_room b < length bs then Inl (H3Err (H3TransportError BufferTooShort))
         else Inr (b\<lparr>wb_out := wb_out b @ bs, wb_room := wb_room b - length bs\<rparr>)))
    \<and> (\<forall>rest. decode_int (bs @ rest) n = Inr (i, length bs))"
proof (cases "i < 2 ^ n - 1")
  case True
  then have "unat ((ucast (first OR word_of_nat i) :: 64 word) AND word_of_nat (2 ^ n - 1)) = i"
    using assms by (intro prefix_val) simp_all
  with True show ?thesis
    by (intro exI [of _ "[first OR word_of_nat i]"])
      (simp add: encode_int_def write_u8_def emit_def lift_h3_def h3_from_def decode_int_def read_u8_def Let_def)
next
  case False
  define msk where "msk = (2 :: nat) ^ n - 1"
  define r where "r = rest_bytes (i - msk)"
  let ?bs = "(first OR word_of_nat msk) # r"
  have le: "msk \<le> i" using False by (simp add: msk_def)
  have v: "unat ((ucast (first OR word_of_nat msk) :: 64 word) AND word_of_nat msk) = msk"
    unfolding msk_def using assms by (intro prefix_val) simp_all
  have "rbind (write_u8 (first OR word_of_nat msk) b) (encode_rest (i - msk)) = emit ?bs b" for b
    by (auto simp: encode_rest_emit r_def [symmetric] write_u8_def emit_def)
  then have enc: "encode_int i first n b = lift_h3 (emit ?bs b)" for b
    unfolding encode_int_def Let_def msk_def [symmetric] using le by simp
  have "decode_rest (r @ rest) msk 0 = Inr (msk + (i - msk) * 2 ^ 0, rest)" for rest
    unfolding r_def using assms(3) le by (intro decode_rest_ok) simp_all
  then have dec: "decode_rest (r @ rest) msk 0 = Inr (i, rest)" for rest using le by simp
  have "decode_int (?bs @ rest) n = Inr (i, length ?bs)" for rest
    unfolding decode_int_def Let_def msk_def [symmetric] by (simp add: lift_h3_def read_u8_def v dec)
  then show ?thesis
    by (intro exI [of _ ?bs]) (simp add: enc emit_def lift_h3_def h3_from_def)
qed

theorem prefix_int_roundtrip_witness:
  "\<exists>bs. (\<forall>rest. decode_int (bs @ rest) 5 = Inr (1337, length bs))"
  using prefix_int_roundtrip [of 5 1337 "0x40"] by (auto simp: u64_mod_def mask_eq_exp_minus_1)

lemma decode_rest_pad:
  assumes "shift < 64" "val < u64_mod"
  shows "decode_rest (0x80 # buf) val shift = decode_rest buf val (shift + 7)"
proof -
  have "unat ((0x80 :: byte) AND 0x7f) = 0" "(0x80 :: byte) AND 0x80 \<noteq> 0" by simp_all
  with assms show ?thesis unfolding decode_rest.simps Let_def by (simp add: mul64_def)
qed

lemma decode_rest_last: "val < u64_mod \<Longrightarrow> decode_rest [2] val 63 = Inr (val, [])"
proof -
  assume v: "val < u64_mod"
  have "unat ((2 :: byte) AND 0x7f) = 2" "(2 :: byte) AND 0x80 = 0" by simp_all
  moreover have "mul64 2 (2 ^ 63) = 0" by (simp add: mul64_def u64_mod_def)
  ultimately show ?thesis using v unfolding decode_rest.simps Let_def by simp
qed

text \<open>
  The decoder misses an overflow in its tenth group of seven bits: the bits that a shift by 63
  drops are ignored, so an encoding of 255 + 2 ^ 64 reads as 255.
\<close>

theorem decode_int_overflow_missed:
  "decode_int [0xff, 0x80, 0x80, 0x80, 0x80, 0x80, 0x80, 0x80, 0x80, 0x80, 2] 8 = Inr (255, 11)"
proof -
  have v: "(255 :: nat) < u64_mod" by (simp add: u64_mod_def)
  have r: "decode_rest [0x80, 0x80, 0x80, 0x80, 0x80, 0x80, 0x80, 0x80, 0x80, 2] 255 0 = Inr (255, [])"
    using v by (simp add: decode_rest_pad decode_rest_last del: decode_rest.simps)
  have "unat ((ucast (0xff :: byte) :: 64 word) AND word_of_nat (2 ^ 8 - 1)) = 255" by simp
  then show ?thesis
    unfolding decode_int_def Let_def using r
    by (simp add: lift_h3_def read_u8_def del: decode_rest.simps)
qed

end
