(* ===== verification/H3Frame.thy ===== *)
theory H3Frame
  imports H3Error FrameWire
begin

text \<open>
  \<open>src/h3/frame.rs\<close>: the frames of HTTP/3, their encoding and decoding.  Lengths are subtracted as
  the code does, with the wrap-around of a \<open>u64\<close>.
\<close>

datatype http3_frame =
    H3Data "byte list"
  | H3Headers "byte list"
  | H3CancelPush u64
  | H3Settings "u64 option" "u64 option" "u64 option" "u64 option" "(u64 \<times> u64) list option"
  | H3PushPromise u64 "byte list"
  | H3GoAway u64
  | H3MaxPushId u64
  | H3PriorityUpdateRequest u64 "byte list"
  | H3PriorityUpdatePush u64 "byte list"
  | H3Unknown u64 u64

definition MAX_SETTINGS_PAYLOAD_SIZE :: u64 where
  "MAX_SETTINGS_PAYLOAD_SIZE = 256"

subsection \<open>Encoding\<close>

text \<open>\<open>encode_varint_len\<close> of \<open>v\<close>, which panics above \<open>VINT_MAX\<close>, passed on to \<open>k\<close>.\<close>

definition with_varint_len :: "u64 \<Rightarrow> (usize \<Rightarrow> wbuf \<Rightarrow> wbuf result) \<Rightarrow> wbuf \<Rightarrow> wbuf result" where
  "with_varint_len v k b = (case encode_varint_len v of None \<Rightarrow> Inl Panic | Some l \<Rightarrow> k l b)"

definition write_data_frame :: "u64 \<Rightarrow> byte list \<Rightarrow> wbuf \<Rightarrow> wbuf result" where
  "write_data_frame t data = seqw [write_varint t, write_varint (length data), write_bytes data]"

definition write_id_frame :: "u64 \<Rightarrow> u64 \<Rightarrow> wbuf \<Rightarrow> wbuf result" where
  "write_id_frame t v = seqw [write_varint t, with_varint_len v write_varint, write_varint v]"

definition write_id_data_frame :: "u64 \<Rightarrow> u64 \<Rightarrow> byte list \<Rightarrow> wbuf \<Rightarrow> wbuf result" where
  "write_id_data_frame t v data =
     with_varint_len v (\<lambda>l. seqw [write_varint t, write_varint (l + length data), write_varint v, write_bytes data])"

definition opt_setting :: "u64 \<Rightarrow> u64 option \<Rightarrow> u64 list" where
  "opt_setting i v = (case v of None \<Rightarrow> [] | Some x \<Rightarrow> [i, x])"

definition settings_nums :: "u64 option \<Rightarrow> u64 option \<Rightarrow> u64 option \<Rightarrow> u64 option \<Rightarrow> u64 list" where
  "settings_nums max_field_section_size qpack_max_table_capacity qpack_blocked_streams connect_protocol_enabled =
     opt_setting 0x6 max_field_section_size @ opt_setting 0x1 qpack_max_table_capacity
     @ opt_setting 0x7 qpack_blocked_streams @ opt_setting 0x8 connect_protocol_enabled"

definition encode_settings_frame ::
    "u64 option \<Rightarrow> u64 option \<Rightarrow> u64 option \<Rightarrow> u64 option \<Rightarrow> wbuf \<Rightarrow> wbuf result" where
  "encode_settings_frame a b c d buf =
     (let nums = settings_nums a b c d
      in case vsum 0 nums of
           None \<Rightarrow> Inl Panic
         | Some frame_len \<Rightarrow> seqw (write_varint 0x4 # write_varint frame_len # map write_varint nums) buf)"

fun h3_write :: "http3_frame \<Rightarrow> wbuf \<Rightarrow> wbuf result" where
  "h3_write (H3Data data) = write_data_frame 0x0 data"
| "h3_write (H3Headers field_section) = write_data_frame 0x1 field_section"
| "h3_write (H3CancelPush push_id) = write_id_frame 0x3 push_id"
| "h3_write (H3Settings a b c d _) = encode_settings_frame a b c d"
| "h3_write (H3PushPromise push_id field_section) = write_id_data_frame 0x5 push_id field_section"
| "h3_write (H3GoAway i) = write_id_frame 0x7 i"
| "h3_write (H3MaxPushId push_id) = write_id_frame 0xD push_id"
| "h3_write (H3PriorityUpdateRequest element_id value) = write_id_data_frame 0xF0700 element_id value"
| "h3_write (H3PriorityUpdatePush element_id value) = write_id_data_frame 0xF0701 element_id value"
| "h3_write (H3Unknown _ _) = (\<lambda>_. Inl Panic)"

definition h3_encode :: "http3_frame \<Rightarrow> usize \<Rightarrow> (byte list \<times> usize) h3_result" where
  "h3_encode f room = lift_h3 (rbind (h3_write f (wb_new room)) (\<lambda>b. Inr (wb_out b, room - wb_room b)))"

subsection \<open>Decoding\<close>

definition hbind :: "'a h3_result \<Rightarrow> ('a \<Rightarrow> 'b h3_result) \<Rightarrow> 'b h3_result" where
  "hbind r f = (case r of Inl e \<Rightarrow> Inl e | Inr x \<Rightarrow> f x)"

lemma hbind_simps [simp]: "hbind (Inl e) f = Inl e" "hbind (Inr x) f = f x"
  by (simp_all add: hbind_def)

text \<open>What one pair of a SETTINGS frame does to the four settings that are known.\<close>

type_synonym settings4 = "u64 option \<times> u64 option \<times> u64 option \<times> u64 option"

definition apply_setting :: "u64 \<Rightarrow> u64 \<Rightarrow> settings4 \<Rightarrow> settings4 h3_result" where
  "apply_setting i v s =
     (let (a, b, c, d) = s
      in if i = 0x6 then Inr (Some v, b, c, d)
         else if i = 0x1 then Inr (a, Some v, c, d)
         else if i = 0x7 then Inr (a, b, Some v, d)
         else if i = 0x8 then (if v > 1 then Inl (H3Err H3SettingsError) else Inr (a, b, c, Some v))
         else if i \<in> {0x0, 0x2, 0x3, 0x4, 0x5} then Inl (H3Err H3SettingsError)
         else Inr s)"

function settings_loop ::
    "byte list \<Rightarrow> settings4 \<Rightarrow> (u64 \<times> u64) list \<Rightarrow> (settings4 \<times> (u64 \<times> u64) list) h3_result" where
  "settings_loop buf s raw =
     (if buf = [] then Inr (s, raw)
      else case read_varint buf of
        Inl e \<Rightarrow> lift_h3 (Inl e)
      | Inr (i, b1) \<Rightarrow>
          (case read_varint b1 of
             Inl e \<Rightarrow> lift_h3 (Inl e)
           | Inr (v, b2) \<Rightarrow>
               (case apply_setting i v s of
                  Inl e \<Rightarrow> Inl e
                | Inr s' \<Rightarrow> settings_loop b2 s' (raw @ [(i, v)]))))"
  by pat_completeness auto

lemma read_varint_less: "read_varint b = Inr (n, r) \<Longrightarrow> length r < length b"
  by (cases rule: read_varint_cases [of b]) auto

termination settings_loop
  by (relation "measure (\<lambda>(b, _, _). length b)") (auto dest!: read_varint_less)

declare settings_loop.simps [simp del]

definition decode_settings_frame :: "u64 \<Rightarrow> byte list \<Rightarrow> http3_frame h3_result" where
  "decode_settings_frame payload_length b =
     (if payload_length > MAX_SETTINGS_PAYLOAD_SIZE then Inl (H3Err H3ExcessiveLoad)
      else hbind (settings_loop b (None, None, None, None) [])
             (\<lambda>((a, b, c, d), raw). Inr (H3Settings a b c d (Some raw))))"

definition read_id_data :: "(u64 \<Rightarrow> byte list \<Rightarrow> http3_frame) \<Rightarrow> u64 \<Rightarrow> byte list \<Rightarrow> http3_frame h3_result" where
  "read_id_data mk payload_length buf =
     hbind (lift_h3 (read_varint buf)) (\<lambda>(i, b).
       (case encode_varint_len i of
          None \<Rightarrow> Inl H3Panic
        | Some l \<Rightarrow> hbind (lift_h3 (read_bytes (sub64 payload_length l) b)) (\<lambda>(data, _). Inr (mk i data))))"

definition decode_push_promise :: "u64 \<Rightarrow> byte list \<Rightarrow> http3_frame h3_result" where
  "decode_push_promise = read_id_data H3PushPromise"

definition decode_priority_update :: "u64 \<Rightarrow> u64 \<Rightarrow> byte list \<Rightarrow> http3_frame h3_result" where
  "decode_priority_update frame_type =
     (if frame_type = 0xF0700 then read_id_data H3PriorityUpdateRequest
      else if frame_type = 0xF0701 then read_id_data H3PriorityUpdatePush
      else (\<lambda>_ _. Inl H3Panic))"

definition read_id :: "(u64 \<Rightarrow> http3_frame) \<Rightarrow> byte list \<Rightarrow> http3_frame h3_result" where
  "read_id mk buf = hbind (lift_h3 (read_varint buf)) (\<lambda>(i, _). Inr (mk i))"

definition decode_payload :: "u64 \<Rightarrow> u64 \<Rightarrow> byte list \<Rightarrow> http3_frame h3_result" where
  "decode_payload frame_type payload_length buf =
     (if frame_type = 0x0 then hbind (lift_h3 (read_bytes payload_length buf)) (\<lambda>(data, _). Inr (H3Data data))
      else if frame_type = 0x1 then hbind (lift_h3 (read_bytes payload_length buf)) (\<lambda>(data, _). Inr (H3Headers data))
      else if frame_type = 0x3 then read_id H3CancelPush buf
      else if frame_type = 0x4 then decode_settings_frame payload_length buf
      else if frame_type = 0x5 then decode_push_promise payload_length buf
      else if frame_type = 0x7 then read_id H3GoAway buf
      else if frame_type = 0xD then read_id H3MaxPushId buf
      else if frame_type = 0xF0700 \<or> frame_type = 0xF0701 then decode_priority_update frame_type payload_length buf
      else Inr (H3Unknown frame_type payload_length))"

definition h3_decode :: "byte list \<Rightarrow> http3_frame h3_result" where
  "h3_decode buf =
     hbind (lift_h3 (read_varint buf)) (\<lambda>(frame_type, b).
     hbind (lift_h3 (read_varint b)) (\<lambda>(payload_length, b).
       decode_payload frame_type payload_length b))"

subsection \<open>Round trip\<close>

definition settings_pairs :: "u64 option \<Rightarrow> u64 option \<Rightarrow> u64 option \<Rightarrow> u64 option \<Rightarrow> (u64 \<times> u64) list" where
  "settings_pairs a b c d =
     (case a of None \<Rightarrow> [] | Some x \<Rightarrow> [(6, x)]) @ (case b of None \<Rightarrow> [] | Some x \<Rightarrow> [(1, x)])
     @ (case c of None \<Rightarrow> [] | Some x \<Rightarrow> [(7, x)]) @ (case d of None \<Rightarrow> [] | Some x \<Rightarrow> [(8, x)])"

fun h3_ok :: "http3_frame \<Rightarrow> bool" where
  "h3_ok (H3Data data) \<longleftrightarrow> length data \<le> VINT_MAX"
| "h3_ok (H3Headers data) \<longleftrightarrow> length data \<le> VINT_MAX"
| "h3_ok (H3CancelPush i) \<longleftrightarrow> i \<le> VINT_MAX"
| "h3_ok (H3Settings a b c d _) \<longleftrightarrow>
     (\<forall>n\<in>set (settings_nums a b c d). n \<le> VINT_MAX) \<and> (\<forall>x. d = Some x \<longrightarrow> x \<le> 1)"
| "h3_ok (H3PushPromise i data) \<longleftrightarrow> i \<le> VINT_MAX \<and> 8 + length data \<le> VINT_MAX"
| "h3_ok (H3GoAway i) \<longleftrightarrow> i \<le> VINT_MAX"
| "h3_ok (H3MaxPushId i) \<longleftrightarrow> i \<le> VINT_MAX"
| "h3_ok (H3PriorityUpdateRequest i data) \<longleftrightarrow> i \<le> VINT_MAX \<and> 8 + length data \<le> VINT_MAX"
| "h3_ok (H3PriorityUpdatePush i data) \<longleftrightarrow> i \<le> VINT_MAX \<and> 8 + length data \<le> VINT_MAX"
| "h3_ok (H3Unknown _ _) \<longleftrightarrow> False"

text \<open>What the receiver gets: the pairs of a SETTINGS frame are recorded.\<close>

fun h3_received :: "http3_frame \<Rightarrow> http3_frame" where
  "h3_received (H3Settings a b c d _) = H3Settings a b c d (Some (settings_pairs a b c d))"
| "h3_received f = f"

text \<open>The end of a SETTINGS frame is the end of the buffer.\<close>

fun ends_frame :: "http3_frame \<Rightarrow> byte list \<Rightarrow> bool" where
  "ends_frame (H3Settings _ _ _ _ _) rest \<longleftrightarrow> rest = []"
| "ends_frame _ rest \<longleftrightarrow> True"

fun h3_bytes :: "http3_frame \<Rightarrow> byte list" where
  "h3_bytes (H3Data data) = varint_bytes 0 @ varint_bytes (length data) @ data"
| "h3_bytes (H3Headers data) = varint_bytes 1 @ varint_bytes (length data) @ data"
| "h3_bytes (H3CancelPush i) = nums_bytes [3, vlen i, i]"
| "h3_bytes (H3Settings a b c d _) =
     nums_bytes [4, length (nums_bytes (settings_nums a b c d))] @ nums_bytes (settings_nums a b c d)"
| "h3_bytes (H3PushPromise i data) = nums_bytes [5, vlen i + length data, i] @ data"
| "h3_bytes (H3GoAway i) = nums_bytes [7, vlen i, i]"
| "h3_bytes (H3MaxPushId i) = nums_bytes [13, vlen i, i]"
| "h3_bytes (H3PriorityUpdateRequest i data) = nums_bytes [0xF0700, vlen i + length data, i] @ data"
| "h3_bytes (H3PriorityUpdatePush i data) = nums_bytes [0xF0701, vlen i + length data, i] @ data"
| "h3_bytes (H3Unknown _ _) = []"

lemma h3_small [simp]:
  "(0::nat) \<le> VINT_MAX" "Suc 0 \<le> VINT_MAX" "(3::nat) \<le> VINT_MAX" "(4::nat) \<le> VINT_MAX" "(5::nat) \<le> VINT_MAX"
  "(7::nat) \<le> VINT_MAX" "(13::nat) \<le> VINT_MAX" "(0xF0700::nat) \<le> VINT_MAX" "(0xF0701::nat) \<le> VINT_MAX"
  by (simp_all add: VINT_MAX_def)

lemma vlen_le8: "vlen n \<le> 8"
  by (simp add: vlen_cases)

lemma vlen_vint: "vlen n \<le> VINT_MAX"
  using vlen_le8 [of n] by (simp add: VINT_MAX_def)

lemma write_data_frame_emit:
  "t \<le> VINT_MAX \<Longrightarrow> length data \<le> VINT_MAX \<Longrightarrow>
   write_data_frame t data = emit (varint_bytes t @ varint_bytes (length data) @ data)"
  by (simp add: write_data_frame_def seq_emits del: seqw.simps)

lemma write_id_frame_emit:
  "t \<le> VINT_MAX \<Longrightarrow> i \<le> VINT_MAX \<Longrightarrow> write_id_frame t i = emit (nums_bytes [t, vlen i, i])"
proof -
  assume a: "t \<le> VINT_MAX" "i \<le> VINT_MAX"
  then have "with_varint_len i write_varint = emit (varint_bytes (vlen i))"
    by (simp add: fun_eq_iff with_varint_len_def encode_varint_len_eq write_varint_emit vlen_vint)
  with a show ?thesis by (simp add: write_id_frame_def seq_emits del: seqw.simps)
qed

lemma write_id_data_frame_emit:
  "t \<le> VINT_MAX \<Longrightarrow> i \<le> VINT_MAX \<Longrightarrow> 8 + length data \<le> VINT_MAX \<Longrightarrow>
   write_id_data_frame t i data = emit (nums_bytes [t, vlen i + length data, i] @ data)"
proof -
  assume a: "t \<le> VINT_MAX" "i \<le> VINT_MAX" "8 + length data \<le> VINT_MAX"
  then have "vlen i + length data \<le> VINT_MAX" using vlen_le8 [of i] by linarith
  with a have "seqw [write_varint t, write_varint (vlen i + length data), write_varint i, write_bytes data]
      = emit (nums_bytes [t, vlen i + length data, i] @ data)"
    by (simp add: seq_emits del: seqw.simps)
  with a show ?thesis
    by (simp add: fun_eq_iff write_id_data_frame_def with_varint_len_def encode_varint_len_eq del: seqw.simps)
qed

lemma length_settings:
  assumes "\<forall>n\<in>set (settings_nums a b c d). n \<le> VINT_MAX"
  shows "length (nums_bytes (settings_nums a b c d)) \<le> 64"
proof -
  have n: "length (nums_bytes ns) \<le> 8 * length ns" for ns
  proof (induction ns)
    case (Cons n ns)
    then show ?case using vlen_le8 [of n] by (simp add: vlen_def)
  qed simp
  have "length (settings_nums a b c d) \<le> 8"
    by (simp add: settings_nums_def opt_setting_def split: option.split)
  with n [of "settings_nums a b c d"] show ?thesis by linarith
qed

lemma encode_settings_emit:
  assumes "\<forall>n\<in>set (settings_nums a b c d). n \<le> VINT_MAX"
  shows "encode_settings_frame a b c d =
    emit (nums_bytes [4, length (nums_bytes (settings_nums a b c d))] @ nums_bytes (settings_nums a b c d))"
proof -
  let ?n = "settings_nums a b c d"
  have l: "length (nums_bytes ?n) \<le> VINT_MAX" using length_settings [OF assms] by (simp add: VINT_MAX_def)
  have "write_varint 0x4 # write_varint (length (nums_bytes ?n)) # map write_varint ?n
      = map write_varint ([4, length (nums_bytes ?n)] @ ?n)" by simp
  moreover have "seqw (map write_varint ([4, length (nums_bytes ?n)] @ ?n)) = emit (nums_bytes ([4, length (nums_bytes ?n)] @ ?n))"
    using assms l by (intro seqw_nums) auto
  ultimately have "seqw (write_varint 0x4 # write_varint (length (nums_bytes ?n)) # map write_varint ?n)
      = emit (nums_bytes [4, length (nums_bytes ?n)] @ nums_bytes ?n)" by (simp only: nums_bytes_append)
  then show ?thesis
    by (simp add: fun_eq_iff encode_settings_frame_def Let_def vsum_nums [OF assms] del: seqw.simps nums_bytes_simps)
qed

lemma h3_write_emit: "h3_ok f \<Longrightarrow> h3_write f = emit (h3_bytes f)"
  by (cases f) (simp_all add: write_data_frame_emit write_id_frame_emit write_id_data_frame_emit
      encode_settings_emit del: nums_bytes_simps)

subsection \<open>Reading back\<close>

lemma lift_h3_Inr [simp]: "lift_h3 (Inr x) = Inr x"
  by (simp add: lift_h3_def)

lemma h3_decode_header:
  "t \<le> VINT_MAX \<Longrightarrow> l \<le> VINT_MAX \<Longrightarrow>
   h3_decode (varint_bytes t @ varint_bytes l @ b) = decode_payload t l b"
  by (simp add: h3_decode_def)

lemma read_id_data_ok:
  assumes "i \<le> VINT_MAX"
  shows "read_id_data mk (vlen i + length data) (varint_bytes i @ data @ rest) = Inr (mk i data)"
  using assms by (simp add: read_id_data_def encode_varint_len_eq sub64_nowrap)

lemma settings_step:
  assumes "i \<le> VINT_MAX" "v \<le> VINT_MAX"
  shows "settings_loop (varint_bytes i @ varint_bytes v @ rest) s raw =
    (case apply_setting i v s of Inl e \<Rightarrow> Inl e | Inr s' \<Rightarrow> settings_loop rest s' (raw @ [(i, v)]))"
  using assms by (subst settings_loop.simps) simp

lemma settings_end: "settings_loop [] s raw = Inr (s, raw)"
  by (subst settings_loop.simps) simp

lemma settings_loop_ok:
  assumes "\<forall>n\<in>set (settings_nums a b c d). n \<le> VINT_MAX" "\<And>x. d = Some x \<Longrightarrow> x \<le> 1"
  shows "settings_loop (nums_bytes (settings_nums a b c d)) (None, None, None, None) []
    = Inr ((a, b, c, d), settings_pairs a b c d)"
proof -
  have m: "(6::nat) \<le> VINT_MAX" "(8::nat) \<le> VINT_MAX" by (simp_all add: VINT_MAX_def)
  have step: "settings_loop (nums_bytes (opt_setting i v) @ rest) s raw =
      (case v of None \<Rightarrow> settings_loop rest s raw
       | Some x \<Rightarrow> (case apply_setting i x s of Inl e \<Rightarrow> Inl e | Inr s' \<Rightarrow> settings_loop rest s' (raw @ [(i, x)])))"
    if "i \<le> VINT_MAX" "\<And>x. v = Some x \<Longrightarrow> x \<le> VINT_MAX" for i v rest s raw
    using that by (simp add: opt_setting_def settings_step split: option.split)
  have b: "x \<le> VINT_MAX" if "a = Some x \<or> b = Some x \<or> c = Some x \<or> d = Some x" for x
    using that assms(1) by (auto simp: settings_nums_def opt_setting_def)
  have last: "settings_loop (nums_bytes (opt_setting 8 d)) s raw =
      (case d of None \<Rightarrow> Inr (s, raw)
       | Some x \<Rightarrow> (case apply_setting 8 x s of Inl e \<Rightarrow> Inl e | Inr s' \<Rightarrow> Inr (s', raw @ [(8, x)])))" for s raw
    using step [of 8 d "[]" s raw] b m by (simp add: settings_end split: option.split sum.split)
  show ?thesis
    unfolding settings_nums_def nums_bytes_append
    by (simp add: step b m last settings_pairs_def apply_setting_def split: option.split)
      (auto dest!: assms(2))
qed

lemma h3_decode_bytes:
  assumes "h3_ok f" "ends_frame f rest"
  shows "h3_decode (h3_bytes f @ rest) = Inr (h3_received f)"
proof -
  have v: "vlen i + length data \<le> VINT_MAX" if "8 + length data \<le> VINT_MAX" for i and data :: "byte list"
    using that vlen_le8 [of i] by linarith
  show ?thesis
  proof (cases f)
    case (H3Settings a b c d raw)
    have l: "length (nums_bytes (settings_nums a b c d)) \<le> 64" and n: "\<forall>n\<in>set (settings_nums a b c d). n \<le> VINT_MAX"
      using assms(1) H3Settings length_settings by auto
    then have lv: "length (nums_bytes (settings_nums a b c d)) \<le> VINT_MAX" by (simp add: VINT_MAX_def)
    have "decode_settings_frame (length (nums_bytes (settings_nums a b c d))) (nums_bytes (settings_nums a b c d))
        = Inr (H3Settings a b c d (Some (settings_pairs a b c d)))"
      using settings_loop_ok [OF n] assms(1) H3Settings l
      by (simp add: decode_settings_frame_def MAX_SETTINGS_PAYLOAD_SIZE_def)
    then show ?thesis
      using H3Settings assms(2) h3_decode_header [of 4 _ "nums_bytes (settings_nums a b c d)", OF _ lv]
      by (simp add: decode_payload_def)
  qed (use assms v in \<open>simp_all add: h3_decode_header vlen_vint decode_payload_def read_id_def
        decode_push_promise_def decode_priority_update_def read_id_data_ok\<close>)
qed

text \<open>
  C13. HTTP/3 frames round-trip: a frame that may be sent is written when there is room, with exactly
  the bytes that decoding turns back into the frame (a SETTINGS frame comes back with its list of
  pairs, and must be the last thing in the buffer); without room the encoder fails with
  \<open>BufferTooShort\<close>.
\<close>

theorem h3_frame_roundtrip:
  assumes "h3_ok f"
  shows "\<exists>bs. (\<forall>room. h3_encode f room =
        (if room < length bs then Inl (H3Err (H3TransportError BufferTooShort)) else Inr (bs, length bs)))
    \<and> (\<forall>rest. ends_frame f rest \<longrightarrow> h3_decode (bs @ rest) = Inr (h3_received f))"
  using h3_write_emit [OF assms] h3_decode_bytes [OF assms]
  by (intro exI [of _ "h3_bytes f"])
    (simp add: h3_encode_def emit_def wb_new_def lift_h3_def h3_from_def)

theorem h3_frame_roundtrip_witness:
  "\<exists>bs. h3_decode (bs @ []) = Inr (H3Settings (Some 70000) None None (Some 1) (Some [(6, 70000), (8, 1)]))"
  using h3_frame_roundtrip [of "H3Settings (Some 70000) None None (Some 1) None"]
  by (auto simp: settings_nums_def opt_setting_def settings_pairs_def VINT_MAX_def)

text \<open>
  A PUSH_PROMISE frame whose push identifier is not encoded in the fewest bytes is misread: the
  length of its field section is computed from the shortest encoding, so one byte too many is
  wanted, and a complete frame fails with \<open>BufferTooShort\<close>.
\<close>

theorem push_promise_long_id_misread:
  "h3_decode [5, 2, 0x40, 0] = Inl (H3Err (H3TransportError BufferTooShort))"
proof -
  have t: "read_varint [5, 2, 0x40, 0] = Inr (5, [2, 0x40, 0])" "read_varint [2, 0x40, 0] = Inr (2, [0x40, 0])"
    "read_varint [0x40, 0] = Inr (0, [])"
    by (simp_all add: read_varint_eq Let_def be_nat_def)
  show ?thesis
    by (simp add: h3_decode_def t decode_payload_def decode_push_promise_def read_id_data_def
        encode_varint_len_def sub64_def read_bytes_def take_bytes_eq lift_h3_def h3_from_def)
qed

end
