(* ===== verification/Token.thy ===== *)
theory Token
  imports TransParam
begin

text \<open>
  \<open>src/token.rs\<close>: the tokens that validate the address of a client, and stateless reset tokens.  The
  authenticated encryption of the cryptographic library is a parameter: \<open>seal n a m\<close> is the sealed
  message with its tag, and \<open>unseal n a c\<close> the buffer after decryption in place, the plaintext
  followed by what was the tag; \<^const>\<open>None\<close> is its error.  The random nonce and the current time are
  arguments.  A point in time is its distance from the Unix epoch in nanoseconds, an integer, and an
  address its octets and its port.
\<close>

text \<open>The length of a nonce, a documented constant of that library (96 bits).\<close>

definition NONCE_LEN :: usize where
  "NONCE_LEN = 12"

datatype address_token_type = RetryToken | ResumeToken

type_synonym socket_address = "byte list \<times> 16 word"

record address_token =
  at_token_type :: address_token_type
  at_issued :: int
  at_address :: socket_address
  at_odcid :: "byte list option"
  at_rscid :: "byte list option"

type_synonym aead_seal = "byte list \<Rightarrow> byte list \<Rightarrow> byte list \<Rightarrow> byte list option"
type_synonym aead_open = "byte list \<Rightarrow> byte list \<Rightarrow> byte list \<Rightarrow> byte list option"

definition new_retry_token :: "int \<Rightarrow> socket_address \<Rightarrow> byte list \<Rightarrow> byte list \<Rightarrow> address_token" where
  "new_retry_token now address odcid rscid =
     \<lparr>at_token_type = RetryToken, at_issued = now, at_address = address, at_odcid = Some odcid, at_rscid = Some rscid\<rparr>"

definition new_resume_token :: "int \<Rightarrow> socket_address \<Rightarrow> address_token" where
  "new_resume_token now address =
     \<lparr>at_token_type = ResumeToken, at_issued = now, at_address = address, at_odcid = None, at_rscid = None\<rparr>"

definition token_label :: "byte list" where
  "token_label = [0x71, 0x75, 0x69, 0x63]"

fun type_byte :: "address_token_type \<Rightarrow> byte" where
  "type_byte RetryToken = 0"
| "type_byte ResumeToken = 1"

definition issue_time :: "address_token \<Rightarrow> nat result" where
  "issue_time t = (if at_issued t < 0 then Inl (Err InternalError) else Inr (nat (at_issued t div 1000000000)))"

definition additional_data ::
    "address_token_type \<Rightarrow> socket_address \<Rightarrow> byte list option \<Rightarrow> byte list result" where
  "additional_data token_type address rscid =
     rbind (seqw (write_bytes (fst address)
                  # (if token_type = RetryToken
                     then [write_u16 (snd address),
                           (case rscid of None \<Rightarrow> (\<lambda>_. Inl (Err InternalError)) | Some c \<Rightarrow> write_bytes c)]
                     else [])) (wb_new (16 + 2 + 20)))
       (\<lambda>b. Inr (wb_out b))"

definition max_token_len :: "usize \<Rightarrow> usize" where
  "max_token_len tag_len = 4 + 1 + NONCE_LEN + 8 + 21 + tag_len"

definition token_encode :: "aead_seal \<Rightarrow> usize \<Rightarrow> byte list \<Rightarrow> address_token \<Rightarrow> byte list result" where
  "token_encode seal tag_len nonce t =
     rbind (seqw [write_bytes token_label, write_u8 (type_byte (at_token_type t)), write_bytes nonce]
              (wb_new (max_token_len tag_len))) (\<lambda>hdr.
     rbind (issue_time t) (\<lambda>seconds.
     rbind (seqw (write_u64 (word_of_nat seconds)
                  # (if at_token_type t = RetryToken
                     then (case at_odcid t of
                             Some odcid \<Rightarrow> [write_u8 (word_of_nat (length odcid)), write_bytes odcid]
                           | None \<Rightarrow> [\<lambda>_. Inl (Err InternalError)])
                     else [])) hdr) (\<lambda>body.
     rbind (additional_data (at_token_type t) (at_address t) (at_rscid t)) (\<lambda>aad.
       (case seal nonce aad (drop (length (wb_out hdr)) (wb_out body)) of
          None \<Rightarrow> Inl (Err InternalError)
        | Some sealed \<Rightarrow> Inr (wb_out hdr @ sealed))))))"

definition read_odcid :: "address_token_type \<Rightarrow> byte list \<Rightarrow> byte list \<Rightarrow> byte list option result" where
  "read_odcid token_type pkt_dcid buf =
     (if token_type = RetryToken then
        rbind (read_u8 buf) (\<lambda>(cid_len, b).
          if cid_len = 0 then Inr None
          else if unat cid_len \<le> 20 then rbind (read_bytes (unat cid_len) b) (\<lambda>(cid, _). Inr (Some (cid_new cid)))
          else Inl (Err InvalidToken))
      else Inr (Some pkt_dcid))"

text \<open>The checks on a decrypted body; a time beyond the range of \<open>SystemTime\<close> does not exist.\<close>

definition token_body ::
    "address_token_type \<Rightarrow> socket_address \<Rightarrow> byte list \<Rightarrow> nat \<Rightarrow> int \<Rightarrow> byte list \<Rightarrow> address_token result" where
  "token_body token_type address pkt_dcid lifetime now plain =
     rbind (read_u64 plain) (\<lambda>(secs, b).
       let issued = int (unat secs) * 1000000000
       in if unat secs \<ge> 2 ^ 63 then Inl (Err InvalidToken)
          else if now < issued then Inl (Err InvalidToken)
          else if now - issued > int lifetime then Inl (Err InvalidToken)
          else rbind (read_odcid token_type pkt_dcid b) (\<lambda>odcid.
            Inr \<lparr>at_token_type = token_type, at_issued = issued, at_address = address, at_odcid = odcid,
                 at_rscid = (if token_type = RetryToken then Some pkt_dcid else None)\<rparr>))"

definition token_decode ::
    "aead_open \<Rightarrow> byte list \<Rightarrow> socket_address \<Rightarrow> byte list \<Rightarrow> nat \<Rightarrow> int \<Rightarrow> address_token result" where
  "token_decode unseal token address pkt_dcid lifetime now =
     rbind (read_bytes 4 token) (\<lambda>(label, b).
     if label \<noteq> token_label then Inl (Err InvalidToken)
     else rbind (read_u8 b) (\<lambda>(ty, b).
     rbind (if ty = 0 then Inr RetryToken else if ty = 1 then Inr ResumeToken else Inl (Err InvalidToken)) (\<lambda>token_type.
     rbind (read_bytes NONCE_LEN b) (\<lambda>(nonce, b).
     rbind (additional_data token_type address (if token_type = RetryToken then Some pkt_dcid else None)) (\<lambda>aad.
       (case unseal nonce aad b of
          None \<Rightarrow> Inl (Err InvalidToken)
        | Some plain \<Rightarrow> token_body token_type address pkt_dcid lifetime now plain))))))"

definition token_type_of :: "byte list \<Rightarrow> address_token_type result" where
  "token_type_of token =
     (if length token < 5 then Inl (Err InvalidToken)
      else if token ! 4 = 0 then Inr RetryToken
      else if token ! 4 = 1 then Inr ResumeToken
      else Inl (Err InvalidToken))"

subsection \<open>Stateless reset tokens\<close>

definition RESET_TOKEN_LEN :: usize where
  "RESET_TOKEN_LEN = 16"

text \<open>\<open>sign\<close> is the keyed hash of the cryptographic library; \<open>ResetToken::new\<close> is \<^const>\<open>reset_token_new\<close>.\<close>

definition reset_token_generate :: "(byte list \<Rightarrow> byte list) \<Rightarrow> byte list \<Rightarrow> byte list result" where
  "reset_token_generate sign cid =
     (if length (sign cid) < RESET_TOKEN_LEN then Inl Panic else Inr (take RESET_TOKEN_LEN (sign cid)))"

definition MIN_RESET_PACKET_LEN :: usize where
  "MIN_RESET_PACKET_LEN = 21"

definition reset_token_from_bytes :: "byte list \<Rightarrow> byte list result" where
  "reset_token_from_bytes buf =
     (if length buf < MIN_RESET_PACKET_LEN then Inl (Err BufferTooShort)
      else Inr (drop (length buf - RESET_TOKEN_LEN) buf))"

definition reset_token_to_u128 :: "byte list \<Rightarrow> nat" where
  "reset_token_to_u128 t = be_nat t"

definition reset_token_from_u128 :: "nat \<Rightarrow> byte list" where
  "reset_token_from_u128 v = be_bytes RESET_TOKEN_LEN v"

subsection \<open>Round trip\<close>

text \<open>
  What is relied on of the encryption: a sealed message is opened with the same nonce and additional
  data, and with other additional data it is refused.
\<close>

definition aead_correct :: "aead_seal \<Rightarrow> aead_open \<Rightarrow> bool" where
  "aead_correct seal unseal \<longleftrightarrow> (\<forall>n a m. \<exists>c t. seal n a m = Some c \<and> unseal n a c = Some (m @ t))"

definition aead_authentic :: "aead_seal \<Rightarrow> aead_open \<Rightarrow> bool" where
  "aead_authentic seal unseal \<longleftrightarrow> (\<forall>n a a' m c. seal n a m = Some c \<longrightarrow> a' \<noteq> a \<longrightarrow> unseal n a' c = None)"

definition token_aad :: "address_token_type \<Rightarrow> socket_address \<Rightarrow> byte list \<Rightarrow> byte list" where
  "token_aad ty address rscid =
     fst address @ (if ty = RetryToken then be_bytes 2 (unat (snd address)) @ rscid else [])"

lemma emit_new: "length bs \<le> n \<Longrightarrow> emit bs (wb_new n) = Inr \<lparr>wb_out = bs, wb_room = n - length bs\<rparr>"
  by (simp add: emit_def wb_new_def)

lemma additional_data_ok:
  assumes "length (fst address) \<le> 16" "ty = RetryToken \<Longrightarrow> rscid = Some c \<and> length c \<le> 20"
  shows "additional_data ty address rscid = Inr (token_aad ty address c)"
proof (cases ty)
  case RetryToken
  then have r: "rscid = Some c" "length c \<le> 20" using assms(2) by blast+
  have e: "seqw [write_bytes (fst address), write_u16 (snd address), write_bytes c] = emit (token_aad ty address c)"
    using RetryToken unfolding token_aad_def write_u16_def by (simp add: seq_emits del: seqw.simps)
  have "length (token_aad ty address c) \<le> 16 + 2 + 20"
    using assms(1) r RetryToken by (simp add: token_aad_def be_bytes_def)
  then show ?thesis
    unfolding additional_data_def r RetryToken option.case using e RetryToken
    by (simp only: if_True refl emit_new rbind_simps wbuf.simps)
next
  case ResumeToken
  have e: "seqw [write_bytes (fst address)] = emit (token_aad ty address c)"
    using ResumeToken unfolding token_aad_def by (simp add: seq_emits del: seqw.simps)
  have "length (token_aad ty address c) \<le> 16 + 2 + 20"
    using assms(1) ResumeToken by (simp add: token_aad_def)
  then show ?thesis
    unfolding additional_data_def ResumeToken using e ResumeToken
    by (simp only: if_False address_token_type.distinct emit_new rbind_simps wbuf.simps)
qed

definition token_plain :: "address_token \<Rightarrow> byte list" where
  "token_plain t =
     be_bytes 8 (nat (at_issued t div 1000000000))
     @ (case at_token_type t of RetryToken \<Rightarrow> len8_bytes (the (at_odcid t)) | ResumeToken \<Rightarrow> [])"

text \<open>A token as the two constructors build it, with identifiers of at most twenty bytes.\<close>

definition token_ok :: "address_token \<Rightarrow> bool" where
  "token_ok t \<longleftrightarrow> 0 \<le> at_issued t \<and> at_issued t div 1000000000 < 2 ^ 63
     \<and> (length (fst (at_address t)) = 4 \<or> length (fst (at_address t)) = 16)
     \<and> (case at_token_type t of
          RetryToken \<Rightarrow> (\<exists>c r. at_odcid t = Some c \<and> 1 \<le> length c \<and> length c \<le> 20
                              \<and> at_rscid t = Some r \<and> length r \<le> 20)
        | ResumeToken \<Rightarrow> at_odcid t = None \<and> at_rscid t = None)"

definition token_header :: "address_token_type \<Rightarrow> byte list \<Rightarrow> byte list" where
  "token_header ty nonce = token_label @ [type_byte ty] @ nonce"

lemma token_secs_less: "token_ok t \<Longrightarrow> nat (at_issued t div 1000000000) < 2 ^ 63"
proof -
  assume t: "token_ok t"
  have "0 \<le> at_issued t div 1000000000" "at_issued t div 1000000000 < 2 ^ 63"
    using t unfolding token_ok_def by (simp_all add: pos_imp_zdiv_nonneg_iff)
  then show ?thesis using nat_less_iff [of "at_issued t div 1000000000" "2 ^ 63"] by simp
qed

lemma token_secs:
  assumes "token_ok t"
  shows "unat (word_of_nat (nat (at_issued t div 1000000000)) :: 64 word) = nat (at_issued t div 1000000000)"
  using token_secs_less [OF assms] by (simp add: unat_of_nat)

lemma token_encode_ok:
  assumes "token_ok t" "length nonce = NONCE_LEN"
  shows "token_encode seal tag_len nonce t =
    (case seal nonce (token_aad (at_token_type t) (at_address t) (case at_rscid t of None \<Rightarrow> [] | Some r \<Rightarrow> r)) (token_plain t) of
       None \<Rightarrow> Inl (Err InternalError)
     | Some sealed \<Rightarrow> Inr (token_header (at_token_type t) nonce @ sealed))"
proof -
  let ?h = "token_header (at_token_type t) nonce"
  have h: "seqw [write_bytes token_label, write_u8 (type_byte (at_token_type t)), write_bytes nonce] = emit ?h"
    by (simp add: seq_emits token_header_def del: seqw.simps)
  have hl: "length ?h = 17" using assms(2) by (simp add: token_header_def token_label_def NONCE_LEN_def)
  have i: "issue_time t = Inr (nat (at_issued t div 1000000000))" using assms(1) by (simp add: issue_time_def token_ok_def)
  note s = token_secs [OF assms(1)]
  have b: "seqw (write_u64 (word_of_nat (nat (at_issued t div 1000000000)))
      # (if at_token_type t = RetryToken
         then (case at_odcid t of Some odcid \<Rightarrow> [write_u8 (word_of_nat (length odcid)), write_bytes odcid]
               | None \<Rightarrow> [\<lambda>_. Inl (Err InternalError)]) else [])) = emit (token_plain t)"
    using assms(1)
    by (cases "at_token_type t")
      (auto simp add: token_ok_def token_plain_def write_u64_def s seq_emits len8_bytes_def simp del: seqw.simps)
  have pl: "length (token_plain t) \<le> 29"
    using assms(1) by (cases "at_token_type t") (auto simp: token_ok_def token_plain_def len8_bytes_def)
  have a: "additional_data (at_token_type t) (at_address t) (at_rscid t)
      = Inr (token_aad (at_token_type t) (at_address t) (case at_rscid t of None \<Rightarrow> [] | Some r \<Rightarrow> r))"
    using assms(1) by (intro additional_data_ok) (auto simp: token_ok_def split: address_token_type.splits)
  have e1: "emit ?h (wb_new (max_token_len tag_len)) = Inr \<lparr>wb_out = ?h, wb_room = 29 + tag_len\<rparr>"
    using hl by (simp add: emit_def wb_new_def max_token_len_def NONCE_LEN_def)
  have e2: "emit (token_plain t) \<lparr>wb_out = ?h, wb_room = 29 + tag_len\<rparr>
      = Inr \<lparr>wb_out = ?h @ token_plain t, wb_room = 29 + tag_len - length (token_plain t)\<rparr>"
    using pl by (simp add: emit_def)
  show ?thesis
    unfolding token_encode_def h b i e1 a rbind_simps e2 by (simp split: option.split)
qed

lemma type_byte_read:
  "(if type_byte ty = 0 then Inr RetryToken else if type_byte ty = 1 then Inr ResumeToken else Inl (Err InvalidToken)) = Inr ty"
  by (cases ty) simp_all

lemma token_decode_header:
  assumes "length nonce = NONCE_LEN" "length (fst address) \<le> 16" "ty = RetryToken \<Longrightarrow> length pkt_dcid \<le> 20"
  shows "token_decode unseal (token_header ty nonce @ sealed) address pkt_dcid lifetime now =
    (case unseal nonce (token_aad ty address pkt_dcid) sealed of
       None \<Rightarrow> Inl (Err InvalidToken)
     | Some plain \<Rightarrow> token_body ty address pkt_dcid lifetime now plain)"
proof -
  have a: "additional_data ty address (if ty = RetryToken then Some pkt_dcid else None) = Inr (token_aad ty address pkt_dcid)"
    using assms(2,3) by (intro additional_data_ok) auto
  have r: "read_bytes 4 (token_header ty nonce @ sealed) = Inr (token_label, type_byte ty # nonce @ sealed)"
    by (simp add: token_header_def token_label_def read_bytes_def take_bytes_eq)
  have n: "read_bytes NONCE_LEN (nonce @ sealed) = Inr (nonce, sealed)"
    using assms(1) by (simp add: read_bytes_def)
  show ?thesis
    unfolding token_decode_def r rbind_simps prod.case read_u8_def list.case type_byte_read n a by simp
qed

lemma token_body_ok:
  assumes "token_ok t" "at_issued t div 1000000000 * 1000000000 \<le> now"
    and "now - at_issued t div 1000000000 * 1000000000 \<le> int lifetime"
    and "at_token_type t = RetryToken \<Longrightarrow> at_rscid t = Some pkt_dcid"
  shows "token_body (at_token_type t) (at_address t) pkt_dcid lifetime now (token_plain t @ rest) =
    Inr (t\<lparr>at_issued := at_issued t div 1000000000 * 1000000000,
           at_odcid := (if at_token_type t = RetryToken then at_odcid t else Some pkt_dcid)\<rparr>)"
proof -
  let ?s = "nat (at_issued t div 1000000000)"
  have s: "unat (word_of_nat ?s :: 64 word) = ?s" by (rule token_secs [OF assms(1)])
  have i: "int ?s = at_issued t div 1000000000" using assms(1) by (simp add: token_ok_def)
  have lt: "?s < 2 ^ 63" by (rule token_secs_less [OF assms(1)])
  have r: "read_u64 (be_bytes 8 ?s @ r) = Inr (word_of_nat ?s, r)" for r
    using w64.roundtrip [of "word_of_nat ?s" r] s by simp
  have body: "token_body ty adr pkt_dcid lifetime now (be_bytes 8 ?s @ b) = rbind (read_odcid ty pkt_dcid b) (\<lambda>odcid.
      Inr \<lparr>at_token_type = ty, at_issued = at_issued t div 1000000000 * 1000000000, at_address = adr, at_odcid = odcid,
           at_rscid = (if ty = RetryToken then Some pkt_dcid else None)\<rparr>)" for ty adr b
    unfolding token_body_def r rbind_simps prod.case Let_def s i using lt assms(2,3)
    by (simp only: not_le [symmetric] if_False if_True not_True_eq_False)
  show ?thesis
  proof (cases "at_token_type t")
    case ResumeToken
    then have "at_rscid t = None" using assms(1) by (simp add: token_ok_def)
    with ResumeToken show ?thesis
      unfolding token_plain_def append_assoc body by (cases t) (simp add: read_odcid_def)
  next
    case RetryToken
    then obtain c where c: "at_odcid t = Some c" "1 \<le> length c" "length c \<le> 20" using assms(1) by (auto simp: token_ok_def)
    then have u: "unat (word_of_nat (length c) :: byte) = length c" by (simp add: unat_of_nat)
    then have nz: "(word_of_nat (length c) :: byte) \<noteq> 0" using c(2) by (auto simp: word_unat_eq_iff)
    have "read_odcid RetryToken pkt_dcid (len8_bytes c @ rest) = Inr (Some c)"
      using c u nz by (simp add: read_odcid_def len8_bytes_def read_u8_def read_bytes_def cid_new_def MAX_CID_LEN_def)
    with c(1) RetryToken assms(4) show ?thesis
      unfolding token_plain_def append_assoc body by (cases t) simp
  qed
qed

lemma token_aad_inj:
  assumes "token_aad ty a q = token_aad ty b r" "length (fst a) = length (fst b)"
  shows "fst a = fst b \<and> (ty = RetryToken \<longrightarrow> snd a = snd b \<and> q = r)"
proof -
  have "be_bytes 2 (unat x) = be_bytes 2 (unat y) \<Longrightarrow> x = y" for x y :: "16 word"
    using w16.roundtrip [of x "[]"] w16.roundtrip [of y "[]"] by simp
  with assms show ?thesis by (auto simp: token_aad_def split: if_splits)
qed

text \<open>
  C14. A token that is encoded and presented from the address it was issued to, within its lifetime and,
  for a Retry token, with the retry source connection id as destination, is accepted, and what is decoded is the
  token: its type, its address, its time of issue in whole seconds, and for a Retry token the original
  destination connection id and the retry source connection id.
\<close>

theorem token_roundtrip:
  assumes "aead_correct seal unseal" "token_ok t" "length nonce = NONCE_LEN"
    and "at_issued t div 1000000000 * 1000000000 \<le> now"
    and "now - at_issued t div 1000000000 * 1000000000 \<le> int lifetime"
    and "at_token_type t = RetryToken \<Longrightarrow> at_rscid t = Some pkt_dcid"
  shows "\<exists>bs. token_encode seal tag_len nonce t = Inr bs
    \<and> token_type_of bs = Inr (at_token_type t)
    \<and> token_decode unseal bs (at_address t) pkt_dcid lifetime now
        = Inr (t\<lparr>at_issued := at_issued t div 1000000000 * 1000000000,
                 at_odcid := (if at_token_type t = RetryToken then at_odcid t else Some pkt_dcid)\<rparr>)"
proof -
  let ?a = "token_aad (at_token_type t) (at_address t)"
  obtain c r where c: "seal nonce (?a pkt_dcid) (token_plain t) = Some c"
      "unseal nonce (?a pkt_dcid) c = Some (token_plain t @ r)"
    using assms(1) unfolding aead_correct_def by metis
  have a: "?a (case at_rscid t of None \<Rightarrow> [] | Some r \<Rightarrow> r) = ?a pkt_dcid"
    using assms(6) by (cases "at_token_type t") (auto simp: token_aad_def)
  have h: "token_encode seal tag_len nonce t = Inr (token_header (at_token_type t) nonce @ c)"
    using c(1) by (simp add: token_encode_ok [OF assms(2,3)] a)
  have "token_type_of (token_header (at_token_type t) nonce @ c) = Inr (at_token_type t)"
    by (cases "at_token_type t") (simp_all add: token_type_of_def token_header_def token_label_def)
  moreover have "token_decode unseal (token_header (at_token_type t) nonce @ c) (at_address t) pkt_dcid lifetime now
      = token_body (at_token_type t) (at_address t) pkt_dcid lifetime now (token_plain t @ r)"
    using assms(2,6) c(2)
    by (subst token_decode_header [OF assms(3)])
      (auto simp: token_ok_def split: address_token_type.splits)
  ultimately show ?thesis using h token_body_ok [OF assms(2,4,5,6)] by simp
qed

text \<open>
  An encryption with the two properties relied on, for concrete runs: the tag is the additional data in
  a prefix-free code, reversed.
\<close>

fun aad_code :: "byte list \<Rightarrow> byte list" where
  "aad_code [] = [0]"
| "aad_code (x # xs) = 1 # x # aad_code xs"

definition plain_seal :: aead_seal where
  "plain_seal n a m = Some (m @ rev (aad_code a))"

definition plain_unseal :: aead_open where
  "plain_unseal n a c = (if take (length (aad_code a)) (rev c) = aad_code a then Some c else None)"

lemma aad_code_prefix: "take (length (aad_code b)) (aad_code a @ z) = aad_code b \<Longrightarrow> a = b"
proof (induction a arbitrary: b)
  case Nil
  then show ?case by (cases b) simp_all
next
  case (Cons x a)
  then show ?case by (cases b) simp_all
qed

lemma plain_correct: "aead_correct plain_seal plain_unseal"
  by (simp add: aead_correct_def plain_seal_def plain_unseal_def)

lemma plain_authentic: "aead_authentic plain_seal plain_unseal"
  unfolding aead_authentic_def plain_seal_def plain_unseal_def
proof (intro allI impI)
  fix a a' m c :: "byte list"
  assume c: "Some (m @ rev (aad_code a)) = Some c" and ne: "a' \<noteq> a"
  have "take (length (aad_code a')) (aad_code a @ rev m) \<noteq> aad_code a'"
    using aad_code_prefix [of a' a "rev m"] ne by blast
  with c show "(if take (length (aad_code a')) (rev c) = aad_code a' then Some c else None) = None"
    by (auto simp del: take_append)
qed

theorem token_roundtrip_witness:
  "\<exists>bs. token_encode plain_seal 16 (replicate 12 3) (new_retry_token 5700000000 ([10, 0, 0, 1], 443) [1, 2, 3] [4, 5]) = Inr bs
    \<and> token_type_of bs = Inr RetryToken
    \<and> token_decode plain_unseal bs ([10, 0, 0, 1], 443) [4, 5] 60000000000 9000000000
        = Inr (new_retry_token 5000000000 ([10, 0, 0, 1], 443) [1, 2, 3] [4, 5])"
  using token_roundtrip [OF plain_correct, of "new_retry_token 5700000000 ([10, 0, 0, 1], 443) [1, 2, 3] [4, 5]"
      "replicate 12 3" 9000000000 60000000000 "[4, 5]" 16]
  by (simp add: new_retry_token_def token_ok_def NONCE_LEN_def)

text \<open>
  C15. A token is bound to the address it was issued to: presented from another address of the same
  family, or for a Retry token from another port or with another destination connection id, it is refused as invalid.
\<close>

theorem token_other_address_refused:
  assumes "aead_authentic seal unseal" "token_ok t" "length nonce = NONCE_LEN"
    and "token_encode seal tag_len nonce t = Inr bs"
    and "length (fst address) = length (fst (at_address t))" "length pkt_dcid \<le> 20"
    and "fst address \<noteq> fst (at_address t)
      \<or> (at_token_type t = RetryToken \<and> (snd address \<noteq> snd (at_address t) \<or> at_rscid t \<noteq> Some pkt_dcid))"
  shows "token_decode unseal bs address pkt_dcid lifetime now = Inl (Err InvalidToken)"
proof -
  define q where "q = (case at_rscid t of None \<Rightarrow> [] | Some r \<Rightarrow> r)"
  obtain c where c: "seal nonce (token_aad (at_token_type t) (at_address t) q) (token_plain t) = Some c"
      and bs: "bs = token_header (at_token_type t) nonce @ c"
    using assms(4) unfolding token_encode_ok [OF assms(2,3)] q_def [symmetric]
    by (cases "seal nonce (token_aad (at_token_type t) (at_address t) q) (token_plain t)") simp_all
  have q: "at_rscid t = Some q" if "at_token_type t = RetryToken"
    using assms(2) that by (auto simp: token_ok_def q_def)
  have "token_aad (at_token_type t) address pkt_dcid \<noteq> token_aad (at_token_type t) (at_address t) q"
    using token_aad_inj [of "at_token_type t" address pkt_dcid "at_address t" q] assms(5,7) q by metis
  then have "unseal nonce (token_aad (at_token_type t) address pkt_dcid) c = None"
    using assms(1) c unfolding aead_authentic_def by blast
  moreover have "length (fst address) \<le> 16" using assms(2,5) by (auto simp: token_ok_def)
  ultimately show ?thesis unfolding bs using assms(6) by (subst token_decode_header [OF assms(3)]) simp_all
qed

theorem token_other_address_refused_witness:
  "\<exists>bs. token_encode plain_seal 16 (replicate 12 3) (new_resume_token 5700000000 ([10, 0, 0, 1], 443)) = Inr bs
    \<and> token_decode plain_unseal bs ([10, 0, 0, 2], 443) [4, 5] 60000000000 9000000000 = Inl (Err InvalidToken)"
proof -
  let ?t = "new_resume_token 5700000000 ([10, 0, 0, 1], 443)"
  have ok: "token_ok ?t" by (simp add: new_resume_token_def token_ok_def)
  have n: "length (replicate 12 (3 :: byte)) = NONCE_LEN" by (simp add: NONCE_LEN_def)
  obtain bs where "token_encode plain_seal 16 (replicate 12 3) ?t = Inr bs"
    using token_encode_ok [OF ok n, of plain_seal 16] by (auto simp: plain_seal_def)
  then show ?thesis
    using token_other_address_refused [OF plain_authentic ok n, of 16 bs "([10, 0, 0, 2], 443)" "[4, 5]"]
    by (auto simp: new_resume_token_def)
qed

subsection \<open>Where the code falls short\<close>

text \<open>The additional data of a Retry token does not tell the two address families apart.\<close>

lemma be_bytes_2: "be_bytes 2 n = [word_of_nat (n div 256), word_of_nat n]"
  by (simp add: be_bytes_def upt_rec)

lemma retry_aad_ambiguous:
  "additional_data RetryToken ([10, 0, 0, 1], 443) (Some (replicate 20 7))
     = additional_data RetryToken ([10, 0, 0, 1, 1, 187] @ replicate 10 7, 1799) (Some (replicate 8 7))"
proof -
  have r: "replicate 20 (7 :: byte) = replicate 10 7 @ [7, 7] @ replicate 8 7" by (simp add: numeral_eq_Suc)
  have p: "be_bytes 2 (unat (443 :: 16 word)) = [1, 187]" "be_bytes 2 (unat (1799 :: 16 word)) = [7, 7]"
    unfolding be_bytes_2 by simp_all
  have "token_aad RetryToken ([10, 0, 0, 1], 443) (replicate 20 7)
      = token_aad RetryToken ([10, 0, 0, 1, 1, 187] @ replicate 10 7, 1799) (replicate 8 7)"
    unfolding token_aad_def fst_conv snd_conv p r by simp
  moreover have "additional_data RetryToken ([10, 0, 0, 1], 443) (Some (replicate 20 7))
      = Inr (token_aad RetryToken ([10, 0, 0, 1], 443) (replicate 20 7))"
    by (rule additional_data_ok) simp_all
  moreover have "additional_data RetryToken ([10, 0, 0, 1, 1, 187] @ replicate 10 7, 1799) (Some (replicate 8 7))
      = Inr (token_aad RetryToken ([10, 0, 0, 1, 1, 187] @ replicate 10 7, 1799) (replicate 8 7))"
    by (rule additional_data_ok) simp_all
  ultimately show ?thesis by (simp only:)
qed

text \<open>An empty original destination connection id is decoded as none.\<close>

lemma empty_odcid_lost: "read_odcid RetryToken pkt_dcid (len8_bytes [] @ rest) = Inr None"
  by (simp add: read_odcid_def len8_bytes_def read_u8_def)

lemma be_bytes_be_nat: "be_bytes (length bs) (be_nat bs) = bs"
proof (induction bs rule: rev_induct)
  case (snoc b bs)
  have b: "unat b < 256" using unsigned_less [of b, where 'a = nat] by simp
  then have "(word_of_nat (be_nat bs * 256 + unat b) :: byte) = b"
    unfolding word_unat_eq_iff unat_of_nat by simp
  moreover have "(be_nat bs * 256 + unat b) div 256 = be_nat bs" using b by linarith
  ultimately show ?case using snoc by (simp only: length_append_singleton be_bytes_Suc be_nat_snoc)
qed (simp add: be_bytes_def)

text \<open>The two conversions between a reset token and a 128-bit number are inverse.\<close>

lemma reset_token_u128:
  assumes "length t = RESET_TOKEN_LEN" "v < 2 ^ 128"
  shows "reset_token_from_u128 (reset_token_to_u128 t) = t \<and> reset_token_to_u128 (reset_token_from_u128 v) = v"
  using assms be_bytes_be_nat [of t]
  by (simp add: reset_token_from_u128_def reset_token_to_u128_def be_nat_be_bytes RESET_TOKEN_LEN_def)

end
