(* ===== verification/Timer.thy ===== *)
theory Timer
  imports Prelude
begin

text \<open>
  \<open>src/connection/timer.rs\<close>: the timers of a connection.  The table is the array of the source, indexed
  by the discriminant of the timer; an \<open>Instant\<close> is its distance from a fixed origin in nanoseconds.
\<close>

datatype timer = LossDetection | AckTimer | PacerTimer | Idle | HandshakeTimer | Draining | KeyDiscard
  | KeepAlive | PathChallengeTimer

fun timer_index :: "timer \<Rightarrow> nat" where
  "timer_index LossDetection = 0"
| "timer_index AckTimer = 1"
| "timer_index PacerTimer = 2"
| "timer_index Idle = 3"
| "timer_index HandshakeTimer = 4"
| "timer_index Draining = 5"
| "timer_index KeyDiscard = 6"
| "timer_index KeepAlive = 7"
| "timer_index PathChallengeTimer = 8"

definition timer_COUNT :: nat where
  "timer_COUNT = 9"

record timer_table =
  tt_expires :: "nat option list"

definition timer_table_default :: timer_table where
  "timer_table_default = \<lparr>tt_expires = replicate timer_COUNT None\<rparr>"

definition timer_set :: "timer_table \<Rightarrow> timer \<Rightarrow> nat \<Rightarrow> timer_table" where
  "timer_set t tm time = t\<lparr>tt_expires := (tt_expires t)[timer_index tm := Some time]\<rparr>"

definition timer_get :: "timer_table \<Rightarrow> timer \<Rightarrow> nat option" where
  "timer_get t tm = tt_expires t ! timer_index tm"

definition timer_stop :: "timer_table \<Rightarrow> timer \<Rightarrow> timer_table" where
  "timer_stop t tm = t\<lparr>tt_expires := (tt_expires t)[timer_index tm := None]\<rparr>"

fun iter_min :: "nat list \<Rightarrow> nat option" where
  "iter_min [] = None"
| "iter_min (x # xs) = Some (fold min xs x)"

definition next_timeout :: "timer_table \<Rightarrow> nat option" where
  "next_timeout t = iter_min (List.map_filter id (tt_expires t))"

definition is_expired :: "timer_table \<Rightarrow> timer \<Rightarrow> nat \<Rightarrow> bool" where
  "is_expired t tm after = (case timer_get t tm of None \<Rightarrow> False | Some x \<Rightarrow> x \<le> after)"

subsection \<open>The table as a map\<close>

datatype timer_op = TimerSet timer nat | TimerStop timer

fun timer_step :: "timer_table \<Rightarrow> timer_op \<Rightarrow> timer_table" where
  "timer_step t (TimerSet tm time) = timer_set t tm time"
| "timer_step t (TimerStop tm) = timer_stop t tm"

fun timer_spec :: "(timer \<Rightarrow> nat option) \<Rightarrow> timer_op \<Rightarrow> (timer \<Rightarrow> nat option)" where
  "timer_spec m (TimerSet tm time) = m(tm := Some time)"
| "timer_spec m (TimerStop tm) = m(tm := None)"

lemma timer_index_less [simp]: "timer_index tm < timer_COUNT"
  by (cases tm) (simp_all add: timer_COUNT_def)

lemma timer_index_inj [simp]: "timer_index a = timer_index b \<longleftrightarrow> a = b"
  by (cases a; cases b) simp_all

lemma timer_index_surj:
  assumes "i < timer_COUNT"
  shows "\<exists>tm. timer_index tm = i"
proof -
  have "i = 0 \<or> i = 1 \<or> i = 2 \<or> i = 3 \<or> i = 4 \<or> i = 5 \<or> i = 6 \<or> i = 7 \<or> i = 8"
    using assms unfolding timer_COUNT_def by linarith
  then show ?thesis by (metis timer_index.simps)
qed

lemma timer_step_length [simp]: "length (tt_expires (timer_step t x)) = length (tt_expires t)"
  by (cases x) (simp_all add: timer_set_def timer_stop_def)

lemma timer_step_get:
  assumes "length (tt_expires t) = timer_COUNT"
  shows "timer_get (timer_step t x) = timer_spec (timer_get t) x"
  using assms by (cases x) (auto simp: timer_set_def timer_stop_def timer_get_def fun_eq_iff nth_list_update)

lemma timer_run_length [simp]: "length (tt_expires (foldl timer_step t xs)) = length (tt_expires t)"
  by (induction xs arbitrary: t) simp_all

lemma timer_run_get:
  "length (tt_expires t) = timer_COUNT \<Longrightarrow>
     timer_get (foldl timer_step t xs) = foldl timer_spec (timer_get t) xs"
  by (induction xs arbitrary: t) (simp_all add: timer_step_get)

lemma default_length [simp]: "length (tt_expires timer_table_default) = timer_COUNT"
  by (simp add: timer_table_default_def)

lemma default_get: "timer_get timer_table_default = (\<lambda>_. None)"
  by (simp add: fun_eq_iff timer_get_def timer_table_default_def)

lemma iter_min_le: "(\<exists>x\<in>set xs. x \<le> a) \<longleftrightarrow> (case iter_min xs of None \<Rightarrow> False | Some x \<Rightarrow> x \<le> a)"
proof (cases xs)
  case (Cons y ys)
  have "fold min ys y \<le> a \<longleftrightarrow> y \<le> a \<or> (\<exists>x\<in>set ys. x \<le> a)"
    by (induction ys arbitrary: y) (auto simp: min_def)
  with Cons show ?thesis by simp
qed simp

lemma expires_timers:
  assumes "length (tt_expires t) = timer_COUNT"
  shows "x \<in> set (List.map_filter id (tt_expires t)) \<longleftrightarrow> (\<exists>tm. timer_get t tm = Some x)"
proof -
  have "x \<in> set (List.map_filter id (tt_expires t)) \<longleftrightarrow> Some x \<in> set (tt_expires t)"
    by (force simp: map_filter_def image_iff)
  also have "\<dots> \<longleftrightarrow> (\<exists>i < timer_COUNT. tt_expires t ! i = Some x)" using assms by (auto simp: in_set_conv_nth)
  also have "\<dots> \<longleftrightarrow> (\<exists>tm. timer_get t tm = Some x)"
    unfolding timer_get_def using timer_index_surj timer_index_less by metis
  finally show ?thesis .
qed

text \<open>
  After any sequence of settings and cancellations of timers, some timer is expired at a time exactly
  when the table's next timeout exists and is not after that time: waiting for the next timeout neither
  misses a timer nor wakes up for none; and a timer is expired at a time exactly when the last operation
  on it set it to a time not later.
\<close>

theorem timers_next_timeout:
  "((\<exists>tm. is_expired (foldl timer_step timer_table_default xs) tm now)
      \<longleftrightarrow> (case next_timeout (foldl timer_step timer_table_default xs) of None \<Rightarrow> False | Some x \<Rightarrow> x \<le> now))
   \<and> (is_expired (foldl timer_step timer_table_default xs) tm' now
      \<longleftrightarrow> (\<exists>x \<le> now. foldl timer_spec (\<lambda>_. None) xs tm' = Some x))"
proof -
  let ?t = "foldl timer_step timer_table_default xs"
  have l: "length (tt_expires ?t) = timer_COUNT" by simp
  have e: "is_expired ?t tm now \<longleftrightarrow> (\<exists>x \<le> now. timer_get ?t tm = Some x)" for tm
    by (auto simp: is_expired_def split: option.splits)
  have "(\<exists>tm. is_expired ?t tm now) \<longleftrightarrow> (\<exists>x\<in>set (List.map_filter id (tt_expires ?t)). x \<le> now)"
    unfolding e using expires_timers [OF l] by blast
  moreover have "timer_get ?t = foldl timer_spec (\<lambda>_. None) xs"
    by (simp add: timer_run_get default_get)
  ultimately show ?thesis unfolding next_timeout_def e iter_min_le [symmetric] by simp
qed

end
