(* ===== verification/Spec2Isabelle.thy ===== *)
theory Spec2Isabelle
  imports RecvStream RangeProps FrameWire SeqNumWindow ConnFlow Packet CidControl TransParamProps Rtt Pmtu MinMax Pacing
    PrefixInt H3Frame Token Timer
begin

text \<open>
  Verification of TQUIC, the QUIC library under \<open>src/tquic-develop/tquic-develop/src\<close>.

  \<^bold>\<open>Parts and theories.\<close>
  \<^item> \<open>Prelude\<close>: 64-bit unsigned arithmetic with its wrap-around, slices of lists (out of range they panic), and two locales
    for machines: \<open>inv_machine\<close> (an invariant kept along every admissible run) and
    \<open>mono_machine\<close> (a quantity that never decreases along it).
  \<^item> \<open>Errors\<close>: \<open>error.rs\<close>.  Fallible code returns a sum type; its left side is an error of the
    library or a panic.
  \<^item> \<open>Btree\<close>: the ordered map of the standard library as a sorted association list.
  \<^item> \<open>Ranges\<close>, \<open>RangeProps\<close>: \<open>ranges.rs\<close>, sets of numbers stored as ranges; the locale
    \<open>interval_set\<close> is the contract the stream layer relies on; a set with a capacity keeps it as long as no
    range is cut out of its middle.
  \<^item> \<open>FlowControl\<close>: \<open>connection/flowcontrol.rs\<close>, the counters and the window of received data.
  \<^item> \<open>RangeBuf\<close>, \<open>RecvBuf\<close>, \<open>Reassembly\<close>, \<open>RecvStream\<close>: chunks and the receive buffer of
    \<open>connection/stream.rs\<close>; its definitions, its invariant and content, and the properties of its runs.
  \<^item> \<open>SendBuf\<close>, \<open>SendStream\<close>, \<open>SendRun\<close>: the send buffer of \<open>connection/stream.rs\<close>; its definitions, its
    invariant with the effect of each operation, and the properties of its runs.
  \<^item> \<open>Concurrency\<close>: \<open>ConcurrencyControl\<close> and \<open>SendCapacity\<close> of \<open>connection/stream.rs\<close>, the limits on streams
    and on data that the two sides grant each other.
  \<^item> \<open>Streams\<close>: \<open>Stream\<close> of \<open>connection/stream.rs\<close>, the two buffers of a stream with its flags.
  \<^item> \<open>Priority\<close>: the queue of sendable streams of \<open>connection/stream.rs\<close>, with the order in which it serves them.
  \<^item> \<open>StreamMap\<close>: the stream table of \<open>connection/stream.rs\<close> with the calls of the application and the handlers of
    frames received, acknowledged and lost, and the event queue of \<open>lib.rs\<close>.
  \<^item> \<open>StreamTable\<close>, \<open>StreamMapProps\<close>: an abstract table of send buffers, limits, credit and used identifiers, and the
    proof that every operation of the stream table is a sequence of its steps (the relation \<open>sim\<close>).
  \<^item> \<open>StreamWriter\<close>: \<open>try_write_stream_frames\<close> of \<open>connection/connection.rs\<close>, the loop that fills a packet from
    the sendable streams, writing headers and data at their places in the output buffer.
  \<^item> \<open>StreamRun\<close>, \<open>StreamTheorems\<close>: runs of the stream table under all its operations, and what holds of them:
    credit, identifiers, errors by direction, and the filling of packets.
  \<^item> \<open>ConnFlow\<close>: the connection's flow control along the same runs: no operation of the table gets the bytes
    received past the limit announced to the peer, and the limit never goes back.
  \<^item> \<open>Codec\<close>: \<open>codec.rs\<close>, readers and writers of integers, byte strings and addresses; the locale
    \<open>wire_codec\<close> is what a pair of a writer and a reader promises.
  \<^item> \<open>Frame\<close>, \<open>FrameWire\<close>: \<open>frame.rs\<close>; the frames with their encoder and decoder, and their round trip.
  \<^item> \<open>Packet\<close>: \<open>packet.rs\<close>, packet headers, packet numbers and header protection; the masks of the cryptographic
    library and the length of its tags are parameters.
  \<^item> \<open>ConnId\<close>, \<open>ConnIdProps\<close>: \<open>connection/cid.rs\<close>, the queues of source and destination connection
    identifiers with every operation of their manager, its invariant along every run, and what is known of retired
    identifiers.
  \<^item> \<open>CidControl\<close>: \<open>try_write_cid_control_frame\<close> of \<open>connection/connection.rs\<close>, which writes the frames that announce
    and retire identifiers; when its loop returns and when it does not.
  \<^item> \<open>TransParam\<close>, \<open>TransParamProps\<close>: \<open>trans_param.rs\<close>, the transport parameters of the handshake with their encoder,
    decoder and round trip.
  \<^item> \<open>Token\<close>: \<open>token.rs\<close>, the tokens for address validation, which decode to what was encoded and are bound to
    their address, and stateless reset tokens; the authenticated encryption is a parameter.
  \<^item> \<open>Timer\<close>: \<open>connection/timer.rs\<close>, the table of timers, whose next timeout is that of the first timer to expire.
  \<^item> \<open>Rtt\<close>, \<open>Pmtu\<close>: \<open>connection/rtt.rs\<close> and \<open>connection/pmtu.rs\<close>, the round-trip time estimator with its bounds and path
    MTU discovery with its convergence.
  \<^item> \<open>MinMax\<close>, \<open>Pacing\<close>: \<open>congestion_control/minmax.rs\<close> and \<open>congestion_control/pacing.rs\<close>, the windowed maximum and the
    token bucket; the locale \<open>total_preorder\<close> covers the maximum and the minimum at once.
  \<^item> \<open>H3Error\<close>, \<open>H3Frame\<close>, \<open>PrefixInt\<close>: \<open>h3/error.rs\<close>, \<open>h3/frame.rs\<close> and \<open>h3/qpack/prefix_int.rs\<close>, the errors and frames
    of HTTP/3 and the integers of QPACK, with their round trips.
  \<^item> \<open>SeqNumWindow\<close>: \<open>window.rs\<close>, the window that detects duplicate packet numbers.

  At the end of this theory the sender's and the receiver's buffers are composed: what one application reads
  is a prefix of what the other has written.

  \<^bold>\<open>Conventions.\<close>  A \<open>u64\<close> or \<open>usize\<close> is a natural number below \<open>2 ^ 64\<close>; additions,
  subtractions and multiplications of the code are \<open>add64\<close>, \<open>sub64\<close> and \<open>mul64\<close>, which wrap as the
  release build does.  Instants and durations are numbers of nanoseconds.  A method that changes its
  object returns the new object together with its result.  \<open>None\<close> or \<open>Inl Panic\<close> is a panic;
  in particular a slice of a buffer out of its range is one.

  \<^bold>\<open>Bounds.\<close>  Offsets that reach the stream layer come from variable-length integers and are
  below \<open>2 ^ 62\<close>.  No loop of the model uses fuel: each terminates by a measure, except
  the two loops of \<open>SendBuf::read\<close> and the loop that fills a packet, which are partial functions and are
  proved to return, and the loop that retires connection identifiers, which is proved to return or not to
  return by whether the identifier of its path is queued.  Path MTU discovery is followed for as many rounds as
  its measure allows, which is shown to be enough.

  \<^bold>\<open>Not modelled.\<close>  Cryptography and TLS (BoringSSL), sockets and callbacks, logging and qlog, the
  C interface, floating-point congestion controllers, and the Go programs beside the library.  Loss recovery,
  paths, packet number spaces and the multipath schedulers are tied to the congestion controllers and the
  clock; of the connection only the writing of stream and identifier frames is modelled; of QPACK only its
  integers, and of HTTP/3 only frames and errors.  The encryption and the keyed hash behind the tokens are
  parameters; that \<open>decode\<close> decrypts in the buffer of its caller is not visible in the model.
\<close>

subsection \<open>From the writing to the reading application\<close>

text \<open>The network hands frames of the sender to the receiver in any order, any number of times.\<close>

fun delivers :: "(u64 \<times> byte list \<times> bool) list \<Rightarrow> rv_op \<Rightarrow> bool" where
  "delivers sent (Write off bs fin) \<longleftrightarrow> (off, bs, fin) \<in> set sent \<and> off + length bs < 2 ^ 62"
| "delivers sent (Reset e fsize) \<longleftrightarrow> fsize < 2 ^ 62"
| "delivers sent _ \<longleftrightarrow> True"

text \<open>Beyond the bytes that were written the stream is undetermined.\<close>

definition padded :: "byte list \<Rightarrow> byte \<Rightarrow> nat \<Rightarrow> byte" where
  "padded S x i = (if i < length S then S ! i else x)"

lemma delivers_ok:
  assumes "sent_ok S sent" "\<forall>op \<in> set rops. delivers sent op"
  shows "ok_run rr_step (rr_ok (padded S x)) r rops"
  using assms(2)
proof (induction rops arbitrary: r)
  case (Cons op rops)
  have "rr_ok (padded S x) r op"
  proof (cases op)
    case (Write off bs fin)
    then have f: "(off, bs, fin) \<in> set sent" "off + length bs < 2 ^ 62" using Cons.prems by simp_all
    then have s: "bs \<noteq> [] \<longrightarrow> off + length bs \<le> length S" "bs = segm off (off + length bs) S"
      using assms(1) by (auto simp: sent_ok_def)
    have "bs = map (padded S x) [off..<off + length bs]"
    proof (cases "bs = []")
      case False
      then have le: "off + length bs \<le> length S" using s(1) by simp
      show ?thesis
      proof (rule nth_equalityI)
        fix i assume i: "i < length bs"
        then have "segm off (off + length bs) S ! i = S ! (off + i)" using le by (simp add: segm_def)
        then have "bs ! i = S ! (off + i)" using s(2) by simp
        then show "bs ! i = map (padded S x) [off..<off + length bs] ! i" using i le by (simp add: padded_def)
      qed simp
    qed simp
    then show ?thesis using Write f(2) by simp
  qed (use Cons.prems in simp_all)
  then show ?case using Cons by simp
qed simp

text \<open>
  C2.  In-order delivery from end to end: whatever the writes, acknowledgements, losses and
  retransmissions of the sender, and however the network reorders, repeats and drops its frames and the
  receiver reads, resets and updates its windows, neither side panics, and what the receiving application has
  read is a prefix of what the sending application has written.
\<close>

theorem stream_delivered_in_order:
  assumes "tx_max < u64_mod" and "ok_run sr_step sr_ok (sr_init tx_max) sops" and "sdr = foldl sr_step (sr_init tx_max) sops"
    and "rx_max \<le> max_window" and "max_window < 2 ^ 62" and "\<forall>op \<in> set rops. delivers (sr_sent sdr) op"
    and "rcv = foldl rr_step (rr_init rx_max max_window) rops"
  shows "\<not> sr_stuck sdr \<and> \<not> rr_panic rcv \<and> rr_out rcv = take (length (rr_out rcv)) (sr_written sdr)"
proof -
  let ?S = "sr_written sdr" and ?n = "length (rr_out rcv)"
  have s: "sr_inv sdr" using srm.run_inv [OF sr_init_inv [OF assms(1)] assms(2)] assms(3) by simp
  then have sent: "sent_ok ?S (sr_sent sdr)" by (simp add: sr_inv_def)
  have r: "rr_inv (padded ?S x) rcv" for x
    using rrm.run_inv [OF rr_init_inv [OF assms(4,5)] delivers_ok [OF sent assms(6)]] assms(7) by simp
  then have out: "rr_out rcv = map (padded ?S x) [0..<?n]" for x by (simp add: rr_inv_def)
  have len: "?n \<le> length ?S"
  proof (rule ccontr)
    assume "\<not> ?n \<le> length ?S"
    then have "rr_out rcv ! length ?S = 0" "rr_out rcv ! length ?S = 1"
      using out [of 0] out [of 1] by (metis (no_types, lifting) add_0 diff_zero not_le nth_map nth_upt length_upt padded_def less_irrefl)+
    then show False by simp
  qed
  have "rr_out rcv = take ?n ?S"
  proof (rule nth_equalityI)
    fix i assume i: "i < ?n"
    then have "rr_out rcv ! i = map (padded ?S 0) [0..<?n] ! i" using out [of 0] by metis
    then show "rr_out rcv ! i = take ?n ?S ! i" using i len by (simp add: padded_def)
  qed (use len in simp)
  then show ?thesis using s r [of 0] by (simp add: sr_inv_def rr_inv_def)
qed

theorem stream_delivered_in_order_witness:
  "(\<lambda>sdr rcv. \<not> rr_panic rcv \<and> rr_out rcv = take (length (rr_out rcv)) (sr_written sdr))
     (foldl sr_step (sr_init 10) demo_sends)
     (foldl rr_step (rr_init 100 100) [Write 0 [1, 2] False, Read 1, Write 0 [1, 2] False, Read 5])"
proof -
  have d: "\<forall>op \<in> set [Write 0 [1, 2] False, Read 1, Write 0 [1, 2] False, Read 5]. delivers (sr_sent (foldl sr_step (sr_init 10) demo_sends)) op"
    by (simp add: demo_sends_ok(2))
  have w: "(100 :: nat) \<le> 100" "(100 :: nat) < 2 ^ 62" by simp_all
  from stream_delivered_in_order [OF ten_u64 demo_sends_ok(1) refl w d refl] show ?thesis by simp
qed

end
